(* ===== verification/Redis_Prelude.thy ===== *)
theory Redis_Prelude
  imports Main "HOL-Library.Word" "HOL-Library.Monad_Syntax"
begin

text \<open>
  Shared vocabulary of the development: bytes, the ranges of the C integer types,
  little-endian encoding of integers in byte buffers, and a memory buffer whose
  accesses are checked.  A read or write outside a buffer is undefined behaviour in C;
  here it is the value \<^term>\<open>None\<close>, so that a theorem which says an operation returns
  \<open>Some\<close> also says that the operation is memory safe.
\<close>

section \<open>Collections of facts\<close>

named_theorems mem_simps "reading and writing checked byte buffers"
named_theorems codec_simps "encoding and decoding of integers in bytes"

section \<open>Bytes and C integers\<close>

type_synonym byte = "8 word"
type_synonym bytes = "byte list"

abbreviation INT16_MIN :: int where "INT16_MIN \<equiv> - (2 ^ 15)"
abbreviation INT16_MAX :: int where "INT16_MAX \<equiv> 2 ^ 15 - 1"
abbreviation INT32_MIN :: int where "INT32_MIN \<equiv> - (2 ^ 31)"
abbreviation INT32_MAX :: int where "INT32_MAX \<equiv> 2 ^ 31 - 1"
abbreviation INT64_MIN :: int where "INT64_MIN \<equiv> - (2 ^ 63)"
abbreviation INT64_MAX :: int where "INT64_MAX \<equiv> 2 ^ 63 - 1"
abbreviation UINT32_MAX :: int where "UINT32_MAX \<equiv> 2 ^ 32 - 1"
abbreviation UINT64_MAX :: int where "UINT64_MAX \<equiv> 2 ^ 64 - 1"

definition in_int64 :: "int \<Rightarrow> bool" where
  "in_int64 v \<longleftrightarrow> INT64_MIN \<le> v \<and> v \<le> INT64_MAX"

definition in_uint64 :: "int \<Rightarrow> bool" where
  "in_uint64 v \<longleftrightarrow> 0 \<le> v \<and> v \<le> UINT64_MAX"

text \<open>The conversion of an integer to a \<open>w\<close>-bit two's complement type.\<close>

definition wrap_signed :: "nat \<Rightarrow> int \<Rightarrow> int" where
  "wrap_signed w v = (v + 2 ^ (w - 1)) mod 2 ^ w - 2 ^ (w - 1)"

lemma wrap_signed_id:
  assumes "0 < w" and "- (2 ^ (w - 1)) \<le> v" and "v < 2 ^ (w - 1)"
  shows "wrap_signed w v = v"
proof -
  have "(2::int) ^ w = 2 * 2 ^ (w - 1)"
    using assms(1) by (simp flip: power_Suc)
  then have "(v + 2 ^ (w - 1)) mod 2 ^ w = v + 2 ^ (w - 1)"
    using assms(2,3) by (intro mod_pos_pos_trivial) auto
  then show ?thesis
    by (simp add: wrap_signed_def)
qed

text \<open>\<open>unsigned long\<close> counters wrap around at 64 bits.\<close>

definition ulong_inc :: "nat \<Rightarrow> nat" where
  "ulong_inc n = (n + 1) mod 2 ^ 64"

definition ulong_dec :: "nat \<Rightarrow> nat" where
  "ulong_dec n = (n + 2 ^ 64 - 1) mod 2 ^ 64"

definition ulong_add :: "nat \<Rightarrow> nat \<Rightarrow> nat" where
  "ulong_add n k = (n + k) mod 2 ^ 64"

lemma ulong_inc_eq [simp]: "n + 1 < 2 ^ 64 \<Longrightarrow> ulong_inc n = n + 1"
  by (simp add: ulong_inc_def)

lemma ulong_dec_eq [simp]: "0 < n \<Longrightarrow> n < 2 ^ 64 \<Longrightarrow> ulong_dec n = n - 1"
  by (cases n) (simp_all add: ulong_dec_def)

lemma ulong_add_eq [simp]: "n + k < 2 ^ 64 \<Longrightarrow> ulong_add n k = n + k"
  by (simp add: ulong_add_def)

section \<open>Little-endian integers\<close>

primrec le_bytes :: "nat \<Rightarrow> int \<Rightarrow> bytes" where
  "le_bytes 0 v = []"
| "le_bytes (Suc n) v = word_of_int v # le_bytes n (v div 256)"

primrec le_uint :: "bytes \<Rightarrow> int" where
  "le_uint [] = 0"
| "le_uint (b # bs) = uint b + 256 * le_uint bs"

definition le_sint :: "bytes \<Rightarrow> int" where
  "le_sint bs = wrap_signed (8 * length bs) (le_uint bs)"

lemma length_le_bytes [simp, codec_simps]: "length (le_bytes n v) = n"
  by (induction n arbitrary: v) auto

lemma uint_byte_bounds: "0 \<le> uint (b :: byte)" "uint (b :: byte) < 256"
  using uint_lt2p [of b] by simp_all

lemma byte_256: "(256 :: byte) = 0"
  by simp

lemma le_uint_bounds: "0 \<le> le_uint bs \<and> le_uint bs < 256 ^ length bs"
proof (induction bs)
  case Nil
  then show ?case by simp
next
  case (Cons b bs)
  have "uint b + 256 * le_uint bs < 256 * 256 ^ length bs"
    using Cons.IH uint_byte_bounds(2) [of b] by linarith
  then show ?case
    using Cons.IH uint_byte_bounds(1) [of b] by simp
qed

lemma le_uint_nonneg [simp]: "0 \<le> le_uint bs"
  using le_uint_bounds by blast

lemma le_uint_le_bytes [codec_simps]: "le_uint (le_bytes n v) = v mod 256 ^ n"
proof (induction n arbitrary: v)
  case 0
  then show ?case by simp
next
  case (Suc n)
  have "le_uint (le_bytes (Suc n) v) = v mod 256 + 256 * (v div 256 mod 256 ^ n)"
    by (simp add: Suc.IH uint_word_of_int)
  also have "\<dots> = v mod (256 * 256 ^ n)"
    by (simp add: zmod_zmult2_eq)
  finally show ?case by simp
qed

lemma power_256_eq: "(256::int) ^ n = 2 ^ (8 * n)"
  by (simp add: power_mult)

lemma wrap_signed_mod: "wrap_signed w (v mod 2 ^ w) = wrap_signed w v"
  by (simp add: wrap_signed_def mod_simps)

lemma le_sint_le_bytes [codec_simps]: "le_sint (le_bytes n v) = wrap_signed (8 * n) v"
  by (simp add: le_sint_def le_uint_le_bytes power_256_eq wrap_signed_mod)

lemma le_bytes_le_uint: "length bs = n \<Longrightarrow> le_bytes n (le_uint bs) = bs"
proof (induction bs arbitrary: n)
  case Nil
  then show ?case by simp
next
  case (Cons b bs)
  have "(uint b + 256 * le_uint bs) div 256 = le_uint bs"
    using uint_byte_bounds [of b] by simp
  moreover have "(word_of_int (uint b + 256 * le_uint bs) :: byte) = b"
    by (simp add: byte_256)
  ultimately show ?case
    using Cons by auto
qed

section \<open>Checked byte buffers\<close>

definition mem_read :: "bytes \<Rightarrow> nat \<Rightarrow> nat \<Rightarrow> bytes option" where
  "mem_read bs off n = (if off + n \<le> length bs then Some (take n (drop off bs)) else None)"

definition mem_write :: "bytes \<Rightarrow> nat \<Rightarrow> bytes \<Rightarrow> bytes option" where
  "mem_write bs off xs =
     (if off + length xs \<le> length bs
      then Some (take off bs @ xs @ drop (off + length xs) bs) else None)"

text \<open>\<open>memmove(dst, src, n)\<close> inside one buffer: the source is read before the
  destination is written, so overlapping regions are copied correctly.\<close>

definition mem_move :: "bytes \<Rightarrow> nat \<Rightarrow> nat \<Rightarrow> nat \<Rightarrow> bytes option" where
  "mem_move bs dst src n = do { xs \<leftarrow> mem_read bs src n; mem_write bs dst xs }"

text \<open>\<open>realloc\<close>: the common prefix is kept, the value of a new byte is not determined
  (it is what the parameter \<open>fill\<close> says).\<close>

definition mem_resize :: "(nat \<Rightarrow> byte) \<Rightarrow> nat \<Rightarrow> bytes \<Rightarrow> bytes" where
  "mem_resize fill n bs = take n bs @ map fill [length bs..<n]"

lemma length_mem_resize [simp]: "length (mem_resize fill n bs) = n"
  by (simp add: mem_resize_def)

lemma mem_write_length [mem_simps]: "mem_write bs off xs = Some bs' \<Longrightarrow> length bs' = length bs"
  by (auto simp: mem_write_def split: if_splits)

lemma mem_read_length: "mem_read bs off n = Some xs \<Longrightarrow> length xs = n"
  by (auto simp: mem_read_def split: if_splits)

lemma mem_read_write_same:
  "mem_write bs off xs = Some bs' \<Longrightarrow> mem_read bs' off (length xs) = Some xs"
  by (auto simp: mem_write_def mem_read_def split: if_splits)

lemma mem_read_write_before:
  "mem_write bs off xs = Some bs' \<Longrightarrow> o' + n \<le> off \<Longrightarrow> mem_read bs' o' n = mem_read bs o' n"
  by (auto simp: mem_write_def mem_read_def min_def drop_take split: if_splits)

lemma mem_read_write_after:
  assumes "mem_write bs off xs = Some bs'" and "off + length xs \<le> o'"
  shows "mem_read bs' o' n = mem_read bs o' n"
proof -
  have le: "off + length xs \<le> length bs"
    and bs': "bs' = take off bs @ xs @ drop (off + length xs) bs"
    using assms(1) by (auto simp: mem_write_def split: if_splits)
  have "drop o' bs' = drop o' bs"
    using le assms(2) by (simp add: bs')
  then show ?thesis
    using le by (auto simp: mem_read_def bs')
qed

lemma mem_read_append1:
  "off + n \<le> length xs \<Longrightarrow> mem_read (xs @ ys) off n = mem_read xs off n"
  by (simp add: mem_read_def)

text \<open>Opening a gap, filling it, and closing it again.\<close>

lemma mem_write_mid [mem_simps]:
  "length X = length Y \<Longrightarrow> mem_write (A @ X @ B) (length A) Y = Some (A @ Y @ B)"
  by (simp add: mem_write_def)

lemma mem_move_up:
  assumes "length J = n"
  shows "\<exists>X. length X = n \<and>
    mem_move (A @ B @ J) (length A + n) (length A) (length B) = Some (A @ X @ B)"
proof -
  have "mem_move (A @ B @ J) (length A + n) (length A) (length B) = Some (A @ take n (B @ J) @ B)"
    using assms by (simp add: mem_move_def mem_read_def mem_write_def)
  then show ?thesis
    using assms by (intro exI [of _ "take n (B @ J)"]) simp
qed

lemma mem_move_down:
  "\<exists>Y. length Y = length X \<and>
    mem_move (A @ X @ B) (length A) (length A + length X) (length B) = Some (A @ B @ Y)"
  by (intro exI [of _ "drop (length B) (X @ B)"])
    (simp add: mem_move_def mem_read_def mem_write_def)

lemma mem_resize_grow: "length bs \<le> n \<Longrightarrow> \<exists>J. length J = n - length bs \<and> mem_resize fill n bs = bs @ J"
  by (simp add: mem_resize_def)

lemma mem_resize_shrink: "n \<le> length bs \<Longrightarrow> mem_resize fill n bs = take n bs"
  by (simp add: mem_resize_def)

end
