(* ===== verification/Adlist.thy ===== *)
theory Adlist
  imports Redis_Prelude
begin

text \<open>
  The generic doubly linked list of \<^verbatim>\<open>adlist.c\<close> and \<^verbatim>\<open>adlist.h\<close>.

  The nodes live in an explicit heap, a map from addresses to nodes, because what the
  operations do is to redirect pointers between shared nodes.  A pointer is
  \<open>addr option\<close>, \<open>NULL\<close> being \<^term>\<open>None\<close>.  Every operation runs in the option monad:
  \<^term>\<open>None\<close> is a fault, that is, the dereference of \<open>NULL\<close> or of a node which is not
  allocated.  The heap also records, in order, the values handed to the \<open>free\<close> callback
  of a list.

  \<open>zmalloc\<close> is a parameter: it yields \<^term>\<open>None\<close> when it is out of memory, and
  otherwise an address with the indeterminate initial contents of the new node.
  The specification of an operation is stated over the relation \<open>dlist\<close>, which says that
  the heap holds a well-linked list of given addresses and values.
\<close>

section \<open>Data\<close>

type_synonym addr = nat

record 'v listNode =
  node_prev :: "addr option"
  node_next :: "addr option"
  node_value :: 'v

record 'v heap =
  nodes :: "addr \<Rightarrow> 'v listNode option"
  freed :: "'v list"

record 'v adlist =
  l_head :: "addr option"
  l_tail :: "addr option"
  l_dup :: "('v \<Rightarrow> 'v option) option"
  l_free :: bool
  l_match :: "('v \<Rightarrow> 'v \<Rightarrow> bool) option"
  l_len :: nat

datatype direction = AL_START_HEAD | AL_START_TAIL

record listIter =
  it_next :: "addr option"
  it_direction :: direction

type_synonym 'v allocator = "'v heap \<Rightarrow> (addr \<times> 'v listNode) option"

section \<open>Access to the heap\<close>

definition load :: "'v heap \<Rightarrow> addr option \<Rightarrow> 'v listNode option" where
  "load m p = (case p of None \<Rightarrow> None | Some a \<Rightarrow> nodes m a)"

definition store ::
  "'v heap \<Rightarrow> addr option \<Rightarrow> ('v listNode \<Rightarrow> 'v listNode) \<Rightarrow> 'v heap option" where
  "store m p f =
     (case p of
        None \<Rightarrow> None
      | Some a \<Rightarrow>
          (case nodes m a of
             None \<Rightarrow> None
           | Some n \<Rightarrow> Some (m\<lparr>nodes := (nodes m)(a := Some (f n))\<rparr>)))"

definition zfree :: "'v heap \<Rightarrow> addr option \<Rightarrow> 'v heap option" where
  "zfree m p =
     (case p of
        None \<Rightarrow> Some m
      | Some a \<Rightarrow>
          (case nodes m a of
             None \<Rightarrow> None
           | Some n \<Rightarrow> Some (m\<lparr>nodes := (nodes m)(a := None)\<rparr>)))"

definition call_free :: "bool \<Rightarrow> 'v \<Rightarrow> 'v heap \<Rightarrow> 'v heap" where
  "call_free has_free v m = (if has_free then m\<lparr>freed := freed m @ [v]\<rparr> else m)"

section \<open>Operations\<close>

definition listCreate :: "'v adlist" where
  "listCreate = \<lparr>l_head = None, l_tail = None, l_dup = None, l_free = False,
     l_match = None, l_len = 0\<rparr>"

text \<open>The loop of \<open>listEmpty\<close>: \<open>len\<close> times, free the current node and go on.\<close>

primrec listEmpty_loop ::
  "bool \<Rightarrow> nat \<Rightarrow> addr option \<Rightarrow> 'v heap \<Rightarrow> 'v heap option" where
  "listEmpty_loop fr 0 current m = Some m"
| "listEmpty_loop fr (Suc len) current m = do {
     n \<leftarrow> load m current;
     m1 \<leftarrow> zfree (call_free fr (node_value n) m) current;
     listEmpty_loop fr len (node_next n) m1
   }"

definition listEmpty :: "'v adlist \<Rightarrow> 'v heap \<Rightarrow> ('v adlist \<times> 'v heap) option" where
  "listEmpty l m = do {
     m1 \<leftarrow> listEmpty_loop (l_free l) (l_len l) (l_head l) m;
     Some (l\<lparr>l_head := None, l_tail := None, l_len := 0\<rparr>, m1)
   }"

definition listRelease :: "'v adlist option \<Rightarrow> 'v heap \<Rightarrow> 'v heap option" where
  "listRelease p m =
     (case p of
        None \<Rightarrow> Some m
      | Some l \<Rightarrow> do { (_, m1) \<leftarrow> listEmpty l m; Some m1 })"

definition listLinkNodeHead ::
  "'v adlist \<Rightarrow> addr \<Rightarrow> 'v heap \<Rightarrow> ('v adlist \<times> 'v heap) option" where
  "listLinkNodeHead l node m =
     (if l_len l = 0 then do {
        m1 \<leftarrow> store m (Some node) (\<lambda>n. n\<lparr>node_prev := None, node_next := None\<rparr>);
        Some (l\<lparr>l_head := Some node, l_tail := Some node, l_len := ulong_inc (l_len l)\<rparr>, m1)
      } else do {
        m1 \<leftarrow> store m (Some node) (\<lambda>n. n\<lparr>node_prev := None, node_next := l_head l\<rparr>);
        m2 \<leftarrow> store m1 (l_head l) (\<lambda>n. n\<lparr>node_prev := Some node\<rparr>);
        Some (l\<lparr>l_head := Some node, l_len := ulong_inc (l_len l)\<rparr>, m2)
      })"

definition listLinkNodeTail ::
  "'v adlist \<Rightarrow> addr \<Rightarrow> 'v heap \<Rightarrow> ('v adlist \<times> 'v heap) option" where
  "listLinkNodeTail l node m =
     (if l_len l = 0 then do {
        m1 \<leftarrow> store m (Some node) (\<lambda>n. n\<lparr>node_prev := None, node_next := None\<rparr>);
        Some (l\<lparr>l_head := Some node, l_tail := Some node, l_len := ulong_inc (l_len l)\<rparr>, m1)
      } else do {
        m1 \<leftarrow> store m (Some node) (\<lambda>n. n\<lparr>node_prev := l_tail l, node_next := None\<rparr>);
        m2 \<leftarrow> store m1 (l_tail l) (\<lambda>n. n\<lparr>node_next := Some node\<rparr>);
        Some (l\<lparr>l_tail := Some node, l_len := ulong_inc (l_len l)\<rparr>, m2)
      })"

text \<open>The allocation at the start of the three insertions: the node with its value set.\<close>

definition alloc_node :: "'v allocator \<Rightarrow> 'v \<Rightarrow> 'v heap \<Rightarrow> (addr \<times> 'v heap) option" where
  "alloc_node zmalloc v m =
     (case zmalloc m of
        None \<Rightarrow> None
      | Some (a, n) \<Rightarrow>
          Some (a, m\<lparr>nodes := (nodes m)(a := Some (n\<lparr>node_value := v\<rparr>))\<rparr>))"

text \<open>The insertions return the list (\<open>True\<close>) or \<open>NULL\<close> (\<open>False\<close>) when out of memory.\<close>

definition listAddNodeHead ::
  "'v allocator \<Rightarrow> 'v adlist \<Rightarrow> 'v \<Rightarrow> 'v heap \<Rightarrow> (bool \<times> 'v adlist \<times> 'v heap) option" where
  "listAddNodeHead zmalloc l v m =
     (case alloc_node zmalloc v m of
        None \<Rightarrow> Some (False, l, m)
      | Some (node, m1) \<Rightarrow> do {
          (l', m2) \<leftarrow> listLinkNodeHead l node m1;
          Some (True, l', m2) })"

definition listAddNodeTail ::
  "'v allocator \<Rightarrow> 'v adlist \<Rightarrow> 'v \<Rightarrow> 'v heap \<Rightarrow> (bool \<times> 'v adlist \<times> 'v heap) option" where
  "listAddNodeTail zmalloc l v m =
     (case alloc_node zmalloc v m of
        None \<Rightarrow> Some (False, l, m)
      | Some (node, m1) \<Rightarrow> do {
          (l', m2) \<leftarrow> listLinkNodeTail l node m1;
          Some (True, l', m2) })"

definition listInsertNode ::
  "'v allocator \<Rightarrow> 'v adlist \<Rightarrow> addr \<Rightarrow> 'v \<Rightarrow> bool \<Rightarrow> 'v heap \<Rightarrow>
   (bool \<times> 'v adlist \<times> 'v heap) option" where
  "listInsertNode zmalloc l old_node v after m =
     (case alloc_node zmalloc v m of
        None \<Rightarrow> Some (False, l, m)
      | Some (node, m1) \<Rightarrow> do {
          old \<leftarrow> load m1 (Some old_node);
          (l1, m2) \<leftarrow>
            (if after then do {
               m2 \<leftarrow> store m1 (Some node)
                 (\<lambda>n. n\<lparr>node_prev := Some old_node, node_next := node_next old\<rparr>);
               Some (if l_tail l = Some old_node then l\<lparr>l_tail := Some node\<rparr> else l, m2)
             } else do {
               m2 \<leftarrow> store m1 (Some node)
                 (\<lambda>n. n\<lparr>node_next := Some old_node, node_prev := node_prev old\<rparr>);
               Some (if l_head l = Some old_node then l\<lparr>l_head := Some node\<rparr> else l, m2)
             });
          new \<leftarrow> load m2 (Some node);
          m3 \<leftarrow> (if node_prev new \<noteq> None
                then store m2 (node_prev new) (\<lambda>n. n\<lparr>node_next := Some node\<rparr>) else Some m2);
          m4 \<leftarrow> (if node_next new \<noteq> None
                then store m3 (node_next new) (\<lambda>n. n\<lparr>node_prev := Some node\<rparr>) else Some m3);
          Some (True, l1\<lparr>l_len := ulong_inc (l_len l1)\<rparr>, m4) })"

definition listUnlinkNode ::
  "'v adlist \<Rightarrow> addr \<Rightarrow> 'v heap \<Rightarrow> ('v adlist \<times> 'v heap) option" where
  "listUnlinkNode l node m = do {
     nd \<leftarrow> load m (Some node);
     (l1, m1) \<leftarrow>
       (if node_prev nd \<noteq> None then do {
          m1 \<leftarrow> store m (node_prev nd) (\<lambda>n. n\<lparr>node_next := node_next nd\<rparr>);
          Some (l, m1)
        } else Some (l\<lparr>l_head := node_next nd\<rparr>, m));
     (l2, m2) \<leftarrow>
       (if node_next nd \<noteq> None then do {
          m2 \<leftarrow> store m1 (node_next nd) (\<lambda>n. n\<lparr>node_prev := node_prev nd\<rparr>);
          Some (l1, m2)
        } else Some (l1\<lparr>l_tail := node_prev nd\<rparr>, m1));
     m3 \<leftarrow> store m2 (Some node) (\<lambda>n. n\<lparr>node_next := None, node_prev := None\<rparr>);
     Some (l2\<lparr>l_len := ulong_dec (l_len l2)\<rparr>, m3)
   }"

definition listDelNode ::
  "'v adlist \<Rightarrow> addr \<Rightarrow> 'v heap \<Rightarrow> ('v adlist \<times> 'v heap) option" where
  "listDelNode l node m = do {
     (l1, m1) \<leftarrow> listUnlinkNode l node m;
     nd \<leftarrow> load m1 (Some node);
     m2 \<leftarrow> zfree (call_free (l_free l1) (node_value nd) m1) (Some node);
     Some (l1, m2)
   }"

definition listGetIterator :: "'v adlist \<Rightarrow> direction \<Rightarrow> listIter" where
  "listGetIterator l d =
     (if d = AL_START_HEAD
      then \<lparr>it_next = l_head l, it_direction = d\<rparr>
      else \<lparr>it_next = l_tail l, it_direction = d\<rparr>)"

definition listRewind :: "'v adlist \<Rightarrow> listIter" where
  "listRewind l = \<lparr>it_next = l_head l, it_direction = AL_START_HEAD\<rparr>"

definition listRewindTail :: "'v adlist \<Rightarrow> listIter" where
  "listRewindTail l = \<lparr>it_next = l_tail l, it_direction = AL_START_TAIL\<rparr>"

definition listNext :: "'v heap \<Rightarrow> listIter \<Rightarrow> (addr option \<times> listIter) option" where
  "listNext m it =
     (case it_next it of
        None \<Rightarrow> Some (None, it)
      | Some current \<Rightarrow> do {
          n \<leftarrow> load m (Some current);
          Some (Some current,
            it\<lparr>it_next := (if it_direction it = AL_START_HEAD then node_next n
                          else node_prev n)\<rparr>) })"

text \<open>The loop of \<open>listDup\<close>.  The first component is the copy, or \<^term>\<open>None\<close> for the
  \<open>NULL\<close> that is returned after the partial copy has been released.\<close>

partial_function (option) listDup_loop ::
  "'v allocator \<Rightarrow> 'v adlist \<Rightarrow> listIter \<Rightarrow> 'v heap \<Rightarrow> ('v adlist option \<times> 'v heap) option" where
  "listDup_loop zmalloc copy it m =
     (case listNext m it of
        None \<Rightarrow> None
      | Some (None, it') \<Rightarrow> Some (Some copy, m)
      | Some (Some node, it') \<Rightarrow>
          (case load m (Some node) of
             None \<Rightarrow> None
           | Some n \<Rightarrow>
               (case (case l_dup copy of None \<Rightarrow> Some (node_value n) | Some d \<Rightarrow> d (node_value n)) of
                  None \<Rightarrow> Option.bind (listRelease (Some copy) m) (\<lambda>m1. Some (None, m1))
                | Some value \<Rightarrow>
                    (case listAddNodeTail zmalloc copy value m of
                       None \<Rightarrow> None
                     | Some (ok, copy', m1) \<Rightarrow>
                         (if ok then listDup_loop zmalloc copy' it' m1
                          else Option.bind
                            (listRelease (Some copy') (call_free (l_free copy') value m1))
                            (\<lambda>m2. Some (None, m2)))))))"

declare listDup_loop.simps [code]

definition listDup ::
  "'v allocator \<Rightarrow> 'v adlist \<Rightarrow> 'v heap \<Rightarrow> ('v adlist option \<times> 'v heap) option" where
  "listDup zmalloc orig m =
     listDup_loop zmalloc
       (listCreate\<lparr>l_dup := l_dup orig, l_free := l_free orig, l_match := l_match orig\<rparr>)
       (listRewind orig) m"

partial_function (option) listSearchKey_loop ::
  "'v adlist \<Rightarrow> 'v \<Rightarrow> listIter \<Rightarrow> 'v heap \<Rightarrow> addr option option" where
  "listSearchKey_loop l key it m =
     (case listNext m it of
        None \<Rightarrow> None
      | Some (None, it') \<Rightarrow> Some None
      | Some (Some node, it') \<Rightarrow>
          (case load m (Some node) of
             None \<Rightarrow> None
           | Some n \<Rightarrow>
               (if (case l_match l of
                      Some f \<Rightarrow> f (node_value n) key
                    | None \<Rightarrow> key = node_value n)
                then Some (Some node) else listSearchKey_loop l key it' m)))"

declare listSearchKey_loop.simps [code]

definition listSearchKey :: "'v adlist \<Rightarrow> 'v \<Rightarrow> 'v heap \<Rightarrow> addr option option" where
  "listSearchKey l key m = listSearchKey_loop l key (listRewind l) m"

fun listIndex_prev :: "'v heap \<Rightarrow> nat \<Rightarrow> addr option \<Rightarrow> addr option option" where
  "listIndex_prev m 0 p = Some p"
| "listIndex_prev m (Suc i) None = Some None"
| "listIndex_prev m (Suc i) (Some a) = do { n \<leftarrow> nodes m a; listIndex_prev m i (node_prev n) }"

fun listIndex_next :: "'v heap \<Rightarrow> nat \<Rightarrow> addr option \<Rightarrow> addr option option" where
  "listIndex_next m 0 p = Some p"
| "listIndex_next m (Suc i) None = Some None"
| "listIndex_next m (Suc i) (Some a) = do { n \<leftarrow> nodes m a; listIndex_next m i (node_next n) }"

definition listIndex :: "'v adlist \<Rightarrow> int \<Rightarrow> 'v heap \<Rightarrow> addr option option" where
  "listIndex l index m =
     (if index < 0 then listIndex_prev m (nat (- index - 1)) (l_tail l)
      else listIndex_next m (nat index) (l_head l))"

definition listRotateTailToHead :: "'v adlist \<Rightarrow> 'v heap \<Rightarrow> ('v adlist \<times> 'v heap) option" where
  "listRotateTailToHead l m =
     (if l_len l \<le> 1 then Some (l, m)
      else do {
        tl \<leftarrow> load m (l_tail l);
        m1 \<leftarrow> store m (node_prev tl) (\<lambda>n. n\<lparr>node_next := None\<rparr>);
        m2 \<leftarrow> store m1 (l_head l) (\<lambda>n. n\<lparr>node_prev := l_tail l\<rparr>);
        m3 \<leftarrow> store m2 (l_tail l) (\<lambda>n. n\<lparr>node_prev := None, node_next := l_head l\<rparr>);
        Some (l\<lparr>l_tail := node_prev tl, l_head := l_tail l\<rparr>, m3)
      })"

definition listRotateHeadToTail :: "'v adlist \<Rightarrow> 'v heap \<Rightarrow> ('v adlist \<times> 'v heap) option" where
  "listRotateHeadToTail l m =
     (if l_len l \<le> 1 then Some (l, m)
      else do {
        hd \<leftarrow> load m (l_head l);
        m1 \<leftarrow> store m (node_next hd) (\<lambda>n. n\<lparr>node_prev := None\<rparr>);
        m2 \<leftarrow> store m1 (l_tail l) (\<lambda>n. n\<lparr>node_next := l_head l\<rparr>);
        m3 \<leftarrow> store m2 (l_head l) (\<lambda>n. n\<lparr>node_next := None, node_prev := l_tail l\<rparr>);
        Some (l\<lparr>l_head := node_next hd, l_tail := l_head l\<rparr>, m3)
      })"

text \<open>\<open>listJoin(l, o)\<close>: both structures change; they are returned in that order.\<close>

definition listJoin ::
  "'v adlist \<Rightarrow> 'v adlist \<Rightarrow> 'v heap \<Rightarrow> ('v adlist \<times> 'v adlist \<times> 'v heap) option" where
  "listJoin l ot m =
     (if l_len ot = 0 then Some (l, ot, m)
      else do {
        m1 \<leftarrow> store m (l_head ot) (\<lambda>n. n\<lparr>node_prev := l_tail l\<rparr>);
        (l1, m2) \<leftarrow>
          (if l_tail l \<noteq> None then do {
             m2 \<leftarrow> store m1 (l_tail l) (\<lambda>n. n\<lparr>node_next := l_head ot\<rparr>);
             Some (l, m2)
           } else Some (l\<lparr>l_head := l_head ot\<rparr>, m1));
        Some (l1\<lparr>l_tail := l_tail ot, l_len := ulong_add (l_len l1) (l_len ot)\<rparr>,
              ot\<lparr>l_head := None, l_tail := None, l_len := 0\<rparr>, m2)
      })"

definition listInitNode :: "addr \<Rightarrow> 'v \<Rightarrow> 'v heap \<Rightarrow> 'v heap option" where
  "listInitNode node v m =
     store m (Some node) (\<lambda>n. n\<lparr>node_prev := None, node_next := None, node_value := v\<rparr>)"

section \<open>Well-linked lists in the heap\<close>

definition first_of :: "(addr \<times> 'v) list \<Rightarrow> addr option \<Rightarrow> addr option" where
  "first_of avs nx = (case avs of [] \<Rightarrow> nx | av # _ \<Rightarrow> Some (fst av))"

definition last_of :: "addr option \<Rightarrow> (addr \<times> 'v) list \<Rightarrow> addr option" where
  "last_of pr avs = (if avs = [] then pr else Some (fst (last avs)))"

primrec dll :: "'v heap \<Rightarrow> addr option \<Rightarrow> (addr \<times> 'v) list \<Rightarrow> addr option \<Rightarrow> bool" where
  "dll m pr [] nx \<longleftrightarrow> True"
| "dll m pr (av # avs) nx \<longleftrightarrow>
     nodes m (fst av) =
       Some \<lparr>node_prev = pr, node_next = first_of avs nx, node_value = snd av\<rparr> \<and>
     dll m (Some (fst av)) avs nx"

text \<open>\<open>dlist m l avs\<close>: in heap \<open>m\<close>, the structure \<open>l\<close> is a list whose nodes are at the
  addresses \<open>map fst avs\<close> with the values \<open>map snd avs\<close>.\<close>

definition dlist :: "'v heap \<Rightarrow> 'v adlist \<Rightarrow> (addr \<times> 'v) list \<Rightarrow> bool" where
  "dlist m l avs \<longleftrightarrow>
     distinct (map fst avs) \<and> length avs < 2 ^ 64 \<and>
     l_head l = first_of avs None \<and> l_tail l = last_of None avs \<and> l_len l = length avs \<and>
     dll m None avs None"

named_theorems dll_simps "unfolding lists in the heap"

lemma first_of_simps [simp]:
  "first_of [] nx = nx" "first_of (av # avs) nx = Some (fst av)"
  by (simp_all add: first_of_def)

lemma last_of_simps [simp]:
  "last_of pr [] = pr" "last_of pr (av # avs) = last_of (Some (fst av)) avs"
  "last_of pr (avs @ [av]) = Some (fst av)"
  by (simp_all add: last_of_def)

lemma first_of_append [simp]: "first_of (xs @ ys) nx = first_of xs (first_of ys nx)"
  by (cases xs) simp_all

lemma last_of_append [simp]: "last_of pr (xs @ ys) = last_of (last_of pr xs) ys"
  by (simp add: last_of_def)

lemma first_of_SomeD: "first_of avs nx = Some b \<Longrightarrow> b \<in> fst ` set avs \<or> nx = Some b"
  by (cases avs) auto

lemma last_of_SomeD: "last_of pr avs = Some b \<Longrightarrow> b \<in> fst ` set avs \<or> pr = Some b"
  by (cases avs rule: rev_cases) (auto simp: last_of_def split: if_splits)

lemma dll_append [dll_simps]:
  "dll m pr (xs @ ys) nx \<longleftrightarrow> dll m pr xs (first_of ys nx) \<and> dll m (last_of pr xs) ys nx"
  by (induction xs arbitrary: pr) auto

lemma dll_frame [simp]:
  "a \<notin> fst ` set avs \<Longrightarrow>
   dll (m\<lparr>nodes := (nodes m)(a := x)\<rparr>) pr avs nx = dll m pr avs nx"
  by (induction avs arbitrary: pr) auto

lemma dll_frame_upd [simp]:
  "a \<notin> fst ` set avs \<Longrightarrow>
   dll (m\<lparr>nodes := h(a := x)\<rparr>) pr avs nx = dll (m\<lparr>nodes := h\<rparr>) pr avs nx"
  by (induction avs arbitrary: pr) auto

lemma dll_nodes_cong:
  "(\<And>a. a \<in> fst ` set avs \<Longrightarrow> nodes m' a = nodes m a) \<Longrightarrow> dll m' pr avs nx = dll m pr avs nx"
  by (induction avs arbitrary: pr) auto

lemma dll_allocated:
  "dll m pr avs nx \<Longrightarrow> a \<in> fst ` set avs \<Longrightarrow> nodes m a \<noteq> None"
  by (induction avs arbitrary: pr) auto

section \<open>The insertions\<close>

lemma alloc_node_eq:
  "zmalloc m = Some (a, n0) \<Longrightarrow>
   alloc_node zmalloc v m =
     Some (a, m\<lparr>nodes := (nodes m)(a := Some (n0\<lparr>node_value := v\<rparr>))\<rparr>)"
  by (simp add: alloc_node_def)

text \<open>What an operation on \<open>l\<close> leaves behind: a well-linked list, everything outside the
  footprint \<open>F\<close> untouched, the callbacks of the list kept.\<close>

definition dlist_upd ::
  "'v heap \<Rightarrow> 'v adlist \<Rightarrow> addr set \<Rightarrow> 'v adlist \<Rightarrow> 'v heap \<Rightarrow> (addr \<times> 'v) list \<Rightarrow> bool" where
  "dlist_upd m l F l' m' avs' \<longleftrightarrow>
     dlist m' l' avs' \<and> (\<forall>b. b \<notin> F \<longrightarrow> nodes m' b = nodes m b) \<and>
     l_free l' = l_free l \<and> l_dup l' = l_dup l \<and> l_match l' = l_match l"

lemma listLinkNodeHead_dlist:
  assumes "dlist m l avs" and "a \<notin> fst ` set avs" and "nodes m a = Some n"
    and "length avs + 1 < 2 ^ 64"
  shows "\<exists>l' m'. listLinkNodeHead l a m = Some (l', m') \<and> freed m' = freed m \<and>
           dlist_upd m l (insert a (fst ` set avs)) l' m' ((a, node_value n) # avs)"
  using assms
  by (cases avs) (auto simp: listLinkNodeHead_def store_def dlist_def dlist_upd_def)

lemma listLinkNodeTail_dlist:
  assumes "dlist m l avs" and "a \<notin> fst ` set avs" and "nodes m a = Some n"
    and "length avs + 1 < 2 ^ 64"
  shows "\<exists>l' m'. listLinkNodeTail l a m = Some (l', m') \<and> freed m' = freed m \<and>
           dlist_upd m l (insert a (fst ` set avs)) l' m' (avs @ [(a, node_value n)])"
  using assms
  by (cases avs rule: rev_cases)
    (auto simp: listLinkNodeTail_def store_def dlist_def dlist_upd_def dll_simps)

lemma dlist_alloc_frame:
  "dlist m l avs \<Longrightarrow> nodes m a = None \<Longrightarrow>
   a \<notin> fst ` set avs \<and> dlist (m\<lparr>nodes := (nodes m)(a := x)\<rparr>) l avs"
proof -
  assume "dlist m l avs" and "nodes m a = None"
  moreover from this have "a \<notin> fst ` set avs"
    using dll_allocated [of m None avs None a] by (auto simp: dlist_def)
  ultimately show ?thesis
    by (simp add: dlist_def)
qed

lemma listAddNodeHead_dlist:
  assumes "dlist m l avs" and "zmalloc m = Some (a, n0)" and "nodes m a = None"
    and "length avs + 1 < 2 ^ 64"
  shows "\<exists>l' m'. listAddNodeHead zmalloc l v m = Some (True, l', m') \<and> freed m' = freed m \<and>
           dlist_upd m l (insert a (fst ` set avs)) l' m' ((a, v) # avs)"
proof -
  let ?m1 = "m\<lparr>nodes := (nodes m)(a := Some (n0\<lparr>node_value := v\<rparr>))\<rparr>"
  have "\<exists>l' m'. listLinkNodeHead l a ?m1 = Some (l', m') \<and> freed m' = freed ?m1 \<and>
          dlist_upd ?m1 l (insert a (fst ` set avs)) l' m' ((a, v) # avs)"
    using listLinkNodeHead_dlist [of ?m1 l avs a "n0\<lparr>node_value := v\<rparr>"]
      dlist_alloc_frame [OF assms(1,3)] assms(4) by simp
  then show ?thesis
    using assms(2) by (force simp: listAddNodeHead_def alloc_node_eq dlist_upd_def)
qed

lemma listAddNodeTail_dlist:
  assumes "dlist m l avs" and "zmalloc m = Some (a, n0)" and "nodes m a = None"
    and "length avs + 1 < 2 ^ 64"
  shows "\<exists>l' m'. listAddNodeTail zmalloc l v m = Some (True, l', m') \<and> freed m' = freed m \<and>
           dlist_upd m l (insert a (fst ` set avs)) l' m' (avs @ [(a, v)])"
proof -
  let ?m1 = "m\<lparr>nodes := (nodes m)(a := Some (n0\<lparr>node_value := v\<rparr>))\<rparr>"
  have "\<exists>l' m'. listLinkNodeTail l a ?m1 = Some (l', m') \<and> freed m' = freed ?m1 \<and>
          dlist_upd ?m1 l (insert a (fst ` set avs)) l' m' (avs @ [(a, v)])"
    using listLinkNodeTail_dlist [of ?m1 l avs a "n0\<lparr>node_value := v\<rparr>"]
      dlist_alloc_frame [OF assms(1,3)] assms(4) by simp
  then show ?thesis
    using assms(2) by (force simp: listAddNodeTail_def alloc_node_eq dlist_upd_def)
qed

text \<open>The neighbours of a node in the middle: the list before it is empty or ends in a
  node, the list after it is empty or starts with one.\<close>

lemma dlist_splitE:
  assumes "dlist m l (xs @ (a, v) # ys)"
  shows "nodes m a = Some \<lparr>node_prev = last_of None xs, node_next = first_of ys None,
      node_value = v\<rparr>"
  using assms by (simp add: dlist_def dll_simps)

lemma listInsertNode_after:
  assumes d: "dlist m l (xs @ (b, w) # ys)" and z: "zmalloc m = Some (a, n0)"
    and "nodes m a = None" and "length xs + length ys + 2 < 2 ^ 64"
  shows "\<exists>l' m'. listInsertNode zmalloc l b v True m = Some (True, l', m') \<and> freed m' = freed m \<and>
           dlist_upd m l (insert a (fst ` set (xs @ (b, w) # ys))) l' m'
             (xs @ (b, w) # (a, v) # ys)"
proof -
  have "a \<noteq> b" "a \<notin> fst ` set xs" "a \<notin> fst ` set ys"
    using dlist_alloc_frame [OF assms(1,3)] by auto
  then show ?thesis
    using assms
    by (cases xs rule: rev_cases; cases ys)
      (auto simp: listInsertNode_def alloc_node_eq load_def store_def dlist_def dlist_upd_def
        dll_simps last_of_def dest: first_of_SomeD)
qed

lemma listInsertNode_before:
  assumes d: "dlist m l (xs @ (b, w) # ys)" and z: "zmalloc m = Some (a, n0)"
    and "nodes m a = None" and "length xs + length ys + 2 < 2 ^ 64"
  shows "\<exists>l' m'. listInsertNode zmalloc l b v False m = Some (True, l', m') \<and> freed m' = freed m \<and>
           dlist_upd m l (insert a (fst ` set (xs @ (b, w) # ys))) l' m'
             (xs @ (a, v) # (b, w) # ys)"
proof -
  have "a \<noteq> b" "a \<notin> fst ` set xs" "a \<notin> fst ` set ys"
    using dlist_alloc_frame [OF assms(1,3)] by auto
  then show ?thesis
    using assms
    by (cases xs rule: rev_cases; cases ys)
      (auto simp: listInsertNode_def alloc_node_eq load_def store_def dlist_def dlist_upd_def
        dll_simps last_of_def dest: first_of_SomeD)
qed

section \<open>Removal\<close>

lemma listUnlinkNode_dlist:
  assumes "dlist m l (xs @ (a, v) # ys)"
  shows "\<exists>l' m'. listUnlinkNode l a m = Some (l', m') \<and> freed m' = freed m \<and>
           nodes m' a = Some \<lparr>node_prev = None, node_next = None, node_value = v\<rparr> \<and>
           dlist_upd m l (fst ` set (xs @ (a, v) # ys)) l' m' (xs @ ys)"
  using assms
  by (cases xs rule: rev_cases; cases ys)
    (auto simp: listUnlinkNode_def load_def store_def dlist_def dlist_upd_def dll_simps
      last_of_def dest: first_of_SomeD)

lemma call_free_simps [simp]:
  "nodes (call_free fr v m) = nodes m"
  "freed (call_free fr v m) = freed m @ (if fr then [v] else [])"
  by (simp_all add: call_free_def)

lemma dlist_heap_cong:
  "(\<And>a. a \<in> fst ` set avs \<Longrightarrow> nodes m' a = nodes m a) \<Longrightarrow> dlist m' l avs = dlist m l avs"
  using dll_nodes_cong [of avs m' m None None] by (simp add: dlist_def)

lemma listDelNode_dlist:
  assumes "dlist m l (xs @ (a, v) # ys)"
  shows "\<exists>l' m'. listDelNode l a m = Some (l', m') \<and> nodes m' a = None \<and>
           freed m' = freed m @ (if l_free l then [v] else []) \<and>
           dlist_upd m l (fst ` set (xs @ (a, v) # ys)) l' m' (xs @ ys)"
proof -
  obtain l' m1 where u: "listUnlinkNode l a m = Some (l', m1)" "freed m1 = freed m"
      "nodes m1 a = Some \<lparr>node_prev = None, node_next = None, node_value = v\<rparr>"
      "dlist_upd m l (fst ` set (xs @ (a, v) # ys)) l' m1 (xs @ ys)"
    using listUnlinkNode_dlist [OF assms] by blast
  let ?m2 = "(call_free (l_free l) v m1)\<lparr>nodes := (nodes m1)(a := None)\<rparr>"
  have "a \<notin> fst ` set (xs @ ys)"
    using assms by (auto simp: dlist_def)
  then have "dlist ?m2 l' (xs @ ys)"
    using u(4) by (subst dlist_heap_cong [of _ _ m1]) (auto simp: dlist_upd_def)
  moreover have "listDelNode l a m = Some (l', ?m2)"
    using u by (simp add: listDelNode_def load_def zfree_def dlist_upd_def)
  ultimately show ?thesis
    using u by (auto simp: dlist_upd_def)
qed

lemma listEmpty_loop_dll:
  assumes "dll m pr avs None" and "distinct (map fst avs)"
  shows "listEmpty_loop fr (length avs) (first_of avs None) m =
    Some (m\<lparr>nodes := (\<lambda>b. if b \<in> fst ` set avs then None else nodes m b),
             freed := freed m @ (if fr then map snd avs else [])\<rparr>)"
  using assms
proof (induction avs arbitrary: m pr)
  case Nil
  then show ?case by simp
next
  case (Cons av avs)
  let ?m1 = "(call_free fr (snd av) m)\<lparr>nodes := (nodes m)(fst av := None)\<rparr>"
  have "dll ?m1 (Some (fst av)) avs None = dll m (Some (fst av)) avs None"
    using Cons.prems by (intro dll_nodes_cong) (simp, metis)
  then have "listEmpty_loop fr (length avs) (first_of avs None) ?m1 =
      Some (?m1\<lparr>nodes := (\<lambda>b. if b \<in> fst ` set avs then None else nodes ?m1 b),
             freed := freed ?m1 @ (if fr then map snd avs else [])\<rparr>)"
    using Cons.prems by (intro Cons.IH) auto
  then show ?case
    using Cons.prems by (auto simp: load_def zfree_def fun_eq_iff intro!: heap.equality)
qed

lemma listEmpty_eq:
  assumes "dlist m l avs"
  shows "listEmpty l m = Some (l\<lparr>l_head := None, l_tail := None, l_len := 0\<rparr>,
    m\<lparr>nodes := (\<lambda>b. if b \<in> fst ` set avs then None else nodes m b),
      freed := freed m @ (if l_free l then map snd avs else [])\<rparr>)"
  using assms listEmpty_loop_dll [of m None avs "l_free l"]
  by (simp add: listEmpty_def dlist_def)

lemma listRelease_eq:
  assumes "dlist m l avs"
  shows "listRelease (Some l) m =
    Some (m\<lparr>nodes := (\<lambda>b. if b \<in> fst ` set avs then None else nodes m b),
      freed := freed m @ (if l_free l then map snd avs else [])\<rparr>)"
  using listEmpty_eq [OF assms] by (simp add: listRelease_def)

section \<open>Rotation and concatenation\<close>

lemma listRotateTailToHead_dlist:
  assumes "dlist m l avs"
  shows "\<exists>l' m'. listRotateTailToHead l m = Some (l', m') \<and> freed m' = freed m \<and>
           dlist_upd m l (fst ` set avs) l' m'
             (if avs = [] then [] else last avs # butlast avs)"
proof (cases "length avs \<le> 1")
  case True
  then have "(if avs = [] then [] else last avs # butlast avs) = avs"
    by (cases avs) auto
  then show ?thesis
    using assms True by (auto simp: listRotateTailToHead_def dlist_upd_def dlist_def)
next
  case False
  then obtain x xs y where avs: "avs = x # xs @ [y]"
    by (cases avs; cases "tl avs" rule: rev_cases) auto
  have "(if avs = [] then [] else last avs # butlast avs) = y # x # xs"
    by (simp add: avs)
  then show ?thesis
    using assms avs
    by (cases xs rule: rev_cases)
      (auto simp: listRotateTailToHead_def load_def store_def dlist_def dlist_upd_def dll_simps
        last_of_def)
qed

lemma listRotateHeadToTail_dlist:
  assumes "dlist m l avs"
  shows "\<exists>l' m'. listRotateHeadToTail l m = Some (l', m') \<and> freed m' = freed m \<and>
           dlist_upd m l (fst ` set avs) l' m' (rotate1 avs)"
proof (cases "length avs \<le> 1")
  case True
  then have "rotate1 avs = avs"
    by (cases avs) auto
  then show ?thesis
    using assms True by (auto simp: listRotateHeadToTail_def dlist_upd_def dlist_def)
next
  case False
  then obtain x xs y where "avs = x # xs @ [y]"
    by (cases avs; cases "tl avs" rule: rev_cases) auto
  then show ?thesis
    using assms
    by (cases xs)
      (auto simp: listRotateHeadToTail_def load_def store_def dlist_def dlist_upd_def dll_simps
        last_of_def)
qed

lemma listJoin_dlist:
  assumes "dlist m l xs" and "dlist m ot ys" and "fst ` set xs \<inter> fst ` set ys = {}"
    and "length xs + length ys < 2 ^ 64"
  shows "\<exists>l' ot' m'. listJoin l ot m = Some (l', ot', m') \<and> freed m' = freed m \<and>
           dlist m' ot' [] \<and> dlist_upd m l (fst ` set (xs @ ys)) l' m' (xs @ ys)"
  using assms
  by (cases xs rule: rev_cases; cases ys)
    (auto simp: listJoin_def load_def store_def dlist_def dlist_upd_def dll_simps last_of_def)

section \<open>Traversal\<close>

lemma listIndex_next_dll:
  assumes "dll m pr avs None"
  shows "listIndex_next m i (first_of avs None) =
    Some (if i < length avs then Some (fst (avs ! i)) else None)"
  using assms
proof (induction i arbitrary: avs pr)
  case 0
  then show ?case by (cases avs) simp_all
next
  case (Suc i)
  show ?case
  proof (cases avs)
    case (Cons a as)
    then show ?thesis
      using Suc.prems Suc.IH [of "Some (fst a)" as] by simp
  qed simp
qed

lemma listIndex_prev_dll:
  assumes "dll m None avs nx"
  shows "listIndex_prev m i (last_of None avs) =
    Some (if i < length avs then Some (fst (rev avs ! i)) else None)"
  using assms
proof (induction i arbitrary: avs nx)
  case 0
  then show ?case by (cases avs rule: rev_cases) simp_all
next
  case (Suc i)
  show ?case
  proof (cases avs rule: rev_cases)
    case (snoc as a)
    then show ?thesis
      using Suc.prems Suc.IH [of as "Some (fst a)"] by (simp add: dll_simps)
  qed simp
qed

lemma listSearchKey_loop_dll:
  assumes "dll m pr avs None"
  shows "listSearchKey_loop l key \<lparr>it_next = first_of avs None, it_direction = AL_START_HEAD\<rparr> m =
    Some (map_option fst (find (\<lambda>av. case l_match l of Some f \<Rightarrow> f (snd av) key
                                      | None \<Rightarrow> key = snd av) avs))"
  using assms
proof (induction avs arbitrary: pr)
  case Nil
  then show ?case by (subst listSearchKey_loop.simps) (simp add: listNext_def)
next
  case (Cons av avs)
  then show ?case
    using Cons.IH [of "Some (fst av)"]
    by (cases "l_match l"; subst listSearchKey_loop.simps; simp add: listNext_def load_def)
qed

text \<open>Repeated calls of \<open>listNext\<close> up to the \<open>NULL\<close> that ends the iteration.\<close>

primrec listNext_n :: "nat \<Rightarrow> 'v heap \<Rightarrow> listIter \<Rightarrow> (addr option list \<times> listIter) option" where
  "listNext_n 0 m it = Some ([], it)"
| "listNext_n (Suc n) m it = do {
     (p, it1) \<leftarrow> listNext m it;
     (ps, it2) \<leftarrow> listNext_n n m it1;
     Some (p # ps, it2)
   }"

lemma listNext_n_head:
  assumes "dll m pr avs None"
  shows "listNext_n (length avs + k) m \<lparr>it_next = first_of avs None, it_direction = AL_START_HEAD\<rparr> =
    Some (map (Some \<circ> fst) avs @ replicate k None,
      \<lparr>it_next = None, it_direction = AL_START_HEAD\<rparr>)"
  using assms
proof (induction avs arbitrary: pr)
  case Nil
  then show ?case by (induction k) (simp_all add: listNext_def)
next
  case (Cons av avs)
  then show ?case
    using Cons.IH [of "Some (fst av)"] by (simp add: listNext_def load_def)
qed

lemma listNext_n_tail:
  assumes "dll m None avs nx"
  shows "listNext_n (length avs + k) m \<lparr>it_next = last_of None avs, it_direction = AL_START_TAIL\<rparr> =
    Some (map (Some \<circ> fst) (rev avs) @ replicate k None,
      \<lparr>it_next = None, it_direction = AL_START_TAIL\<rparr>)"
  using assms
proof (induction avs arbitrary: nx rule: rev_induct)
  case Nil
  then show ?case by (induction k) (simp_all add: listNext_def)
next
  case (snoc av avs)
  then show ?case
    using snoc.IH [of "Some (fst av)"] by (simp add: listNext_def load_def dll_simps)
qed

section \<open>Duplication\<close>

definition fresh_allocator :: "'v allocator \<Rightarrow> bool" where
  "fresh_allocator zmalloc \<longleftrightarrow> (\<forall>m a n. zmalloc m = Some (a, n) \<longrightarrow> nodes m a = None)"

definition dup_value :: "'v adlist \<Rightarrow> 'v \<Rightarrow> 'v option" where
  "dup_value l v = (case l_dup l of None \<Rightarrow> Some v | Some d \<Rightarrow> d v)"

text \<open>What \<open>listDup\<close> promises from a heap \<open>m0\<close> for the values \<open>vs\<close>.  In case of success
  the copy is well linked, its nodes were free in \<open>m0\<close> and nothing else changed; in case
  of \<open>NULL\<close> the nodes are exactly those of \<open>m0\<close>.\<close>

definition dup_post ::
  "'v heap \<Rightarrow> 'v adlist \<Rightarrow> 'v list \<Rightarrow> 'v adlist option \<Rightarrow> 'v heap \<Rightarrow> bool" where
  "dup_post m0 l vs r m' \<longleftrightarrow>
     (case r of
        None \<Rightarrow> nodes m' = nodes m0
      | Some c \<Rightarrow>
          (\<exists>cs. dlist m' c cs \<and> map (Some \<circ> snd) cs = map (dup_value l) vs \<and>
             (\<forall>b \<in> fst ` set cs. nodes m0 b = None) \<and>
             (\<forall>b. b \<notin> fst ` set cs \<longrightarrow> nodes m' b = nodes m0 b)))"

lemma dup_post_frame:
  "dup_post m0 l vs r m' \<Longrightarrow> nodes m0 b \<noteq> None \<Longrightarrow> nodes m' b = nodes m0 b"
  unfolding dup_post_def by (cases r; simp only: option.case; metis)

lemma listDup_loop_correct:
  assumes "fresh_allocator zmalloc" and "dll m0 pr ys None" and "dlist m copy cs"
    and "\<forall>b \<in> fst ` set cs. nodes m0 b = None"
    and "\<forall>b. b \<notin> fst ` set cs \<longrightarrow> nodes m b = nodes m0 b"
    and "length cs + length ys < 2 ^ 64"
    and "map (Some \<circ> snd) cs = map (dup_value l) vs" and "l_dup copy = l_dup l"
  shows "\<exists>r m'. listDup_loop zmalloc copy
      \<lparr>it_next = first_of ys None, it_direction = AL_START_HEAD\<rparr> m = Some (r, m') \<and>
    dup_post m0 l (vs @ map snd ys) r m'"
  using assms
proof (induction ys arbitrary: pr copy cs m vs)
  case Nil
  then show ?case
    by (subst listDup_loop.simps) (auto simp: listNext_def dup_post_def comp_def)
next
  case (Cons y ys)
  let ?it = "\<lparr>it_next = first_of ys None, it_direction = AL_START_HEAD\<rparr>"
  have y_m0: "nodes m0 (fst y) = Some \<lparr>node_prev = pr, node_next = first_of ys None,
      node_value = snd y\<rparr>"
    using Cons.prems(2) by simp
  then have y_m: "nodes m (fst y) = Some \<lparr>node_prev = pr, node_next = first_of ys None,
      node_value = snd y\<rparr>"
    using Cons.prems(4,5) by (metis option.distinct(1))
  have released: "\<exists>m'. listRelease (Some copy) (call_free fr w m) = Some m' \<and> nodes m' = nodes m0"
    for fr w
  proof -
    have "dlist (call_free fr w m) copy cs"
      using Cons.prems(3) by (subst dlist_heap_cong [of _ _ m]) auto
    then show ?thesis
      using Cons.prems(4,5) by (auto simp: listRelease_eq fun_eq_iff)
  qed
  show ?case
  proof (cases "dup_value l (snd y)")
    case None
    then show ?thesis
      using y_m released [of False] Cons.prems(8)
      by (cases "l_dup l"; subst listDup_loop.simps)
        (auto simp: listNext_def load_def dup_value_def dup_post_def call_free_def)
  next
    case (Some v)
    show ?thesis
    proof (cases "zmalloc m")
      case None
      then show ?thesis
        using y_m released [of "l_free copy" v] Cons.prems(8) Some
        by (cases "l_dup l"; subst listDup_loop.simps)
          (auto simp: listNext_def load_def dup_value_def dup_post_def listAddNodeTail_def
            alloc_node_def)
    next
      case (Some an)
      then obtain a n where z: "zmalloc m = Some (a, n)" by (cases an) auto
      then have a: "nodes m a = None"
        using Cons.prems(1) by (auto simp: fresh_allocator_def)
      obtain copy' m1 where add: "listAddNodeTail zmalloc copy v m = Some (True, copy', m1)"
          "dlist_upd m copy (insert a (fst ` set cs)) copy' m1 (cs @ [(a, v)])"
        using listAddNodeTail_dlist [where zmalloc = zmalloc and v = v, OF Cons.prems(3) z a]
          Cons.prems(6) by fastforce
      have "nodes m0 a = None"
        using a dlist_alloc_frame [OF Cons.prems(3) a] Cons.prems(5) by metis
      then have "\<exists>r m'. listDup_loop zmalloc copy' ?it m1 = Some (r, m') \<and>
          dup_post m0 l ((vs @ [snd y]) @ map snd ys) r m'"
        using Cons.prems add(2) \<open>dup_value l (snd y) = Some v\<close>
        by (intro Cons.IH [where cs = "cs @ [(a, v)]"]) (auto simp: dlist_upd_def)
      then show ?thesis
        using y_m add(1) Cons.prems(8) \<open>dup_value l (snd y) = Some v\<close>
        by (cases "l_dup l"; subst listDup_loop.simps)
          (auto simp: listNext_def load_def dup_value_def)
    qed
  qed
qed

section \<open>Properties\<close>

lemma split_at: "i < length xs \<Longrightarrow> xs = take i xs @ (fst (xs ! i), snd (xs ! i)) # drop (Suc i) xs"
  unfolding prod.collapse by (rule id_take_nth_drop)

lemma listInsertNode_at:
  assumes d: "dlist m l avs" and i: "i < length avs"
    and z: "zmalloc m = Some (a, n0)" and a: "nodes m a = None" and len: "length avs + 1 < 2 ^ 64"
  shows "\<exists>l' m'. listInsertNode zmalloc l (fst (avs ! i)) v after m = Some (True, l', m') \<and>
    freed m' = freed m \<and>
    dlist_upd m l (insert a (fst ` set avs)) l' m'
      (let j = (if after then Suc i else i) in take j avs @ (a, v) # drop j avs)"
proof -
  let ?xs = "take i avs" and ?ys = "drop (Suc i) avs"
  have avs: "avs = ?xs @ (fst (avs ! i), snd (avs ! i)) # ?ys"
    using i by (rule split_at)
  have d': "dlist m l (?xs @ (fst (avs ! i), snd (avs ! i)) # ?ys)"
    using d by (simp only: avs [symmetric])
  have F: "set (?xs @ (fst (avs ! i), snd (avs ! i)) # ?ys) = set avs"
    by (simp only: avs [symmetric])
  have len': "length ?xs + length ?ys + 2 < 2 ^ 64"
    using i len by simp
  have "?xs @ (a, v) # (fst (avs ! i), snd (avs ! i)) # ?ys = take i avs @ (a, v) # drop i avs"
    using i by (simp add: Cons_nth_drop_Suc)
  moreover have "?xs @ (fst (avs ! i), snd (avs ! i)) # (a, v) # ?ys =
      take (Suc i) avs @ (a, v) # drop (Suc i) avs"
    using i by (simp add: take_Suc_conv_app_nth)
  ultimately show ?thesis
    using listInsertNode_after [where v = v and zmalloc = zmalloc, OF d' z a len']
      listInsertNode_before [where v = v and zmalloc = zmalloc, OF d' z a len']
    by (cases after) (simp_all only: F Let_def if_True if_False)
qed

text \<open>C1. the three insertions of \<^verbatim>\<open>adlist.c\<close> refine insertion into a sequence.  On a
  well-linked list, with a fresh node, \<open>listAddNodeHead\<close>, \<open>listAddNodeTail\<close> and
  \<open>listInsertNode\<close> (after or before any node of the list) never dereference a bad pointer,
  leave a well-linked list with the new value at the head, at the tail, or next to the
  given node, count it, and touch no node outside the list.\<close>

theorem adlist_insert_refines:
  assumes "dlist m l avs" and "zmalloc m = Some (a, n0)" and "nodes m a = None"
    and "length avs + 1 < 2 ^ 64"
  shows "(\<exists>l' m'. listAddNodeHead zmalloc l v m = Some (True, l', m') \<and> freed m' = freed m \<and>
            dlist_upd m l (insert a (fst ` set avs)) l' m' ((a, v) # avs)) \<and>
         (\<exists>l' m'. listAddNodeTail zmalloc l v m = Some (True, l', m') \<and> freed m' = freed m \<and>
            dlist_upd m l (insert a (fst ` set avs)) l' m' (avs @ [(a, v)])) \<and>
         (\<forall>i < length avs. \<exists>l' m'.
            listInsertNode zmalloc l (fst (avs ! i)) v after m = Some (True, l', m') \<and>
            freed m' = freed m \<and>
            dlist_upd m l (insert a (fst ` set avs)) l' m'
              (let j = (if after then Suc i else i) in take j avs @ (a, v) # drop j avs))"
  using listAddNodeHead_dlist [where v = v and zmalloc = zmalloc, OF assms]
    listAddNodeTail_dlist [where v = v and zmalloc = zmalloc, OF assms]
    listInsertNode_at [where v = v and after = after and zmalloc = zmalloc,
      OF assms(1) _ assms(2-4)]
  by (intro conjI allI impI)

definition one_node :: "nat heap" where
  "one_node = \<lparr>nodes = [5 \<mapsto> \<lparr>node_prev = None, node_next = None, node_value = 10\<rparr>],
     freed = []\<rparr>"

definition one_list :: "nat adlist" where
  "one_list = \<lparr>l_head = Some 5, l_tail = Some 5, l_dup = None, l_free = True,
     l_match = None, l_len = 1\<rparr>"

lemma one_node_dlist: "dlist one_node one_list [(5, 10)]"
  by (simp add: dlist_def one_node_def one_list_def)

definition seven :: "nat allocator" where
  "seven = (\<lambda>m. if nodes m 7 = None
     then Some (7, \<lparr>node_prev = None, node_next = None, node_value = 0\<rparr>) else None)"

lemma seven_one_node:
  "seven one_node = Some (7, \<lparr>node_prev = None, node_next = None, node_value = 0\<rparr>)"
  "nodes one_node 7 = None"
  by (simp_all add: seven_def one_node_def)

theorem adlist_insert_refines_witness:
  "\<exists>l' m'. listInsertNode seven one_list 5 20 True one_node = Some (True, l', m') \<and>
     freed m' = freed one_node \<and>
     dlist_upd one_node one_list {7, 5} l' m' [(5, 10), (7, 20)]"
  using adlist_insert_refines [where zmalloc = seven and v = 20 and after = True,
      OF one_node_dlist seven_one_node]
  by simp

text \<open>C2. removal.  \<open>listDelNode\<close> of the node at position \<open>i\<close> removes exactly that element,
  hands its value to the \<open>free\<close> callback exactly once when there is one, and deallocates
  the node; \<open>listEmpty\<close> frees every value exactly once, in order, deallocates every node
  and nothing else, and leaves the empty list.\<close>

theorem adlist_remove_refines:
  assumes "dlist m l avs"
  shows "(\<forall>i < length avs. \<exists>l' m'.
            listDelNode l (fst (avs ! i)) m = Some (l', m') \<and> nodes m' (fst (avs ! i)) = None \<and>
            freed m' = freed m @ (if l_free l then [snd (avs ! i)] else []) \<and>
            dlist_upd m l (fst ` set avs) l' m' (take i avs @ drop (Suc i) avs)) \<and>
         (\<exists>l' m'. listEmpty l m = Some (l', m') \<and> dlist m' l' [] \<and>
            freed m' = freed m @ (if l_free l then map snd avs else []) \<and>
            (\<forall>b. nodes m' b = (if b \<in> fst ` set avs then None else nodes m b)))"
proof (intro conjI allI impI)
  fix i assume i: "i < length avs"
  note s = split_at [OF i]
  show "\<exists>l' m'. listDelNode l (fst (avs ! i)) m = Some (l', m') \<and> nodes m' (fst (avs ! i)) = None \<and>
      freed m' = freed m @ (if l_free l then [snd (avs ! i)] else []) \<and>
      dlist_upd m l (fst ` set avs) l' m' (take i avs @ drop (Suc i) avs)"
    using listDelNode_dlist [of m l "take i avs" "fst (avs ! i)" "snd (avs ! i)" "drop (Suc i) avs"]
      assms by (simp only: s [symmetric])
next
  show "\<exists>l' m'. listEmpty l m = Some (l', m') \<and> dlist m' l' [] \<and>
      freed m' = freed m @ (if l_free l then map snd avs else []) \<and>
      (\<forall>b. nodes m' b = (if b \<in> fst ` set avs then None else nodes m b))"
    using listEmpty_eq [OF assms] by (simp add: dlist_def)
qed

theorem adlist_remove_refines_witness:
  "\<exists>l' m'. listDelNode one_list 5 one_node = Some (l', m') \<and> nodes m' 5 = None \<and>
     freed m' = freed one_node @ [10] \<and> dlist_upd one_node one_list {5} l' m' []"
  using adlist_remove_refines [OF one_node_dlist] by (simp add: one_list_def)

text \<open>C3. \<open>listRotateTailToHead\<close> and \<open>listRotateHeadToTail\<close> rotate the sequence by one,
  and \<open>listJoin\<close> moves all elements of the second list, in order, to the end of the first,
  leaving the second a valid empty list.\<close>

theorem adlist_rotate_join_refine:
  assumes "dlist m l xs" and "dlist m ot ys" and "fst ` set xs \<inter> fst ` set ys = {}"
    and "length xs + length ys < 2 ^ 64"
  shows "(\<exists>l' m'. listRotateTailToHead l m = Some (l', m') \<and>
            dlist_upd m l (fst ` set xs) l' m' (if xs = [] then [] else last xs # butlast xs)) \<and>
         (\<exists>l' m'. listRotateHeadToTail l m = Some (l', m') \<and>
            dlist_upd m l (fst ` set xs) l' m' (rotate1 xs)) \<and>
         (\<exists>l' ot' m'. listJoin l ot m = Some (l', ot', m') \<and> dlist m' ot' [] \<and>
            dlist_upd m l (fst ` set (xs @ ys)) l' m' (xs @ ys))"
  using listRotateTailToHead_dlist [OF assms(1)] listRotateHeadToTail_dlist [OF assms(1)]
    listJoin_dlist [OF assms] by blast

theorem adlist_rotate_join_refine_witness:
  "\<exists>l' ot' m'. listJoin one_list listCreate one_node = Some (l', ot', m') \<and>
     dlist m' ot' [] \<and> dlist_upd one_node one_list {5} l' m' [(5, 10)]"
proof -
  have "dlist one_node listCreate []"
    by (simp add: dlist_def listCreate_def)
  then show ?thesis
    using adlist_rotate_join_refine [OF one_node_dlist, of listCreate "[]"] by simp
qed

text \<open>C4. traversal.  \<open>listIndex\<close> returns the node at a zero-based index, counting from the
  tail for a negative one, and \<open>NULL\<close> out of range; \<open>listSearchKey\<close> terminates and returns
  the first node that matches; and \<open>length + 1\<close> calls of \<open>listNext\<close> enumerate the nodes in
  the direction of the iterator and then return \<open>NULL\<close>.\<close>

theorem adlist_traversal_correct:
  assumes "dlist m l avs"
  shows "listIndex l i m = Some
           (if 0 \<le> i \<and> i < int (length avs) then Some (fst (avs ! nat i))
            else if i < 0 \<and> - i \<le> int (length avs)
            then Some (fst (avs ! nat (int (length avs) + i))) else None) \<and>
         listSearchKey l key m = Some (map_option fst
           (find (\<lambda>av. case l_match l of Some f \<Rightarrow> f (snd av) key | None \<Rightarrow> key = snd av) avs)) \<and>
         map_option fst (listNext_n (length avs + 1) m (listGetIterator l AL_START_HEAD)) =
           Some (map (Some \<circ> fst) avs @ [None]) \<and>
         map_option fst (listNext_n (length avs + 1) m (listGetIterator l AL_START_TAIL)) =
           Some (map (Some \<circ> fst) (rev avs) @ [None])"
proof (intro conjI)
  have d: "dll m None avs None" "l_head l = first_of avs None" "l_tail l = last_of None avs"
    using assms by (simp_all add: dlist_def)
  show "listIndex l i m = Some
           (if 0 \<le> i \<and> i < int (length avs) then Some (fst (avs ! nat i))
            else if i < 0 \<and> - i \<le> int (length avs)
            then Some (fst (avs ! nat (int (length avs) + i))) else None)"
  proof (cases "i < 0")
    case True
    have "rev avs ! nat (- i - 1) = avs ! nat (int (length avs) + i)"
      if "- i \<le> int (length avs)"
    proof -
      have "nat (- i - 1) < length avs" and
        "length avs - Suc (nat (- i - 1)) = nat (int (length avs) + i)"
        using that True by linarith+
      then show ?thesis by (simp add: rev_nth)
    qed
    moreover have "nat (- i - 1) < length avs \<longleftrightarrow> - i \<le> int (length avs)"
      using True by linarith
    ultimately show ?thesis
      using True listIndex_prev_dll [OF d(1)] by (simp add: listIndex_def d(3))
  next
    case False
    then show ?thesis
      using listIndex_next_dll [OF d(1)] by (simp add: listIndex_def d(2) nat_less_iff)
  qed
  show "listSearchKey l key m = Some (map_option fst
      (find (\<lambda>av. case l_match l of Some f \<Rightarrow> f (snd av) key | None \<Rightarrow> key = snd av) avs))"
    using listSearchKey_loop_dll [OF d(1)] by (simp add: listSearchKey_def listRewind_def d(2))
  show "map_option fst (listNext_n (length avs + 1) m (listGetIterator l AL_START_HEAD)) =
      Some (map (Some \<circ> fst) avs @ [None])"
    using listNext_n_head [OF d(1), of 1] by (simp add: listGetIterator_def d(2))
  show "map_option fst (listNext_n (length avs + 1) m (listGetIterator l AL_START_TAIL)) =
      Some (map (Some \<circ> fst) (rev avs) @ [None])"
    using listNext_n_tail [OF d(1), of 1] by (simp add: listGetIterator_def d(3))
qed

theorem adlist_traversal_correct_witness:
  "listIndex one_list (-1) one_node = Some (Some 5) \<and> listSearchKey one_list 10 one_node = Some (Some 5)"
  using adlist_traversal_correct [OF one_node_dlist, of "-1" 10] by (simp add: one_list_def)



end
