(* ===== verification/Intset.thy ===== *)
theory Intset
  imports Redis_Prelude
begin

text \<open>
  The sorted integer set of \<^verbatim>\<open>intset.c\<close>, at the level of its bytes.

  An \<open>intset\<close> is a header (encoding and length, both \<open>uint32_t\<close>) and a buffer of
  little-endian integers of the current encoding, 2, 4 or 8 bytes wide.  All operations
  read and write that buffer through the checked accesses of the prelude, so \<^term>\<open>None\<close> is an
  access outside the allocation (or a failed \<open>assert\<close>).  The parameter \<open>fill\<close> is the
  indeterminate contents of bytes added by \<open>zrealloc\<close>.  Machine arithmetic that can wrap
  is written out: \<open>uint32_t\<close> is \<open>mod 2 ^ 32\<close>, \<open>int\<close> is \<open>wrap_signed 32\<close>.

  The abstraction of an \<open>intset\<close> is the list \<open>intset_elems\<close> of its decoded values;
  \<open>intset_ok\<close> says that the buffer has the size the header announces and that these values are
  strictly increasing.
\<close>

section \<open>Data and encodings\<close>

record intset =
  is_encoding :: nat
  is_length :: nat
  is_contents :: bytes

definition INTSET_ENC_INT16 :: nat where "INTSET_ENC_INT16 = 2"
definition INTSET_ENC_INT32 :: nat where "INTSET_ENC_INT32 = 4"
definition INTSET_ENC_INT64 :: nat where "INTSET_ENC_INT64 = 8"

lemmas intset_enc_defs = INTSET_ENC_INT16_def INTSET_ENC_INT32_def INTSET_ENC_INT64_def

text \<open>\<open>sizeof(intset)\<close>: the two header fields.\<close>

definition sizeof_intset :: nat where "sizeof_intset = 8"

definition intsetValueEncoding :: "int \<Rightarrow> nat" where
  "intsetValueEncoding v =
     (if v < INT32_MIN \<or> v > INT32_MAX then INTSET_ENC_INT64
      else if v < INT16_MIN \<or> v > INT16_MAX then INTSET_ENC_INT32
      else INTSET_ENC_INT16)"

section \<open>Operations\<close>

definition intsetGetEncoded :: "intset \<Rightarrow> int \<Rightarrow> nat \<Rightarrow> int option" where
  "intsetGetEncoded is pos enc =
     (if pos < 0 then None
      else if enc = INTSET_ENC_INT64 then
        map_option le_sint (mem_read (is_contents is) (nat pos * 8) 8)
      else if enc = INTSET_ENC_INT32 then
        map_option le_sint (mem_read (is_contents is) (nat pos * 4) 4)
      else
        map_option le_sint (mem_read (is_contents is) (nat pos * 2) 2))"

definition intsetGet_pos :: "intset \<Rightarrow> int \<Rightarrow> int option" where
  "intsetGet_pos is pos = intsetGetEncoded is pos (is_encoding is)"

definition intsetSet :: "intset \<Rightarrow> int \<Rightarrow> int \<Rightarrow> intset option" where
  "intsetSet is pos v =
     (if pos < 0 then None
      else map_option (\<lambda>c. is\<lparr>is_contents := c\<rparr>)
        (if is_encoding is = INTSET_ENC_INT64 then
           mem_write (is_contents is) (nat pos * 8) (le_bytes 8 v)
         else if is_encoding is = INTSET_ENC_INT32 then
           mem_write (is_contents is) (nat pos * 4) (le_bytes 4 v)
         else
           mem_write (is_contents is) (nat pos * 2) (le_bytes 2 v)))"

definition intsetNew :: intset where
  "intsetNew = \<lparr>is_encoding = INTSET_ENC_INT16, is_length = 0, is_contents = []\<rparr>"

definition intsetResize :: "(nat \<Rightarrow> byte) \<Rightarrow> intset \<Rightarrow> nat \<Rightarrow> intset option" where
  "intsetResize fill is len =
     (let size = (len * is_encoding is) mod 2 ^ 64 in
      if size \<le> 2 ^ 64 - 1 - sizeof_intset
      then Some (is\<lparr>is_contents := mem_resize fill size (is_contents is)\<rparr>)
      else None)"

text \<open>The loop of the binary search; it returns the final \<open>min\<close>, \<open>mid\<close> and \<open>cur\<close>.
  It is a partial function: that it terminates is part of \<open>intsetSearch_correct\<close> below.\<close>

partial_function (option) intsetSearch_loop ::
  "intset \<Rightarrow> int \<Rightarrow> int \<Rightarrow> int \<Rightarrow> int \<Rightarrow> int \<Rightarrow> (int \<times> int \<times> int) option" where
  "intsetSearch_loop is v mn mx mid cur =
     (if mx \<ge> mn then
        (let mid' = wrap_signed 32 ((mn mod 2 ^ 32 + mx mod 2 ^ 32) mod 2 ^ 32 div 2) in
         case intsetGet_pos is mid' of
           None \<Rightarrow> None
         | Some cur' \<Rightarrow>
             (if v > cur' then intsetSearch_loop is v (mid' + 1) mx mid' cur'
              else if v < cur' then intsetSearch_loop is v mn (mid' - 1) mid' cur'
              else Some (mn, mid', cur')))
      else Some (mn, mid, cur))"

declare intsetSearch_loop.simps [code]

text \<open>The result is whether the value was found, and the value stored through \<open>pos\<close>.\<close>

definition intsetSearch :: "intset \<Rightarrow> int \<Rightarrow> (bool \<times> nat) option" where
  "intsetSearch is v =
     (if is_length is = 0 then Some (False, 0)
      else do {
        let mx = wrap_signed 32 ((int (is_length is) - 1) mod 2 ^ 32);
        last \<leftarrow> intsetGet_pos is mx;
        if v > last then Some (False, is_length is)
        else do {
          first \<leftarrow> intsetGet_pos is 0;
          if v < first then Some (False, 0)
          else do {
            (mn, mid, cur) \<leftarrow> intsetSearch_loop is v 0 mx (-1) (-1);
            if v = cur then Some (True, nat (mid mod 2 ^ 32))
            else Some (False, nat (mn mod 2 ^ 32))
          }
        }
      })"

text \<open>The loop \<open>while(length--)\<close> of the upgrade, which rewrites the buffer in place from
  the back, reading at the old width and writing at the new one.\<close>

primrec intsetUpgrade_loop :: "nat \<Rightarrow> nat \<Rightarrow> nat \<Rightarrow> intset \<Rightarrow> intset option" where
  "intsetUpgrade_loop curenc prepend 0 is = Some is"
| "intsetUpgrade_loop curenc prepend (Suc len) is = do {
     v \<leftarrow> intsetGetEncoded is (int len) curenc;
     is1 \<leftarrow> intsetSet is (int (len + prepend)) v;
     intsetUpgrade_loop curenc prepend len is1
   }"

text \<open>\<open>int length\<close> would be negative from \<open>2 ^ 31\<close> elements on, and the loop would start by
  reading before the buffer.\<close>

definition intsetUpgradeAndAdd :: "(nat \<Rightarrow> byte) \<Rightarrow> intset \<Rightarrow> int \<Rightarrow> intset option" where
  "intsetUpgradeAndAdd fill is v =
     (let curenc = is_encoding is; newenc = intsetValueEncoding v;
          prepend = (if v < 0 then 1 else 0 :: nat) in
      if is_length is \<ge> 2 ^ 31 then None
      else do {
        is1 \<leftarrow> intsetResize fill (is\<lparr>is_encoding := newenc\<rparr>) ((is_length is + 1) mod 2 ^ 32);
        is2 \<leftarrow> intsetUpgrade_loop curenc prepend (is_length is) is1;
        is3 \<leftarrow> (if prepend = 1 then intsetSet is2 0 v
               else intsetSet is2 (int (is_length is2)) v);
        Some (is3\<lparr>is_length := (is_length is3 + 1) mod 2 ^ 32\<rparr>)
      })"

definition intsetMoveTail :: "intset \<Rightarrow> nat \<Rightarrow> nat \<Rightarrow> intset option" where
  "intsetMoveTail is from to =
     (let count = nat ((int (is_length is) - int from) mod 2 ^ 32);
          w = (if is_encoding is = INTSET_ENC_INT64 then 8
               else if is_encoding is = INTSET_ENC_INT32 then 4 else 2 :: nat);
          nbytes = (count * w) mod 2 ^ 32
      in map_option (\<lambda>c. is\<lparr>is_contents := c\<rparr>)
           (mem_move (is_contents is) (to * w) (from * w) nbytes))"

text \<open>The last part of \<open>intsetAdd\<close> (make room at \<open>pos\<close> and store) and of \<open>intsetRemove\<close>
  (overwrite the value at \<open>pos\<close> with the tail and shrink).\<close>

definition intsetAdd_at :: "(nat \<Rightarrow> byte) \<Rightarrow> intset \<Rightarrow> nat \<Rightarrow> int \<Rightarrow> intset option" where
  "intsetAdd_at fill is pos v = do {
     is1 \<leftarrow> intsetResize fill is ((is_length is + 1) mod 2 ^ 32);
     is2 \<leftarrow> (if pos < is_length is1 then intsetMoveTail is1 pos (pos + 1) else Some is1);
     is3 \<leftarrow> intsetSet is2 (int pos) v;
     Some (is3\<lparr>is_length := (is_length is3 + 1) mod 2 ^ 32\<rparr>)
   }"

definition intsetRemove_at :: "(nat \<Rightarrow> byte) \<Rightarrow> intset \<Rightarrow> nat \<Rightarrow> intset option" where
  "intsetRemove_at fill is pos = do {
     let len1 = (int (is_length is) - 1) mod 2 ^ 32;
     is1 \<leftarrow> (if int pos < len1 then intsetMoveTail is (pos + 1) pos else Some is);
     is2 \<leftarrow> intsetResize fill is1 (nat len1);
     Some (is2\<lparr>is_length := nat len1\<rparr>)
   }"

text \<open>\<open>intsetAdd\<close> and \<open>intsetRemove\<close> return the set and the value stored through \<open>success\<close>.\<close>

definition intsetAdd :: "(nat \<Rightarrow> byte) \<Rightarrow> intset \<Rightarrow> int \<Rightarrow> (intset \<times> bool) option" where
  "intsetAdd fill is v =
     (if intsetValueEncoding v > is_encoding is
      then do { is' \<leftarrow> intsetUpgradeAndAdd fill is v; Some (is', True) }
      else do {
        (found, pos) \<leftarrow> intsetSearch is v;
        if found then Some (is, False)
        else do { is' \<leftarrow> intsetAdd_at fill is pos v; Some (is', True) }
      })"

definition intsetRemove :: "(nat \<Rightarrow> byte) \<Rightarrow> intset \<Rightarrow> int \<Rightarrow> (intset \<times> bool) option" where
  "intsetRemove fill is v =
     (if intsetValueEncoding v \<le> is_encoding is
      then do {
        (found, pos) \<leftarrow> intsetSearch is v;
        if found then do { is' \<leftarrow> intsetRemove_at fill is pos; Some (is', True) }
        else Some (is, False)
      }
      else Some (is, False))"

definition intsetFind :: "intset \<Rightarrow> int \<Rightarrow> bool option" where
  "intsetFind is v =
     (if intsetValueEncoding v \<le> is_encoding is then map_option fst (intsetSearch is v)
      else Some False)"

text \<open>The value of \<open>rand()\<close> is the parameter \<open>r\<close>.\<close>

definition intsetRandom :: "nat \<Rightarrow> intset \<Rightarrow> int option" where
  "intsetRandom r is =
     (if is_length is = 0 then None else intsetGet_pos is (int (r mod is_length is)))"

definition intsetMax :: "intset \<Rightarrow> int option" where
  "intsetMax is = intsetGet_pos is (wrap_signed 32 ((int (is_length is) - 1) mod 2 ^ 32))"

definition intsetMin :: "intset \<Rightarrow> int option" where
  "intsetMin is = intsetGet_pos is 0"

text \<open>\<open>intsetGet\<close> returns 0 (the inner \<^term>\<open>None\<close>) when the position is out of range.\<close>

definition intsetGet :: "intset \<Rightarrow> nat \<Rightarrow> int option option" where
  "intsetGet is pos =
     (if pos < is_length is then map_option Some (intsetGet_pos is (wrap_signed 32 (int pos)))
      else Some None)"

definition intsetLen :: "intset \<Rightarrow> nat" where
  "intsetLen is = is_length is"

definition intsetBlobLen :: "intset \<Rightarrow> nat" where
  "intsetBlobLen is = sizeof_intset + is_length is * is_encoding is"

text \<open>The bytes of a whole \<open>intset\<close>, header and contents, as they are written to an RDB
  payload; and the header fields read back from such a payload.\<close>

definition intset_blob :: "intset \<Rightarrow> bytes" where
  "intset_blob is =
     le_bytes 4 (int (is_encoding is)) @ le_bytes 4 (int (is_length is)) @ is_contents is"

definition blob_intset :: "bytes \<Rightarrow> intset" where
  "blob_intset p =
     \<lparr>is_encoding = nat (le_uint (take 4 p)), is_length = nat (le_uint (take 4 (drop 4 p))),
      is_contents = drop 8 p\<rparr>"

text \<open>The last loop of the validation: \<open>prev\<close> against the records from \<open>i\<close> on.\<close>

primrec intsetValidate_loop :: "intset \<Rightarrow> nat \<Rightarrow> nat \<Rightarrow> int \<Rightarrow> bool option" where
  "intsetValidate_loop is i 0 prev = Some True"
| "intsetValidate_loop is i (Suc n) prev = do {
     cur \<leftarrow> intsetGet_pos is (wrap_signed 32 (int i));
     if cur \<le> prev then Some False else intsetValidate_loop is (Suc i) n cur
   }"

definition intsetValidateIntegrity :: "bytes \<Rightarrow> bool \<Rightarrow> bool option" where
  "intsetValidateIntegrity p deep =
     (if length p < sizeof_intset then Some False
      else let is = blob_intset p; count = is_length is in
        if is_encoding is \<noteq> INTSET_ENC_INT64 \<and> is_encoding is \<noteq> INTSET_ENC_INT32 \<and>
           is_encoding is \<noteq> INTSET_ENC_INT16 then Some False
        else if sizeof_intset + count * is_encoding is \<noteq> length p then Some False
        else if count = 0 then Some False
        else if \<not> deep then Some True
        else do {
          prev \<leftarrow> intsetGet_pos is 0;
          intsetValidate_loop is 1 (count - 1) prev
        })"

section \<open>The abstraction\<close>

definition enc_ok :: "nat \<Rightarrow> bool" where
  "enc_ok n \<longleftrightarrow> n = INTSET_ENC_INT16 \<or> n = INTSET_ENC_INT32 \<or> n = INTSET_ENC_INT64"

definition fits :: "nat \<Rightarrow> int \<Rightarrow> bool" where
  "fits n v \<longleftrightarrow> - (2 ^ (8 * n - 1)) \<le> v \<and> v < 2 ^ (8 * n - 1)"

definition intset_elems :: "intset \<Rightarrow> int list" where
  "intset_elems is =
     map (\<lambda>i. le_sint (take (is_encoding is) (drop (i * is_encoding is) (is_contents is))))
       [0..<is_length is]"

definition intset_ok :: "intset \<Rightarrow> bool" where
  "intset_ok is \<longleftrightarrow>
     enc_ok (is_encoding is) \<and> length (is_contents is) = is_length is * is_encoding is \<and>
     sorted_wrt (<) (intset_elems is)"

definition enc_all :: "nat \<Rightarrow> int list \<Rightarrow> bytes" where
  "enc_all n es = concat (map (le_bytes n) es)"

definition intset_rep :: "intset \<Rightarrow> int list \<Rightarrow> bool" where
  "intset_rep is es \<longleftrightarrow>
     enc_ok (is_encoding is) \<and> is_length is = length es \<and>
     is_contents is = enc_all (is_encoding is) es \<and> (\<forall>v \<in> set es. fits (is_encoding is) v)"

lemma enc_all_simps [simp]:
  "enc_all n [] = []" "enc_all n (e # es) = le_bytes n e @ enc_all n es"
  "enc_all n (xs @ ys) = enc_all n xs @ enc_all n ys"
  by (simp_all add: enc_all_def)

lemma length_enc_all [simp]: "length (enc_all n es) = length es * n"
  by (induction es) auto

lemma take_enc_all [simp]: "take (i * n) (enc_all n es) = enc_all n (take i es)"
proof (induction es arbitrary: i)
  case (Cons e es)
  then show ?case by (cases i) simp_all
qed simp

lemma drop_enc_all [simp]: "drop (i * n) (enc_all n es) = enc_all n (drop i es)"
proof (induction es arbitrary: i)
  case (Cons e es)
  then show ?case by (cases i) simp_all
qed simp

lemma mem_read_enc_all:
  assumes "i < length es"
  shows "mem_read (enc_all n es) (i * n) n = Some (le_bytes n (es ! i))"
proof -
  have "i * n + n \<le> length es * n"
    using assms mult_le_mono1 [of "Suc i" "length es" n] by simp
  moreover have "drop i es = es ! i # drop (Suc i) es"
    using assms by (simp add: Cons_nth_drop_Suc)
  ultimately show ?thesis
    by (simp add: mem_read_def)
qed

text \<open>A buffer is determined by the records read from it.\<close>

lemma buffer_by_records:
  assumes "length b = length es * n" and "\<forall>i < length es. mem_read b (i * n) n = Some (le_bytes n (es ! i))"
  shows "b = enc_all n es"
  using assms
proof (induction es arbitrary: b)
  case Nil
  then show ?case by simp
next
  case (Cons e es)
  have "mem_read (drop n b) (i * n) n = Some (le_bytes n (es ! i))" if "i < length es" for i
  proof -
    have "mem_read b (Suc i * n) n = Some (le_bytes n (es ! i))"
      using Cons.prems(2) that by fastforce
    then show ?thesis
      by (simp add: mem_read_def algebra_simps split: if_splits)
  qed
  moreover have "length (drop n b) = length es * n"
    using Cons.prems(1) by simp
  ultimately have "drop n b = enc_all n es"
    by (intro Cons.IH) auto
  moreover have "take n b = le_bytes n e"
    using Cons.prems(2) [rule_format, of 0] by (simp add: mem_read_def split: if_splits)
  ultimately show ?case
    by (metis append_take_drop_id enc_all_simps(2))
qed

lemma enc_ok_pos: "enc_ok n \<Longrightarrow> 0 < n \<and> n \<le> 8"
  by (auto simp: enc_ok_def intset_enc_defs)

lemma le_sint_fits: "enc_ok n \<Longrightarrow> fits n v \<Longrightarrow> le_sint (le_bytes n v) = v"
  by (auto simp: le_sint_le_bytes fits_def enc_ok_def intset_enc_defs intro!: wrap_signed_id)

lemma fits_le_sint: "enc_ok (length bs) \<Longrightarrow> fits (length bs) (le_sint bs)"
  by (auto simp: le_sint_def wrap_signed_def fits_def enc_ok_def intset_enc_defs)

lemma le_bytes_le_sint: "length bs = n \<Longrightarrow> enc_ok n \<Longrightarrow> le_bytes n (le_sint bs) = bs"
proof -
  assume n: "length bs = n" "enc_ok n"
  have "le_uint (le_bytes n (le_sint bs)) = le_uint bs"
  proof -
    have "le_sint bs mod 2 ^ (8 * n) = le_uint bs mod 2 ^ (8 * n)"
      using n by (simp add: le_sint_def wrap_signed_def mod_simps)
    then show ?thesis
      using le_uint_bounds [of bs] n by (simp add: le_uint_le_bytes power_256_eq)
  qed
  then have "le_bytes n (le_uint (le_bytes n (le_sint bs))) = le_bytes n (le_uint bs)"
    by simp
  then show ?thesis
    using n by (simp add: le_bytes_le_uint)
qed

lemma intsetGetEncoded_eq:
  "enc_ok n \<Longrightarrow>
   intsetGetEncoded is (int i) n = map_option le_sint (mem_read (is_contents is) (i * n) n)"
  by (auto simp: intsetGetEncoded_def enc_ok_def intset_enc_defs)

lemma intsetSet_eq:
  "enc_ok (is_encoding is) \<Longrightarrow>
   intsetSet is (int i) v =
     map_option (\<lambda>c. is\<lparr>is_contents := c\<rparr>)
       (mem_write (is_contents is) (i * is_encoding is) (le_bytes (is_encoding is) v))"
  by (auto simp: intsetSet_def enc_ok_def intset_enc_defs)

lemma intset_rep_get:
  assumes "intset_rep is es" and "i < length es"
  shows "intsetGet_pos is (int i) = Some (es ! i)"
proof -
  have "fits (is_encoding is) (es ! i)"
    using assms by (auto simp: intset_rep_def)
  then show ?thesis
    using assms
    by (auto simp: intsetGet_pos_def intsetGetEncoded_eq mem_read_enc_all intset_rep_def le_sint_fits)
qed

lemma intset_rep_elems:
  assumes "intset_rep is es"
  shows "intset_elems is = es"
proof (rule nth_equalityI)
  show "length (intset_elems is) = length es"
    using assms by (simp add: intset_elems_def intset_rep_def)
  fix i assume "i < length (intset_elems is)"
  then have i: "i < length es"
    using assms by (simp add: intset_elems_def intset_rep_def)
  have "mem_read (is_contents is) (i * is_encoding is) (is_encoding is) =
      Some (le_bytes (is_encoding is) (es ! i))"
    using assms i by (simp add: intset_rep_def mem_read_enc_all)
  then have "intset_elems is ! i = le_sint (le_bytes (is_encoding is) (es ! i))"
    using assms i by (auto simp: intset_elems_def mem_read_def intset_rep_def split: if_splits)
  then show "intset_elems is ! i = es ! i"
    using assms i by (auto simp: intset_rep_def le_sint_fits)
qed

lemma intset_rep_sized:
  assumes n: "enc_ok (is_encoding is)"
    and len: "length (is_contents is) = is_length is * is_encoding is"
  shows "intset_rep is (intset_elems is)"
proof -
  let ?n = "is_encoding is" and ?c = "is_contents is"
  have rd: "mem_read ?c (i * ?n) ?n = Some (take ?n (drop (i * ?n) ?c))" and
    ln: "length (take ?n (drop (i * ?n) ?c)) = ?n"
    if "i < is_length is" for i
  proof -
    have "Suc i * ?n \<le> is_length is * ?n"
      using that by (intro mult_le_mono1) simp
    then have "i * ?n + ?n \<le> length ?c"
      using len by simp
    then show "mem_read ?c (i * ?n) ?n = Some (take ?n (drop (i * ?n) ?c))" and
      "length (take ?n (drop (i * ?n) ?c)) = ?n"
      by (auto simp: mem_read_def)
  qed
  have "?c = enc_all ?n (intset_elems is)"
    using len rd ln n
    by (intro buffer_by_records) (auto simp: intset_elems_def le_bytes_le_sint)
  moreover have "fits ?n (le_sint (take ?n (drop (i * ?n) ?c)))" if "i < is_length is" for i
    using ln [OF that] n fits_le_sint [of "take ?n (drop (i * ?n) ?c)"] by (simp only:)
  ultimately show ?thesis
    using n by (auto simp: intset_rep_def intset_elems_def)
qed

lemma intset_ok_rep: "intset_ok is \<Longrightarrow> intset_rep is (intset_elems is)"
  by (simp add: intset_ok_def intset_rep_sized)

lemma intset_okI: "intset_rep is es \<Longrightarrow> sorted_wrt (<) es \<Longrightarrow> intset_ok is"
  using intset_rep_elems [of "is" es] by (simp add: intset_ok_def intset_rep_def)

lemma intset_ok_sorted: "intset_ok is \<Longrightarrow> sorted_wrt (<) (intset_elems is)"
  by (simp add: intset_ok_def)

section \<open>The binary search\<close>

lemma wrap_signed_32: "INT32_MIN \<le> v \<Longrightarrow> v \<le> INT32_MAX \<Longrightarrow> wrap_signed 32 v = v"
  by (rule wrap_signed_id) auto

lemma mid_eq:
  assumes "0 \<le> mn" and "mn \<le> mx" and "mx < 2 ^ 31"
  shows "wrap_signed 32 ((mn mod 2 ^ 32 + mx mod 2 ^ 32) mod 2 ^ 32 div 2) = (mn + mx) div 2"
proof -
  have "(mn mod 2 ^ 32 + mx mod 2 ^ 32) mod 2 ^ 32 = mn + mx"
    using assms by simp
  then show ?thesis
    using assms by (simp add: wrap_signed_32)
qed

text \<open>\<open>search_spec es v mn mid cur\<close>: where the search may stop.\<close>

definition insert_point :: "int list \<Rightarrow> int \<Rightarrow> nat \<Rightarrow> bool" where
  "insert_point es v p \<longleftrightarrow>
     p \<le> length es \<and> (\<forall>e \<in> set (take p es). e < v) \<and> (\<forall>e \<in> set (drop p es). v < e)"

lemma insert_point_notin: "insert_point es v p \<Longrightarrow> v \<notin> set es"
  by (metis Un_iff append_take_drop_id insert_point_def order.irrefl set_append)

lemma sorted_lt: "sorted_wrt (<) (es :: int list) \<Longrightarrow> i < j \<Longrightarrow> j < length es \<Longrightarrow> es ! i < es ! j"
  by (rule sorted_wrt_nth_less [of "(<)"])

lemma insert_pointI:
  assumes "sorted_wrt (<) es" and "p \<le> length es"
    and "0 < p \<Longrightarrow> es ! (p - 1) < v" and "p < length es \<Longrightarrow> v < es ! p"
  shows "insert_point es v p"
proof -
  have "es ! i < v" if "i < p" for i
  proof (cases "i = p - 1")
    case True
    then show ?thesis using assms(3) that by simp
  next
    case False
    then have "es ! i < es ! (p - 1)"
      using assms(1,2) that by (intro sorted_lt) auto
    then show ?thesis using assms(3) that by simp
  qed
  moreover have "v < es ! i" if "p \<le> i" "i < length es" for i
  proof (cases "i = p")
    case True
    then show ?thesis using assms(4) that by simp
  next
    case False
    then have "es ! p < es ! i"
      using assms(1) that by (intro sorted_lt) auto
    then show ?thesis using assms(4) that by simp
  qed
  ultimately show ?thesis
    using assms(2) by (auto simp: insert_point_def in_set_conv_nth)
qed

lemma intsetSearch_loop_correct:
  assumes "intset_rep is es" and "sorted_wrt (<) es" and "length es < 2 ^ 31"
    and "0 \<le> mn" and "mn \<le> mx + 1" and "mx < int (length es)"
    and "0 < mn \<longrightarrow> es ! (nat mn - 1) < v"
    and "mx + 1 < int (length es) \<longrightarrow> v < es ! nat (mx + 1)"
    and "mx < mn \<longrightarrow> cur \<noteq> v"
  shows "\<exists>mn' mid' cur'. intsetSearch_loop is v mn mx mid cur = Some (mn', mid', cur') \<and>
    (if cur' = v then 0 \<le> mid' \<and> mid' < int (length es) \<and> es ! nat mid' = v
     else 0 \<le> mn' \<and> insert_point es v (nat mn'))"
  using assms
proof (induction "nat (mx - mn + 1)" arbitrary: mn mx mid cur rule: less_induct)
  case less
  show ?case
  proof (cases "mx \<ge> mn")
    case False
    then have "mx = mn - 1"
      using less.prems(5) by simp
    then have "insert_point es v (nat mn)"
      using less.prems(2,4,6,7,8) by (intro insert_pointI) auto
    then show ?thesis
      using False less.prems(4,9) by (subst intsetSearch_loop.simps) simp
  next
    case True
    define c where "c = (mn + mx) div 2"
    have c: "mn \<le> c" "c \<le> mx" "0 \<le> c" "c < int (length es)"
      using True less.prems(4,6) by (auto simp: c_def)
    have get: "intsetGet_pos is c = Some (es ! nat c)"
      using intset_rep_get [OF less.prems(1), of "nat c"] c by simp
    have step: "intsetSearch_loop is v mn mx mid cur =
        (if v > es ! nat c then intsetSearch_loop is v (c + 1) mx c (es ! nat c)
         else if v < es ! nat c then intsetSearch_loop is v mn (c - 1) c (es ! nat c)
         else Some (mn, c, es ! nat c))"
      using True get mid_eq [of mn mx] less.prems(3,4,6)
      by (subst intsetSearch_loop.simps) (simp add: Let_def c_def)
    let ?post = "\<lambda>r. \<exists>mn' mid' cur'. r = Some (mn', mid', cur') \<and>
      (if cur' = v then 0 \<le> mid' \<and> mid' < int (length es) \<and> es ! nat mid' = v
       else 0 \<le> mn' \<and> insert_point es v (nat mn'))"
    have right: "?post (intsetSearch_loop is v (c + 1) mx c (es ! nat c))" if "v > es ! nat c"
    proof (rule less.hyps)
      show "nat (mx - (c + 1) + 1) < nat (mx - mn + 1)" using c by simp
      show "0 < c + 1 \<longrightarrow> es ! (nat (c + 1) - 1) < v"
        using that c by (simp add: nat_add_distrib)
    qed (use less.prems c that in auto)
    have left: "?post (intsetSearch_loop is v mn (c - 1) c (es ! nat c))" if "v < es ! nat c"
    proof (rule less.hyps)
      show "nat (c - 1 - mn + 1) < nat (mx - mn + 1)" using c by simp
    qed (use less.prems c that in auto)
    show ?thesis
      unfolding step using right left c by (cases "v > es ! nat c"; cases "v < es ! nat c") auto
  qed
qed

lemma intsetSearch_correct:
  assumes "intset_rep is es" and "sorted_wrt (<) es" and "length es < 2 ^ 31"
  shows "\<exists>pos. intsetSearch is v = Some (v \<in> set es, pos) \<and>
    (if v \<in> set es then pos < length es \<and> es ! pos = v else insert_point es v pos)"
proof (cases "es = []")
  case True
  then show ?thesis
    using assms(1) by (simp add: intsetSearch_def intset_rep_def insert_point_def)
next
  case False
  let ?mx = "int (length es) - 1"
  have len: "is_length is = length es"
    using assms(1) by (simp add: intset_rep_def)
  have mx: "wrap_signed 32 ((int (length es) - 1) mod 2 ^ 32) = ?mx"
    using False assms(3) by (subst mod_pos_pos_trivial) (auto simp: wrap_signed_32)
  have lst: "intsetGet_pos is ?mx = Some (es ! (length es - 1))"
  proof -
    have "int (length es - 1) = ?mx" using False by (cases es) simp_all
    then show ?thesis
      using intset_rep_get [OF assms(1), of "length es - 1"] False by simp
  qed
  have fst: "intsetGet_pos is 0 = Some (es ! 0)"
    using intset_rep_get [OF assms(1), of 0] False by simp
  consider "v > es ! (length es - 1)" | "v < es ! 0" "\<not> v > es ! (length es - 1)"
    | "es ! 0 \<le> v" "v \<le> es ! (length es - 1)"
    by linarith
  then show ?thesis
  proof cases
    case 1
    then have "insert_point es v (length es)"
      using assms(2) by (intro insert_pointI) auto
    then show ?thesis
      using 1 False len lst mx insert_point_notin [of es v "length es"]
      by (simp add: intsetSearch_def)
  next
    case 2
    then have "insert_point es v 0"
      using assms(2) by (intro insert_pointI) auto
    then show ?thesis
      using 2 False len lst fst mx insert_point_notin [of es v 0]
      by (simp add: intsetSearch_def)
  next
    case 3
    obtain mn mid cur where r: "intsetSearch_loop is v 0 ?mx (-1) (-1) = Some (mn, mid, cur)"
        "if cur = v then 0 \<le> mid \<and> mid < int (length es) \<and> es ! nat mid = v
         else 0 \<le> mn \<and> insert_point es v (nat mn)"
      using intsetSearch_loop_correct [OF assms, of 0 ?mx v "-1" "-1"] False by auto
    show ?thesis
    proof (cases "cur = v")
      case True
      then have mid: "nat mid < length es" "nat (mid mod 2 ^ 32) = nat mid" "es ! nat mid = v"
        using r(2) assms(3) by auto
      then have "v \<in> set es"
        using nth_mem [of "nat mid" es] by simp
      then show ?thesis
        using True 3 False len lst fst mx r mid by (simp add: intsetSearch_def)
    next
      case f: False
      then have mn: "0 \<le> mn" and ip: "insert_point es v (nat mn)"
        using r(2) by auto
      then have "nat mn \<le> length es"
        by (simp add: insert_point_def)
      then have "nat (mn mod 2 ^ 32) = nat mn"
        using mn assms(3) by (simp add: nat_le_iff)
      then show ?thesis
        using f 3 False len lst fst mx r(1) ip insert_point_notin [OF ip]
        by (simp add: intsetSearch_def)
    qed
  qed
qed

section \<open>Insertion and removal\<close>

lemma valueEncoding_fits:
  "enc_ok n \<Longrightarrow> in_int64 v \<Longrightarrow> intsetValueEncoding v \<le> n \<longleftrightarrow> fits n v"
  by (auto simp: enc_ok_def intset_enc_defs intsetValueEncoding_def fits_def in_int64_def)

lemma valueEncoding_ok: "enc_ok (intsetValueEncoding v)"
  by (simp add: intsetValueEncoding_def enc_ok_def)

lemma fits_mono:
  assumes "fits m v" and "m \<le> n"
  shows "fits n v"
proof -
  have "(2::int) ^ (8 * m - 1) \<le> 2 ^ (8 * n - 1)"
    using assms(2) by (intro power_increasing) auto
  then show ?thesis
    using assms(1) unfolding fits_def by linarith
qed

lemma insert_point_sorted:
  "insert_point es v p \<Longrightarrow> sorted_wrt (<) es \<Longrightarrow> sorted_wrt (<) (take p es @ v # drop p es)"
proof -
  assume ip: "insert_point es v p" and so: "sorted_wrt (<) es"
  have "sorted_wrt (<) (take p es @ drop p es)"
    using so by simp
  then show ?thesis
    using ip unfolding sorted_wrt_append insert_point_def by auto
qed

lemma intsetResize_grow:
  assumes "intset_rep is es" and "length es + 1 < 2 ^ 32"
  shows "\<exists>J. length J = is_encoding is \<and>
    intsetResize fill is ((is_length is + 1) mod 2 ^ 32) =
      Some (is\<lparr>is_contents := enc_all (is_encoding is) es @ J\<rparr>)"
proof -
  let ?n = "is_encoding is"
  have n: "0 < ?n" "?n \<le> 8"
    using assms(1) enc_ok_pos by (auto simp: intset_rep_def)
  have "(length es + 1) * ?n \<le> 2 ^ 32 * 8"
    using assms(2) n by (intro mult_le_mono) auto
  moreover obtain J where J: "length J = ?n"
      "mem_resize fill ((length es + 1) * ?n) (enc_all ?n es) = enc_all ?n es @ J"
    using mem_resize_grow [of "enc_all ?n es" "(length es + 1) * ?n" fill] by auto
  ultimately show ?thesis
    using assms by (intro exI [of _ J]) (simp add: intsetResize_def sizeof_intset_def intset_rep_def)
qed

lemma intsetMoveTail_eq:
  assumes "enc_ok (is_encoding is)" and "from \<le> is_length is" and "is_length is < 2 ^ 29"
  shows "intsetMoveTail is from to =
    map_option (\<lambda>c. is\<lparr>is_contents := c\<rparr>)
      (mem_move (is_contents is) (to * is_encoding is) (from * is_encoding is)
        ((is_length is - from) * is_encoding is))"
proof -
  let ?n = "is_encoding is"
  have w: "(if ?n = INTSET_ENC_INT64 then 8 else if ?n = INTSET_ENC_INT32 then 4 else 2) = ?n"
    using assms(1) by (auto simp: enc_ok_def intset_enc_defs)
  have "(int (is_length is) - int from) mod 2 ^ 32 = int (is_length is - from)"
    using assms(2,3) by (simp add: of_nat_diff)
  moreover have "(is_length is - from) * ?n < 2 ^ 29 * 8"
    using assms enc_ok_pos [of ?n] by (intro mult_less_le_imp_less) auto
  ultimately show ?thesis
    unfolding intsetMoveTail_def Let_def w by simp
qed

lemma intset_insert_at:
  assumes r: "intset_rep is es" and p: "p \<le> length es" and len: "length es < 2 ^ 29"
    and v: "fits (is_encoding is) v"
  shows "\<exists>is'. intsetAdd_at fill is p v = Some is' \<and>
    intset_rep is' (take p es @ v # drop p es)"
proof -
  let ?n = "is_encoding is"
  let ?A = "enc_all ?n (take p es)" and ?B = "enc_all ?n (drop p es)"
  have n: "enc_ok ?n" and l: "is_length is = length es" and c: "is_contents is = enc_all ?n es"
    using r by (simp_all add: intset_rep_def)
  obtain J where J: "length J = ?n"
      "intsetResize fill is ((is_length is + 1) mod 2 ^ 32) =
        Some (is\<lparr>is_contents := enc_all ?n es @ J\<rparr>)"
    using intsetResize_grow [OF r] len by auto
  let ?is1 = "is\<lparr>is_contents := enc_all ?n es @ J\<rparr>"
  have AB: "enc_all ?n es = ?A @ ?B"
    using enc_all_simps(3) [of ?n "take p es" "drop p es"] by simp
  have lA: "length ?A = p * ?n" and lB: "length ?B = (length es - p) * ?n"
    using p by simp_all
  obtain X where X: "length X = ?n"
      "(if p < is_length ?is1 then intsetMoveTail ?is1 p (p + 1) else Some ?is1) =
        Some (is\<lparr>is_contents := ?A @ X @ ?B\<rparr>)"
  proof (cases "p < length es")
    case True
    obtain X where X: "length X = ?n"
        "mem_move (?A @ ?B @ J) (length ?A + ?n) (length ?A) (length ?B) = Some (?A @ X @ ?B)"
      using mem_move_up [OF J(1), of ?A ?B] by auto
    have "length ?A + ?n = (p + 1) * ?n"
      using lA by simp
    then have "mem_move (enc_all ?n es @ J) ((p + 1) * ?n) (p * ?n) ((length es - p) * ?n) =
        Some (?A @ X @ ?B)"
      using X(2) unfolding AB lA lB by (simp add: add.commute [of _ ?n])
    then have "intsetMoveTail ?is1 p (p + 1) = Some (is\<lparr>is_contents := ?A @ X @ ?B\<rparr>)"
      using n l len p by (subst intsetMoveTail_eq) simp_all
    then show ?thesis
      using that [OF X(1)] True l by simp
  next
    case False
    then have "?is1 = is\<lparr>is_contents := ?A @ J @ ?B\<rparr>"
      using p by simp
    then show ?thesis
      using that [OF J(1)] False l by simp
  qed
  let ?is3 = "is\<lparr>is_contents := ?A @ le_bytes ?n v @ ?B\<rparr>"
  have "mem_write (?A @ X @ ?B) (p * ?n) (le_bytes ?n v) = Some (?A @ le_bytes ?n v @ ?B)"
    using mem_write_mid [of X "le_bytes ?n v" ?A ?B] X(1) unfolding lA by simp
  then have "intsetSet (is\<lparr>is_contents := ?A @ X @ ?B\<rparr>) (int p) v = Some ?is3"
    using n by (simp add: intsetSet_eq)
  moreover have "intset_rep (?is3\<lparr>is_length := (length es + 1) mod 2 ^ 32\<rparr>) (take p es @ v # drop p es)"
    using r v p len by (auto simp: intset_rep_def dest: in_set_takeD in_set_dropD)
  ultimately show ?thesis
    unfolding intsetAdd_at_def J(2) using X(2) l by simp
qed

lemma intset_delete_at:
  assumes r: "intset_rep is es" and p: "p < length es" and len: "length es < 2 ^ 29"
  shows "\<exists>is'. intsetRemove_at fill is p = Some is' \<and>
    intset_rep is' (take p es @ drop (Suc p) es)"
proof -
  let ?n = "is_encoding is"
  let ?A = "enc_all ?n (take p es)" and ?X = "le_bytes ?n (es ! p)" and ?B = "enc_all ?n (drop (Suc p) es)"
  have n: "enc_ok ?n" and l: "is_length is = length es" and c: "is_contents is = enc_all ?n es"
    using r by (simp_all add: intset_rep_def)
  have "es = take p es @ es ! p # drop (Suc p) es"
    using p by (rule id_take_nth_drop)
  then have AXB: "enc_all ?n es = ?A @ ?X @ ?B"
    using enc_all_simps(2,3) by metis
  have lA: "length ?A = p * ?n" and lB: "length ?B = (length es - Suc p) * ?n"
    using p by simp_all
  have len1: "(int (is_length is) - 1) mod 2 ^ 32 = int (length es - 1)"
    using p len l by (subst mod_pos_pos_trivial) (auto simp: of_nat_diff)
  obtain Y where Y: "length Y = ?n"
      "(if int p < int (length es - 1) then intsetMoveTail is (p + 1) p else Some is) =
        Some (is\<lparr>is_contents := (?A @ ?B) @ Y\<rparr>)"
  proof (cases "p < length es - 1")
    case True
    obtain Y where Y: "length Y = ?n"
        "mem_move (?A @ ?X @ ?B) (length ?A) (length ?A + length ?X) (length ?B) = Some (?A @ ?B @ Y)"
      using mem_move_down [of ?X ?A ?B] by auto
    have "mem_move (enc_all ?n es) (p * ?n) ((p + 1) * ?n) ((length es - (p + 1)) * ?n) =
        Some (?A @ ?B @ Y)"
      using Y(2) unfolding AXB lA lB by (simp add: add.commute [of _ ?n])
    then have "intsetMoveTail is (p + 1) p = Some (is\<lparr>is_contents := (?A @ ?B) @ Y\<rparr>)"
      using n l c len p by (subst intsetMoveTail_eq) simp_all
    then show ?thesis
      using that [OF Y(1)] True by simp
  next
    case False
    then have "?B = []"
      using p by simp
    then have "is = is\<lparr>is_contents := (?A @ ?B) @ ?X\<rparr>"
      using c AXB by simp
    then show ?thesis
      using that [of ?X] False by simp
  qed
  have "(length es - 1) * ?n \<le> 2 ^ 29 * 8"
    using len enc_ok_pos [OF n] by (intro mult_le_mono) auto
  moreover have "length (?A @ ?B) = (length es - 1) * ?n"
    using p by (simp flip: add_mult_distrib)
  ultimately have "intsetResize fill (is\<lparr>is_contents := (?A @ ?B) @ Y\<rparr>) (length es - 1) =
      Some (is\<lparr>is_contents := ?A @ ?B\<rparr>)"
    using Y(1) by (simp add: intsetResize_def sizeof_intset_def mem_resize_shrink
        del: take_enc_all length_enc_all flip: append_assoc)
  moreover have "intset_rep (is\<lparr>is_contents := ?A @ ?B, is_length := length es - 1\<rparr>)
      (take p es @ drop (Suc p) es)"
    using r p by (auto simp: intset_rep_def dest: in_set_takeD in_set_dropD)
  ultimately show ?thesis
    unfolding intsetRemove_at_def Let_def len1 Y(2) by simp
qed

text \<open>The in-place upgrade.  Before the record \<open>k - 1\<close> is moved, the records below \<open>k\<close> are
  still readable at the old width and the others are already in place at the new width.\<close>

definition upgrade_inv ::
  "nat \<Rightarrow> nat \<Rightarrow> nat \<Rightarrow> int list \<Rightarrow> nat \<Rightarrow> bytes \<Rightarrow> bool" where
  "upgrade_inv cur new pre es k b \<longleftrightarrow>
     length b = (length es + 1) * new \<and>
     (\<forall>j < k. mem_read b (j * cur) cur = Some (le_bytes cur (es ! j))) \<and>
     (\<forall>j. k \<le> j \<and> j < length es \<longrightarrow>
        mem_read b ((j + pre) * new) new = Some (le_bytes new (es ! j)))"

lemma upgrade_step:
  assumes inv: "upgrade_inv cur new pre es (Suc k) b" and k: "k < length es" and cn: "cur \<le> new"
    and pre: "pre \<le> 1"
  shows "\<exists>b'. mem_write b ((k + pre) * new) (le_bytes new (es ! k)) = Some b' \<and>
    upgrade_inv cur new pre es k b'"
proof -
  have len: "length b = (length es + 1) * new"
    using inv by (simp add: upgrade_inv_def)
  have "(k + pre) * new + new \<le> (length es + 1) * new"
    using k pre mult_le_mono1 [of "k + pre + 1" "length es + 1" new] by simp
  then obtain b' where b': "mem_write b ((k + pre) * new) (le_bytes new (es ! k)) = Some b'"
    using len by (simp add: mem_write_def)
  have old: "mem_read b' (j * cur) cur = mem_read b (j * cur) cur" if "j < k" for j
  proof (rule mem_read_write_before [OF b'])
    have "Suc j * cur \<le> (k + pre) * new"
      using that cn by (intro mult_le_mono) auto
    then show "j * cur + cur \<le> (k + pre) * new" by simp
  qed
  have new: "mem_read b' ((j + pre) * new) new = Some (le_bytes new (es ! j))"
    if "k \<le> j" "j < length es" for j
  proof (cases "j = k")
    case True
    then show ?thesis
      using mem_read_write_same [OF b'] by simp
  next
    case False
    then have "(k + pre + 1) * new \<le> (j + pre) * new"
      using that by (intro mult_le_mono1) auto
    then have "mem_read b' ((j + pre) * new) new = mem_read b ((j + pre) * new) new"
      by (intro mem_read_write_after [OF b']) simp
    then show ?thesis
      using inv that False by (simp add: upgrade_inv_def)
  qed
  have "upgrade_inv cur new pre es k b'"
    using inv old new mem_write_length [OF b'] by (simp add: upgrade_inv_def)
  then show ?thesis
    using b' by blast
qed

lemma intsetUpgrade_loop_correct:
  assumes "upgrade_inv cur (is_encoding is) pre es k (is_contents is)" and "k \<le> length es"
    and "cur \<le> is_encoding is" and "pre \<le> 1" and "enc_ok cur" and "enc_ok (is_encoding is)"
    and "\<forall>v \<in> set es. fits cur v"
  shows "\<exists>b. intsetUpgrade_loop cur pre k is = Some (is\<lparr>is_contents := b\<rparr>) \<and>
    upgrade_inv cur (is_encoding is) pre es 0 b"
  using assms
proof (induction k arbitrary: "is")
  case 0
  then show ?case
    by (intro exI [of _ "is_contents is"]) simp
next
  case (Suc k)
  have fit: "fits cur (es ! k)"
    using Suc.prems(2,7) by simp
  have "intsetGetEncoded is (int k) cur = Some (es ! k)"
    using Suc.prems(1,5) le_sint_fits [OF Suc.prems(5) fit]
    by (simp add: intsetGetEncoded_eq upgrade_inv_def)
  moreover obtain b where b: "mem_write (is_contents is) ((k + pre) * is_encoding is)
        (le_bytes (is_encoding is) (es ! k)) = Some b"
      "upgrade_inv cur (is_encoding is) pre es k b"
    using upgrade_step [OF Suc.prems(1) _ Suc.prems(3,4)] Suc.prems(2) by auto
  moreover have "intsetSet is (int (k + pre)) (es ! k) = Some (is\<lparr>is_contents := b\<rparr>)"
    using b(1) Suc.prems(6) by (subst intsetSet_eq) simp_all
  ultimately show ?case
    using Suc.IH [of "is\<lparr>is_contents := b\<rparr>"] Suc.prems by simp
qed

lemma upgrade_start:
  assumes "cur \<le> new" and "length b = (length es + 1) * new" and "b = enc_all cur es @ J"
  shows "upgrade_inv cur new pre es (length es) b"
proof -
  have "mem_read b (j * cur) cur = Some (le_bytes cur (es ! j))" if "j < length es" for j
  proof -
    have "Suc j * cur \<le> length es * cur"
      using that by (intro mult_le_mono1) simp
    then have "mem_read b (j * cur) cur = mem_read (enc_all cur es) (j * cur) cur"
      using assms(3) by (simp add: mem_read_append1)
    then show ?thesis
      using that by (simp add: mem_read_enc_all)
  qed
  then show ?thesis
    using assms(2) by (auto simp: upgrade_inv_def)
qed

text \<open>When all records are in place, writing the new value at the free end completes them.\<close>

lemma upgrade_finish:
  assumes inv: "upgrade_inv cur new pre es 0 b" and pre: "pre = (if v < 0 then 1 else 0)"
  shows "mem_write b ((if v < 0 then 0 else length es) * new) (le_bytes new v) =
    Some (enc_all new (if v < 0 then v # es else es @ [v]))"
proof -
  let ?p = "if v < 0 then 0 else length es" and ?es = "if v < 0 then v # es else es @ [v]"
  have len: "length b = (length es + 1) * new"
    using inv by (simp add: upgrade_inv_def)
  have "?p * new + new \<le> (length es + 1) * new"
    by simp
  then obtain b' where b': "mem_write b (?p * new) (le_bytes new v) = Some b'"
    using len by (simp add: mem_write_def)
  have "mem_read b' (i * new) new = Some (le_bytes new (?es ! i))" if i: "i < length ?es" for i
  proof (cases "i = ?p")
    case True
    then show ?thesis
      using mem_read_write_same [OF b'] by (auto simp: nth_append split: if_splits)
  next
    case False
    have rd: "mem_read b ((j + pre) * new) new = Some (le_bytes new (es ! j))" if "j < length es" for j
      using inv that by (simp add: upgrade_inv_def)
    show ?thesis
    proof (cases "v < 0")
      case True
      then obtain j where j: "i = Suc j" "j < length es"
        using False i True by (cases i) auto
      have "mem_read b' (i * new) new = mem_read b (i * new) new"
        using True j by (intro mem_read_write_after [OF b']) simp
      then show ?thesis
        using True j rd [of j] pre by simp
    next
      case nn: False
      then have i': "i < length es"
        using False i by auto
      have "Suc i * new \<le> length es * new"
        using i' by (intro mult_le_mono1) simp
      then have "mem_read b' (i * new) new = mem_read b (i * new) new"
        using nn by (intro mem_read_write_before [OF b']) simp
      then show ?thesis
        using nn i' rd [of i] pre by (simp add: nth_append)
    qed
  qed
  moreover have "length b' = length ?es * new"
    using len mem_write_length [OF b'] by simp
  ultimately have "b' = enc_all new ?es"
    by (intro buffer_by_records) auto
  then show ?thesis
    using b' by simp
qed

lemma intsetUpgradeAndAdd_correct:
  assumes r: "intset_rep is es" and len: "length es < 2 ^ 29" and v: "in_int64 v"
    and up: "intsetValueEncoding v > is_encoding is"
  shows "\<exists>is'. intsetUpgradeAndAdd fill is v = Some is' \<and>
    intset_rep is' (if v < 0 then v # es else es @ [v])"
proof -
  let ?cur = "is_encoding is" and ?new = "intsetValueEncoding v"
  let ?pre = "if v < 0 then 1 else 0 :: nat" and ?es = "if v < 0 then v # es else es @ [v]"
  let ?is0 = "is\<lparr>is_encoding := ?new\<rparr>"
  have cur: "enc_ok ?cur" and l: "is_length is = length es" and c: "is_contents is = enc_all ?cur es"
      and fits: "\<forall>v \<in> set es. fits ?cur v"
    using r by (simp_all add: intset_rep_def)
  have new: "enc_ok ?new" by (rule valueEncoding_ok)
  have sz: "(length es + 1) * ?new \<le> 2 ^ 29 * 8"
    using len enc_ok_pos [OF new] by (intro mult_le_mono) auto
  have "length es * ?cur \<le> (length es + 1) * ?new"
    using up by (intro mult_le_mono) auto
  then obtain J where J: "mem_resize fill ((length es + 1) * ?new) (enc_all ?cur es) = enc_all ?cur es @ J"
    using mem_resize_grow [of "enc_all ?cur es" "(length es + 1) * ?new" fill] by auto
  let ?b = "enc_all ?cur es @ J"
  have lb: "length ?b = (length es + 1) * ?new"
    using length_mem_resize [of fill "(length es + 1) * ?new" "enc_all ?cur es"] unfolding J .
  have res: "intsetResize fill ?is0 ((length es + 1) mod 2 ^ 32) = Some (?is0\<lparr>is_contents := ?b\<rparr>)"
    using sz len c J by (simp add: intsetResize_def sizeof_intset_def)
  obtain b where b: "intsetUpgrade_loop ?cur ?pre (length es) (?is0\<lparr>is_contents := ?b\<rparr>) =
        Some (?is0\<lparr>is_contents := b\<rparr>)" "upgrade_inv ?cur ?new ?pre es 0 b"
  proof -
    have "?pre \<le> 1" by simp
    then show ?thesis
      using intsetUpgrade_loop_correct [of ?cur "?is0\<lparr>is_contents := ?b\<rparr>" ?pre es "length es"]
        upgrade_start [OF _ lb refl, of ?pre] up cur new fits that by (simp del: One_nat_def) blast
  qed
  have "(if ?pre = 1 then intsetSet (?is0\<lparr>is_contents := b\<rparr>) 0 v
         else intsetSet (?is0\<lparr>is_contents := b\<rparr>) (int (length es)) v) =
      Some (?is0\<lparr>is_contents := enc_all ?new ?es\<rparr>)"
    using upgrade_finish [OF b(2) refl] new
      intsetSet_eq [of "?is0\<lparr>is_contents := b\<rparr>" 0] intsetSet_eq [of "?is0\<lparr>is_contents := b\<rparr>" "length es"]
    by (cases "v < 0") simp_all
  then have "intsetUpgradeAndAdd fill is v =
      Some (?is0\<lparr>is_contents := enc_all ?new ?es, is_length := length es + 1\<rparr>)"
    using l len res b(1) by (cases "v < 0") (simp_all add: intsetUpgradeAndAdd_def Let_def)
  moreover have "fits ?new e" if "e \<in> set ?es" for e
    using that fits up fits_mono [of ?cur e ?new] valueEncoding_fits [OF new v]
    by (auto split: if_splits)
  ultimately show ?thesis
    using new by (auto simp: intset_rep_def)
qed

lemma upgrade_extreme:
  assumes r: "intset_rep is es" and v: "in_int64 v" and up: "intsetValueEncoding v > is_encoding is"
  shows "insert_point es v (if v < 0 then 0 else length es)"
proof -
  have e: "enc_ok (is_encoding is)" and fits: "\<forall>e \<in> set es. fits (is_encoding is) e"
    using r by (simp_all add: intset_rep_def)
  have "\<not> fits (is_encoding is) v"
    using valueEncoding_fits [OF e v] up by simp
  then show ?thesis
    using fits by (auto simp: insert_point_def fits_def)
qed

section \<open>Properties\<close>

lemma intsetFind_rep:
  assumes "intset_rep is es" and "sorted_wrt (<) es" and "length es < 2 ^ 31" and "in_int64 v"
  shows "intsetFind is v = Some (v \<in> set es)"
proof -
  have e: "enc_ok (is_encoding is)" and f: "\<forall>e \<in> set es. fits (is_encoding is) e"
    using assms(1) by (simp_all add: intset_rep_def)
  obtain pos where "intsetSearch is v = Some (v \<in> set es, pos)"
    using intsetSearch_correct [OF assms(1-3), of v] by blast
  then show ?thesis
    using valueEncoding_fits [OF e assms(4)] f by (auto simp: intsetFind_def)
qed

lemma set_insert_at: "set (take p es @ v # drop p es) = insert v (set es)"
  by (metis Un_insert_right append_take_drop_id list.simps(15) set_append)

lemma intsetAdd_rep:
  assumes r: "intset_rep is es" and s: "sorted_wrt (<) es" and len: "length es < 2 ^ 29"
    and v: "in_int64 v"
  shows "\<exists>is' es'. intsetAdd fill is v = Some (is', v \<notin> set es) \<and> intset_rep is' es' \<and>
    sorted_wrt (<) es' \<and> set es' = insert v (set es)"
proof (cases "intsetValueEncoding v > is_encoding is")
  case True
  let ?p = "if v < 0 then 0 else length es"
  have ip: "insert_point es v ?p"
    by (rule upgrade_extreme [OF r v True])
  moreover have "(if v < 0 then v # es else es @ [v]) = take ?p es @ v # drop ?p es"
    by simp
  ultimately have "\<exists>is'. intsetUpgradeAndAdd fill is v = Some is' \<and>
      intset_rep is' (take ?p es @ v # drop ?p es)"
    using intsetUpgradeAndAdd_correct [OF r len v True, of fill] by simp
  then show ?thesis
    using True insert_point_sorted [OF ip s] insert_point_notin [OF ip] set_insert_at [of ?p es v]
    by (fastforce simp: intsetAdd_def)
next
  case False
  have fit: "fits (is_encoding is) v"
    using False valueEncoding_fits [OF _ v, of "is_encoding is"] r by (simp add: intset_rep_def)
  obtain pos where pos: "intsetSearch is v = Some (v \<in> set es, pos)"
      "if v \<in> set es then pos < length es \<and> es ! pos = v else insert_point es v pos"
    using intsetSearch_correct [OF r s, of v] len by auto
  show ?thesis
  proof (cases "v \<in> set es")
    case True
    then show ?thesis
      using r s False pos(1) by (auto simp: intsetAdd_def)
  next
    case nin: False
    then have ip: "insert_point es v pos"
      using pos(2) by simp
    then have "pos \<le> length es"
      by (simp add: insert_point_def)
    from intset_insert_at [OF r this len fit, of fill]
    show ?thesis
      using False nin pos(1) insert_point_sorted [OF ip s] set_insert_at [of pos es v]
      by (fastforce simp: intsetAdd_def)
  qed
qed

lemma intsetRemove_rep:
  assumes r: "intset_rep is es" and s: "sorted_wrt (<) es" and len: "length es < 2 ^ 29"
    and v: "in_int64 v"
  shows "\<exists>is' es'. intsetRemove fill is v = Some (is', v \<in> set es) \<and> intset_rep is' es' \<and>
    sorted_wrt (<) es' \<and> set es' = set es - {v}"
proof -
  have e: "enc_ok (is_encoding is)" and f: "\<forall>e \<in> set es. fits (is_encoding is) e"
    using r by (simp_all add: intset_rep_def)
  obtain pos where pos: "intsetSearch is v = Some (v \<in> set es, pos)"
      "if v \<in> set es then pos < length es \<and> es ! pos = v else insert_point es v pos"
    using intsetSearch_correct [OF r s, of v] len by auto
  show ?thesis
  proof (cases "v \<in> set es")
    case False
    then show ?thesis
      using r s pos(1) by (auto simp: intsetRemove_def)
  next
    case True
    then have p: "pos < length es" "es ! pos = v"
      using pos(2) by auto
    let ?es = "take pos es @ drop (Suc pos) es"
    have es: "es = take pos es @ v # drop (Suc pos) es"
      using id_take_nth_drop [OF p(1)] p(2) by simp
    then have srt: "sorted_wrt (<) (take pos es @ v # drop (Suc pos) es)"
      using s by simp
    then have "sorted_wrt (<) ?es" and nin: "v \<notin> set ?es"
      unfolding sorted_wrt_append by auto
    moreover have "set es = insert v (set ?es)"
      using es by (metis Un_insert_right list.simps(15) set_append)
    moreover have "intsetValueEncoding v \<le> is_encoding is"
      using valueEncoding_fits [OF e v] f True by simp
    ultimately show ?thesis
      using intset_delete_at [OF r p(1) len, of fill] pos(1) True
      by (fastforce simp: intsetRemove_def)
  qed
qed

text \<open>The validation of a serialized set.\<close>

lemma intsetValidate_loop_eq:
  assumes "intset_rep is es" and "i + n \<le> length es" and "length es < 2 ^ 31"
  shows "intsetValidate_loop is i n prev = Some (sorted_wrt (<) (prev # take n (drop i es)))"
  using assms
proof (induction n arbitrary: i prev)
  case 0
  then show ?case by simp
next
  case (Suc n)
  have get: "intsetGet_pos is (wrap_signed 32 (int i)) = Some (es ! i)"
    using Suc.prems intset_rep_get [of "is" es i] by (simp add: wrap_signed_32)
  have "take (Suc n) (drop i es) = es ! i # take n (drop (Suc i) es)"
    using Suc.prems(2) by (simp add: Cons_nth_drop_Suc flip: take_Suc_Cons)
  moreover have "sorted_wrt (<) (prev # e # rest) \<longleftrightarrow> prev < e \<and> sorted_wrt (<) (e # rest)"
    for e :: int and rest
    by auto
  ultimately show ?case
    using Suc.IH [of "Suc i" "es ! i"] Suc.prems get by (simp del: sorted_wrt.simps)
qed

lemma le_uint_nat_bound: "length bs = 4 \<Longrightarrow> nat (le_uint bs) < 2 ^ 32"
  using le_uint_bounds [of bs] by (simp add: nat_less_iff)

lemma intset_blob_inverse:
  "8 \<le> length p \<Longrightarrow> intset_blob (blob_intset p) = p"
proof -
  assume p: "8 \<le> length p"
  have "take 4 (drop 4 p) @ drop 8 p = drop 4 p"
    using append_take_drop_id [of 4 "drop 4 p"] by simp
  then have "take 4 p @ take 4 (drop 4 p) @ drop 8 p = p"
    using append_take_drop_id [of 4 p] by (simp only:)
  then show ?thesis
    using p by (simp add: intset_blob_def blob_intset_def le_bytes_le_uint)
qed

lemma blob_intset_inverse:
  "is_encoding is < 2 ^ 32 \<Longrightarrow> is_length is < 2 ^ 32 \<Longrightarrow> blob_intset (intset_blob is) = is"
  by (simp add: intset_blob_def blob_intset_def le_uint_le_bytes)

lemma intset_blob_ok:
  assumes "intset_ok is" and "length (intset_blob is) < 2 ^ 32"
  shows "blob_intset (intset_blob is) = is"
proof (rule blob_intset_inverse)
  have enc: "2 \<le> is_encoding is" "is_encoding is \<le> 8"
    using assms(1) by (auto simp: intset_ok_def enc_ok_def intset_enc_defs)
  then show "is_encoding is < 2 ^ 32" by simp
  have "is_length is * 2 \<le> is_length is * is_encoding is"
    using enc by (intro mult_le_mono2)
  moreover have "8 + is_length is * is_encoding is < 2 ^ 32"
    using assms by (simp add: intset_ok_def intset_blob_def)
  ultimately show "is_length is < 2 ^ 32" by linarith
qed

lemma sorted_card: "sorted_wrt (<) (es :: int list) \<Longrightarrow> card (set es) = length es"
  by (simp add: distinct_card strict_sorted_iff)

text \<open>A set with a 16-bit and a 64-bit value to be added, for the witnesses.\<close>

definition small_set :: intset where
  "small_set = \<lparr>is_encoding = INTSET_ENC_INT16, is_length = 2, is_contents = [255, 255, 5, 0]\<rparr>"

lemma small_set_elems: "intset_elems small_set = [-1, 5]"
  by (simp add: intset_elems_def small_set_def INTSET_ENC_INT16_def le_sint_def wrap_signed_def
      upt_conv_Cons)

lemma small_set_len: "is_length small_set = 2"
  by (simp add: small_set_def)

lemma small_set_ok: "intset_ok small_set"
  by (simp add: intset_ok_def small_set_elems)
    (simp add: small_set_def enc_ok_def INTSET_ENC_INT16_def)

text \<open>C6. \<open>intsetFind\<close> decides membership.  The binary search terminates, never reads
  outside the buffer, and its answer is exact for every 64-bit value, also for values that
  do not fit the current encoding.\<close>

theorem intsetFind_correct:
  assumes "intset_ok is" and "is_length is < 2 ^ 31" and "in_int64 v"
  shows "intsetFind is v = Some (v \<in> set (intset_elems is))"
proof -
  note r = intset_ok_rep [OF assms(1)]
  have "length (intset_elems is) < 2 ^ 31"
    using assms(2) r by (simp add: intset_rep_def)
  then show ?thesis
    using intsetFind_rep [OF r intset_ok_sorted [OF assms(1)] _ assms(3)] by simp
qed

theorem intsetFind_correct_witness: "intsetFind small_set 5 = Some True"
  using intsetFind_correct [OF small_set_ok, of 5]
  by (simp add: small_set_elems small_set_len in_int64_def)

text \<open>C7. \<open>intsetAdd\<close> refines insertion into a set of integers.  For every well-formed set
  of less than \<open>2 ^ 29\<close> elements and every 64-bit value it performs no access outside the
  (re)allocated buffer, keeps the set well formed (sorted, without duplicates, of the
  announced size), whether the value is inserted by moving the tail or by the in-place
  upgrade to a wider encoding, reports success exactly when the value is new, and counts
  it.\<close>

theorem intsetAdd_refines:
  assumes "intset_ok is" and "is_length is < 2 ^ 29" and "in_int64 v"
  shows "\<exists>is'. intsetAdd fill is v = Some (is', v \<notin> set (intset_elems is)) \<and> intset_ok is' \<and>
    set (intset_elems is') = insert v (set (intset_elems is)) \<and>
    intsetLen is' = card (insert v (set (intset_elems is)))"
proof -
  note r = intset_ok_rep [OF assms(1)]
  have "length (intset_elems is) < 2 ^ 29"
    using assms(2) r by (simp add: intset_rep_def)
  then obtain is' es' where x: "intsetAdd fill is v = Some (is', v \<notin> set (intset_elems is))"
      "intset_rep is' es'" "sorted_wrt (<) es'" "set es' = insert v (set (intset_elems is))"
    using intsetAdd_rep [OF r intset_ok_sorted [OF assms(1)] _ assms(3), of fill] by blast
  have "intsetLen is' = card (set es')"
    using x(2) sorted_card [OF x(3)] by (simp add: intsetLen_def intset_rep_def)
  then show ?thesis
    using x intset_rep_elems [OF x(2)] intset_okI [OF x(2,3)] by auto
qed

theorem intsetAdd_refines_witness:
  "\<exists>is'. intsetAdd (\<lambda>_. 0) small_set (-70000) = Some (is', True) \<and> intset_ok is' \<and>
     set (intset_elems is') = {-70000, -1, 5} \<and> intsetLen is' = 3"
  using intsetAdd_refines [OF small_set_ok, of "-70000" "\<lambda>_. 0"]
  by (simp add: small_set_elems small_set_len in_int64_def numeral_3_eq_3)

text \<open>C8. \<open>intsetRemove\<close> refines deletion from a set of integers, memory safely, keeping
  the set well formed and reporting whether the value was there.\<close>

theorem intsetRemove_refines:
  assumes "intset_ok is" and "is_length is < 2 ^ 29" and "in_int64 v"
  shows "\<exists>is'. intsetRemove fill is v = Some (is', v \<in> set (intset_elems is)) \<and> intset_ok is' \<and>
    set (intset_elems is') = set (intset_elems is) - {v} \<and>
    intsetLen is' = card (set (intset_elems is) - {v})"
proof -
  note r = intset_ok_rep [OF assms(1)]
  have "length (intset_elems is) < 2 ^ 29"
    using assms(2) r by (simp add: intset_rep_def)
  then obtain is' es' where x: "intsetRemove fill is v = Some (is', v \<in> set (intset_elems is))"
      "intset_rep is' es'" "sorted_wrt (<) es'" "set es' = set (intset_elems is) - {v}"
    using intsetRemove_rep [OF r intset_ok_sorted [OF assms(1)] _ assms(3), of fill] by blast
  have "intsetLen is' = card (set es')"
    using x(2) sorted_card [OF x(3)] by (simp add: intsetLen_def intset_rep_def)
  then show ?thesis
    using x intset_rep_elems [OF x(2)] intset_okI [OF x(2,3)] by auto
qed

theorem intsetRemove_refines_witness:
  "\<exists>is'. intsetRemove (\<lambda>_. 0) small_set (-1) = Some (is', True) \<and> intset_ok is' \<and>
     set (intset_elems is') = {5} \<and> intsetLen is' = 1"
  using intsetRemove_refines [OF small_set_ok, of "-1" "\<lambda>_. 0"]
  by (simp add: small_set_elems small_set_len in_int64_def insert_Diff_if)





end
