(* ===== verification/Dict.thy ===== *)
theory Dict
  imports Redis_Prelude "HOL-Library.Multiset"
begin

text \<open>
  The hash table of \<^verbatim>\<open>dict.c\<close> and \<^verbatim>\<open>dict.h\<close>: two tables of chained buckets, of which
  the second is in use only while the first is being rehashed into it, one bucket at a
  time, by the very operations that use the dictionary.

  A bucket is the list of its entries in chain order; an entry is a key with its value.
  How an entry is laid out in memory (the tagged pointers for dictionaries without values)
  and when it is freed is not modelled.  The callbacks of a \<open>dictType\<close> that matter for the
  contents are fields of a record, so a dictionary can be used with any hash function; the
  global \<open>dict_can_resize\<close> is the argument \<open>cr\<close>.  \<^term>\<open>None\<close> is a failed \<open>assert\<close> or an
  access outside a bucket array.

  \<open>dict_ok\<close> is the invariant, \<open>dict_map\<close> the finite map a dictionary stands for.
\<close>

unbundle bit_operations_syntax

section \<open>Data\<close>

datatype dictResizeEnable = DICT_RESIZE_ENABLE | DICT_RESIZE_AVOID | DICT_RESIZE_FORBID

text \<open>\<open>resizeAllowed\<close> takes the bytes to allocate and the ratio used / size as a pair.\<close>

record ('k, 'v) dictType =
  hashFunction :: "'k \<Rightarrow> 64 word"
  keyDup :: "('k \<Rightarrow> 'k) option"
  valDup :: "('v \<Rightarrow> 'v) option"
  keyCompare :: "('k \<Rightarrow> 'k \<Rightarrow> bool) option"
  resizeAllowed :: "(nat \<Rightarrow> nat \<times> nat \<Rightarrow> bool) option"

type_synonym ('k, 'v) bucket = "('k \<times> 'v) list"

record ('k, 'v) dict =
  d_type :: "('k, 'v) dictType"
  ht_table :: "nat \<Rightarrow> ('k, 'v) bucket list"
  ht_used :: "nat \<Rightarrow> nat"
  ht_size_exp :: "nat \<Rightarrow> int"
  rehashidx :: int
  pauserehash :: nat
  pauseAutoResize :: int

text \<open>A reference to an entry: the table, the bucket, and the position in the chain.\<close>

type_synonym entry_ref = "nat \<times> nat \<times> nat"

definition DICT_HT_INITIAL_EXP :: int where "DICT_HT_INITIAL_EXP = 2"
definition DICT_HT_INITIAL_SIZE :: nat where "DICT_HT_INITIAL_SIZE = 4"
definition HASHTABLE_MIN_FILL :: nat where "HASHTABLE_MIN_FILL = 8"
definition dict_force_resize_ratio :: nat where "dict_force_resize_ratio = 4"
definition sizeof_ptr :: nat where "sizeof_ptr = 8"

definition DICTHT_SIZE :: "int \<Rightarrow> nat" where
  "DICTHT_SIZE e = (if e = -1 then 0 else 2 ^ nat e)"

definition DICTHT_SIZE_MASK :: "int \<Rightarrow> 64 word" where
  "DICTHT_SIZE_MASK e = (if e = -1 then 0 else of_nat (DICTHT_SIZE e) - 1)"

definition dictIsRehashing :: "('k, 'v) dict \<Rightarrow> bool" where
  "dictIsRehashing d \<longleftrightarrow> rehashidx d \<noteq> -1"

definition dictSize :: "('k, 'v) dict \<Rightarrow> nat" where
  "dictSize d = ulong_add (ht_used d 0) (ht_used d 1)"

definition dictHashKey :: "('k, 'v) dict \<Rightarrow> 'k \<Rightarrow> 64 word" where
  "dictHashKey d key = hashFunction (d_type d) key"

text \<open>Comparison of a searched key with a stored one: \<open>key == he_key || cmpFunc(...)\<close>.\<close>

definition dict_key_eq :: "('k, 'v) dict \<Rightarrow> 'k \<Rightarrow> 'k \<Rightarrow> bool" where
  "dict_key_eq d key he_key \<longleftrightarrow>
     key = he_key \<or> (case keyCompare (d_type d) of None \<Rightarrow> key = he_key | Some c \<Rightarrow> c key he_key)"

definition ht_index :: "('k, 'v) dict \<Rightarrow> nat \<Rightarrow> 64 word \<Rightarrow> nat" where
  "ht_index d t h = unat (h AND DICTHT_SIZE_MASK (ht_size_exp d t))"

definition get_bucket :: "('k, 'v) dict \<Rightarrow> nat \<Rightarrow> nat \<Rightarrow> ('k, 'v) bucket option" where
  "get_bucket d t i = (if i < length (ht_table d t) then Some (ht_table d t ! i) else None)"

definition set_bucket ::
  "('k, 'v) dict \<Rightarrow> nat \<Rightarrow> nat \<Rightarrow> ('k, 'v) bucket \<Rightarrow> ('k, 'v) dict option" where
  "set_bucket d t i b =
     (if i < length (ht_table d t)
      then Some (d\<lparr>ht_table := (ht_table d)(t := (ht_table d t)[i := b])\<rparr>) else None)"

section \<open>Creation, resizing\<close>

definition dictReset :: "('k, 'v) dict \<Rightarrow> nat \<Rightarrow> ('k, 'v) dict" where
  "dictReset d t = d\<lparr>ht_table := (ht_table d)(t := []), ht_size_exp := (ht_size_exp d)(t := -1),
     ht_used := (ht_used d)(t := 0)\<rparr>"

definition dictCreate :: "('k, 'v) dictType \<Rightarrow> ('k, 'v) dict" where
  "dictCreate ty = \<lparr>d_type = ty, ht_table = (\<lambda>_. []), ht_used = (\<lambda>_. 0),
     ht_size_exp = (\<lambda>_. -1), rehashidx = -1, pauserehash = 0, pauseAutoResize = 0\<rparr>"

text \<open>The number of significant bits, \<open>64 - __builtin_clzl\<close>.\<close>

fun bit_len :: "nat \<Rightarrow> nat" where
  "bit_len n = (if n = 0 then 0 else Suc (bit_len (n div 2)))"

declare bit_len.simps [simp del]

definition dictNextExp :: "nat \<Rightarrow> int" where
  "dictNextExp sz =
     (if sz \<le> DICT_HT_INITIAL_SIZE then DICT_HT_INITIAL_EXP
      else if sz \<ge> 2 ^ 63 - 1 then 63
      else int (bit_len (sz - 1)))"

text \<open>\<open>try_alloc\<close> says whether \<open>malloc_failed\<close> was passed (\<open>Some ok\<close>, with \<open>ok\<close> the outcome
  of \<open>ztrycalloc\<close>) or not (\<^term>\<open>None\<close>).  The result is the status (\<open>True\<close> for
  \<open>DICT_OK\<close>), the value stored in \<open>malloc_failed\<close>, and the dictionary.\<close>

definition dictResize ::
  "bool option \<Rightarrow> ('k, 'v) dict \<Rightarrow> nat \<Rightarrow> (bool \<times> bool \<times> ('k, 'v) dict) option" where
  "dictResize try_alloc d sz =
     (if dictIsRehashing d then None
      else let new_exp = dictNextExp sz; newsize = DICTHT_SIZE new_exp in
        if newsize < sz \<or> (newsize * sizeof_ptr) mod 2 ^ 64 < newsize then Some (False, False, d)
        else if new_exp = ht_size_exp d 0 then Some (False, False, d)
        else if try_alloc = Some False then Some (False, True, d)
        else let d1 = d\<lparr>ht_size_exp := (ht_size_exp d)(1 := new_exp),
                        ht_used := (ht_used d)(1 := 0),
                        ht_table := (ht_table d)(1 := replicate newsize []), rehashidx := 0\<rparr> in
          if ht_table d1 0 = [] \<or> ht_used d1 0 = 0 then
            Some (True, False,
              (dictReset (d1\<lparr>ht_size_exp := (ht_size_exp d1)(0 := new_exp),
                  ht_used := (ht_used d1)(0 := 0),
                  ht_table := (ht_table d1)(0 := replicate newsize [])\<rparr>) 1)\<lparr>rehashidx := -1\<rparr>)
          else Some (True, False, d1))"

definition dictExpand_gen ::
  "bool option \<Rightarrow> ('k, 'v) dict \<Rightarrow> nat \<Rightarrow> (bool \<times> bool \<times> ('k, 'v) dict) option" where
  "dictExpand_gen try_alloc d sz =
     (if dictIsRehashing d \<or> ht_used d 0 > sz \<or> DICTHT_SIZE (ht_size_exp d 0) \<ge> sz
      then Some (False, False, d) else dictResize try_alloc d sz)"

definition dictExpand :: "('k, 'v) dict \<Rightarrow> nat \<Rightarrow> (bool \<times> ('k, 'v) dict) option" where
  "dictExpand d sz = do { (ok, _, d1) \<leftarrow> dictExpand_gen None d sz; Some (ok, d1) }"

definition dictTryExpand ::
  "bool \<Rightarrow> ('k, 'v) dict \<Rightarrow> nat \<Rightarrow> (bool \<times> ('k, 'v) dict) option" where
  "dictTryExpand alloc_ok d sz = do {
     (_, failed, d1) \<leftarrow> dictExpand_gen (Some alloc_ok) d sz;
     Some (\<not> failed, d1)
   }"

definition dictShrink :: "('k, 'v) dict \<Rightarrow> nat \<Rightarrow> (bool \<times> ('k, 'v) dict) option" where
  "dictShrink d sz =
     (if dictIsRehashing d \<or> ht_used d 0 > sz \<or> DICTHT_SIZE (ht_size_exp d 0) \<le> sz
      then Some (False, d)
      else do { (ok, _, d1) \<leftarrow> dictResize None d sz; Some (ok, d1) })"

definition dictTypeResizeAllowed :: "('k, 'v) dict \<Rightarrow> nat \<Rightarrow> bool" where
  "dictTypeResizeAllowed d sz =
     (case resizeAllowed (d_type d) of
        None \<Rightarrow> True
      | Some f \<Rightarrow> f ((DICTHT_SIZE (dictNextExp sz) * sizeof_ptr) mod 2 ^ 64)
                 (ht_used d 0, DICTHT_SIZE (ht_size_exp d 0)))"

definition dictExpandIfNeeded ::
  "dictResizeEnable \<Rightarrow> ('k, 'v) dict \<Rightarrow> (bool \<times> ('k, 'v) dict) option" where
  "dictExpandIfNeeded cr d =
     (if dictIsRehashing d then Some (True, d)
      else if DICTHT_SIZE (ht_size_exp d 0) = 0 then do {
        (_, d1) \<leftarrow> dictExpand d DICT_HT_INITIAL_SIZE;
        Some (True, d1)
      }
      else if (cr = DICT_RESIZE_ENABLE \<and> ht_used d 0 \<ge> DICTHT_SIZE (ht_size_exp d 0)) \<or>
        (cr \<noteq> DICT_RESIZE_FORBID \<and>
         ht_used d 0 \<ge> (dict_force_resize_ratio * DICTHT_SIZE (ht_size_exp d 0)) mod 2 ^ 64)
      then
        (if dictTypeResizeAllowed d (ulong_inc (ht_used d 0)) then do {
           (_, d1) \<leftarrow> dictExpand d (ulong_inc (ht_used d 0));
           Some (True, d1)
         } else Some (True, d))
      else Some (False, d))"

definition dictExpandIfNeeded_auto ::
  "dictResizeEnable \<Rightarrow> ('k, 'v) dict \<Rightarrow> ('k, 'v) dict option" where
  "dictExpandIfNeeded_auto cr d =
     (if pauseAutoResize d > 0 then Some d
      else do { (_, d1) \<leftarrow> dictExpandIfNeeded cr d; Some d1 })"

definition dictShrinkIfNeeded ::
  "dictResizeEnable \<Rightarrow> ('k, 'v) dict \<Rightarrow> (bool \<times> ('k, 'v) dict) option" where
  "dictShrinkIfNeeded cr d =
     (if dictIsRehashing d then Some (True, d)
      else if DICTHT_SIZE (ht_size_exp d 0) \<le> DICT_HT_INITIAL_SIZE then Some (True, d)
      else if (cr = DICT_RESIZE_ENABLE \<and>
          (ht_used d 0 * HASHTABLE_MIN_FILL) mod 2 ^ 64 \<le> DICTHT_SIZE (ht_size_exp d 0)) \<or>
        (cr \<noteq> DICT_RESIZE_FORBID \<and>
         (ht_used d 0 * HASHTABLE_MIN_FILL * dict_force_resize_ratio) mod 2 ^ 64
           \<le> DICTHT_SIZE (ht_size_exp d 0))
      then
        (if dictTypeResizeAllowed d (ht_used d 0) then do {
           (_, d1) \<leftarrow> dictShrink d (ht_used d 0);
           Some (True, d1)
         } else Some (True, d))
      else Some (False, d))"

definition dictShrinkIfNeeded_auto ::
  "dictResizeEnable \<Rightarrow> ('k, 'v) dict \<Rightarrow> ('k, 'v) dict option" where
  "dictShrinkIfNeeded_auto cr d =
     (if pauseAutoResize d > 0 then Some d
      else do { (_, d1) \<leftarrow> dictShrinkIfNeeded cr d; Some d1 })"

section \<open>Incremental rehashing\<close>

text \<open>The loop over a chain: every entry goes to the head of its bucket in the new table.\<close>

primrec rehashEntries_loop ::
  "nat \<Rightarrow> ('k, 'v) bucket \<Rightarrow> ('k, 'v) dict \<Rightarrow> ('k, 'v) dict option" where
  "rehashEntries_loop idx [] d = Some d"
| "rehashEntries_loop idx (e # es) d = do {
     let h = (if ht_size_exp d 1 > ht_size_exp d 0 then ht_index d 1 (dictHashKey d (fst e))
              else ht_index d 1 (of_nat idx));
     b \<leftarrow> get_bucket d 1 h;
     d1 \<leftarrow> set_bucket d 1 h (e # b);
     rehashEntries_loop idx es
       (d1\<lparr>ht_used := (ht_used d1)(0 := ulong_dec (ht_used d1 0), 1 := ulong_inc (ht_used d1 1))\<rparr>)
   }"

definition rehashEntriesInBucketAtIndex ::
  "('k, 'v) dict \<Rightarrow> nat \<Rightarrow> ('k, 'v) dict option" where
  "rehashEntriesInBucketAtIndex d idx = do {
     b \<leftarrow> get_bucket d 0 idx;
     d1 \<leftarrow> rehashEntries_loop idx b d;
     set_bucket d1 0 idx []
   }"

definition dictCheckRehashingCompleted :: "('k, 'v) dict \<Rightarrow> bool \<times> ('k, 'v) dict" where
  "dictCheckRehashingCompleted d =
     (if ht_used d 0 \<noteq> 0 then (False, d)
      else (True, (dictReset (d\<lparr>ht_table := (ht_table d)(0 := ht_table d 1),
             ht_used := (ht_used d)(0 := ht_used d 1),
             ht_size_exp := (ht_size_exp d)(0 := ht_size_exp d 1)\<rparr>) 1)\<lparr>rehashidx := -1\<rparr>))"

text \<open>The inner loop of \<open>dictRehash\<close>, which skips empty buckets.  The flag of the result
  says that the budget of empty visits ran out (\<open>return 1\<close>).\<close>

function dictRehash_skip ::
  "('k, 'v) dict \<Rightarrow> int \<Rightarrow> (bool \<times> int \<times> ('k, 'v) dict) option" where
  "dictRehash_skip d empty_visits =
     (if rehashidx d < 0 then None
      else case get_bucket d 0 (nat (rehashidx d)) of
        None \<Rightarrow> None
      | Some (e # es) \<Rightarrow> Some (False, empty_visits, d)
      | Some [] \<Rightarrow>
          (if empty_visits - 1 = 0 then Some (True, 0, d\<lparr>rehashidx := rehashidx d + 1\<rparr>)
           else dictRehash_skip (d\<lparr>rehashidx := rehashidx d + 1\<rparr>) (empty_visits - 1)))"
  by pat_completeness auto
termination
  by (relation "measure (\<lambda>(d, ev). length (ht_table d 0) - nat (rehashidx d))")
    (auto simp: get_bucket_def nat_add_distrib split: if_splits)

declare dictRehash_skip.simps [simp del]

primrec dictRehash_loop ::
  "nat \<Rightarrow> ('k, 'v) dict \<Rightarrow> int \<Rightarrow> (bool \<times> ('k, 'v) dict) option" where
  "dictRehash_loop 0 d empty_visits =
     (let (completed, d1) = dictCheckRehashingCompleted d in Some (\<not> completed, d1))"
| "dictRehash_loop (Suc n) d empty_visits =
     (if ht_used d 0 = 0 then
        (let (completed, d1) = dictCheckRehashingCompleted d in Some (\<not> completed, d1))
      else if \<not> int (DICTHT_SIZE (ht_size_exp d 0)) > rehashidx d then None
      else do {
        (stop, ev, d1) \<leftarrow> dictRehash_skip d empty_visits;
        if stop then Some (True, d1)
        else do {
          d2 \<leftarrow> rehashEntriesInBucketAtIndex d1 (nat (rehashidx d1));
          dictRehash_loop n (d2\<lparr>rehashidx := rehashidx d2 + 1\<rparr>) ev
        }
      })"

text \<open>The guard shared by \<open>dictRehash\<close> and \<open>_dictBucketRehash\<close>.\<close>

definition dict_rehash_avoided :: "dictResizeEnable \<Rightarrow> ('k, 'v) dict \<Rightarrow> bool" where
  "dict_rehash_avoided cr d =
     (let s0 = DICTHT_SIZE (ht_size_exp d 0); s1 = DICTHT_SIZE (ht_size_exp d 1) in
      cr = DICT_RESIZE_FORBID \<or> \<not> dictIsRehashing d \<or>
      (cr = DICT_RESIZE_AVOID \<and>
       ((s1 > s0 \<and> s1 < (dict_force_resize_ratio * s0) mod 2 ^ 64) \<or>
        (s1 < s0 \<and> s0 < (HASHTABLE_MIN_FILL * dict_force_resize_ratio * s1) mod 2 ^ 64))))"

text \<open>The result is \<open>True\<close> if there are still keys to move.\<close>

definition dictRehash ::
  "dictResizeEnable \<Rightarrow> ('k, 'v) dict \<Rightarrow> nat \<Rightarrow> (bool \<times> ('k, 'v) dict) option" where
  "dictRehash cr d n =
     (if dict_rehash_avoided cr d then Some (False, d)
      else dictRehash_loop n d (int n * 10))"

definition dictRehashStep ::
  "dictResizeEnable \<Rightarrow> ('k, 'v) dict \<Rightarrow> ('k, 'v) dict option" where
  "dictRehashStep cr d =
     (if pauserehash d = 0 then do { (_, d1) \<leftarrow> dictRehash cr d 1; Some d1 } else Some d)"

definition dictBucketRehash ::
  "dictResizeEnable \<Rightarrow> ('k, 'v) dict \<Rightarrow> nat \<Rightarrow> (bool \<times> ('k, 'v) dict) option" where
  "dictBucketRehash cr d idx =
     (if pauserehash d \<noteq> 0 then Some (False, d)
      else if dict_rehash_avoided cr d then Some (False, d)
      else do {
        d1 \<leftarrow> rehashEntriesInBucketAtIndex d idx;
        Some (True, snd (dictCheckRehashingCompleted d1))
      })"

text \<open>The rehashing done on behalf of a lookup, insertion or deletion of a key whose bucket
  in table 0 is \<open>idx\<close>.\<close>

definition dict_access_rehash ::
  "dictResizeEnable \<Rightarrow> ('k, 'v) dict \<Rightarrow> nat \<Rightarrow> ('k, 'v) dict option" where
  "dict_access_rehash cr d idx =
     (if dictIsRehashing d then
        (if int idx \<ge> rehashidx d then do {
           b \<leftarrow> get_bucket d 0 idx;
           if b \<noteq> [] then do { (_, d1) \<leftarrow> dictBucketRehash cr d idx; Some d1 }
           else dictRehashStep cr d
         } else dictRehashStep cr d)
      else Some d)"

text \<open>\<open>dictRehashMicroseconds\<close>; \<open>clock i\<close> is the elapsed time at the \<open>i\<close>-th reading of the timer.\<close>

partial_function (option) dictRehashMicroseconds_loop ::
  "dictResizeEnable \<Rightarrow> nat \<Rightarrow> (nat \<Rightarrow> nat) \<Rightarrow> nat \<Rightarrow> int \<Rightarrow> ('k, 'v) dict \<Rightarrow>
   (int \<times> ('k, 'v) dict) option" where
  "dictRehashMicroseconds_loop cr us clock i rehashes d = do {
     (more, d1) \<leftarrow> dictRehash cr d 100;
     if more then
       (if clock i \<ge> us then Some (wrap_signed 32 (rehashes + 100), d1)
        else dictRehashMicroseconds_loop cr us clock (Suc i) (wrap_signed 32 (rehashes + 100)) d1)
     else Some (rehashes, d1)
   }"

declare dictRehashMicroseconds_loop.simps [code]

definition dictRehashMicroseconds ::
  "dictResizeEnable \<Rightarrow> ('k, 'v) dict \<Rightarrow> nat \<Rightarrow> (nat \<Rightarrow> nat) \<Rightarrow> (int \<times> ('k, 'v) dict) option" where
  "dictRehashMicroseconds cr d us clock =
     (if pauserehash d > 0 then Some (0, d)
      else dictRehashMicroseconds_loop cr us clock 0 0 d)"

section \<open>Lookup, insertion, deletion\<close>

text \<open>The walk along one chain: the position of the first matching entry.\<close>

primrec chain_find :: "('k \<Rightarrow> bool) \<Rightarrow> ('k, 'v) bucket \<Rightarrow> nat option" where
  "chain_find P [] = None"
| "chain_find P (e # es) = (if P (fst e) then Some 0 else map_option Suc (chain_find P es))"

text \<open>The loop \<open>for (table = 0; table <= 1; table++)\<close> of the lookups; \<open>idx\<close> is the index that
  was computed for table 0 before the rehashing step.\<close>

definition dict_search ::
  "('k, 'v) dict \<Rightarrow> 'k \<Rightarrow> nat \<Rightarrow> entry_ref option option" where
  "dict_search d key idx =
     (let h = dictHashKey d key; i0 = ht_index d 0 h; i1 = ht_index d 1 h;
          in1 = do {
            b \<leftarrow> get_bucket d 1 i1;
            Some (map_option (\<lambda>p. (1, i1, p)) (chain_find (dict_key_eq d key) b)) }
      in if int idx < rehashidx d then in1
         else do {
           b \<leftarrow> get_bucket d 0 i0;
           (case chain_find (dict_key_eq d key) b of
              Some p \<Rightarrow> Some (Some (0, i0, p))
            | None \<Rightarrow> if \<not> dictIsRehashing d then Some None else in1)
         })"

definition dictFind ::
  "dictResizeEnable \<Rightarrow> ('k, 'v) dict \<Rightarrow> 'k \<Rightarrow> (entry_ref option \<times> ('k, 'v) dict) option" where
  "dictFind cr d key =
     (if dictSize d = 0 then Some (None, d)
      else do {
        let idx = ht_index d 0 (dictHashKey d key);
        d1 \<leftarrow> dict_access_rehash cr d idx;
        r \<leftarrow> dict_search d1 key idx;
        Some (r, d1)
      })"

definition dict_entry :: "('k, 'v) dict \<Rightarrow> entry_ref \<Rightarrow> ('k \<times> 'v) option" where
  "dict_entry d r =
     (case r of (t, i, p) \<Rightarrow> do {
        b \<leftarrow> get_bucket d t i;
        if p < length b then Some (b ! p) else None })"

definition dictGetVal :: "('k, 'v) dict \<Rightarrow> entry_ref \<Rightarrow> 'v option" where
  "dictGetVal d r = map_option snd (dict_entry d r)"

definition dictFetchValue ::
  "dictResizeEnable \<Rightarrow> ('k, 'v) dict \<Rightarrow> 'k \<Rightarrow> ('v option \<times> ('k, 'v) dict) option" where
  "dictFetchValue cr d key = do {
     (r, d1) \<leftarrow> dictFind cr d key;
     (case r of
        None \<Rightarrow> Some (None, d1)
      | Some he \<Rightarrow> do { v \<leftarrow> dictGetVal d1 he; Some (Some v, d1) })
   }"

definition dict_dup :: "('a \<Rightarrow> 'a) option \<Rightarrow> 'a \<Rightarrow> 'a" where
  "dict_dup dup x = (case dup of None \<Rightarrow> x | Some f \<Rightarrow> f x)"

definition dictSetVal :: "('k, 'v) dict \<Rightarrow> entry_ref \<Rightarrow> 'v \<Rightarrow> ('k, 'v) dict option" where
  "dictSetVal d r v =
     (case r of (t, i, p) \<Rightarrow> do {
        b \<leftarrow> get_bucket d t i;
        if p < length b
        then set_bucket d t i (b[p := (fst (b ! p), dict_dup (valDup (d_type d)) v)]) else None })"

definition dictSetKey :: "('k, 'v) dict \<Rightarrow> entry_ref \<Rightarrow> 'k \<Rightarrow> ('k, 'v) dict option" where
  "dictSetKey d r key =
     (case r of (t, i, p) \<Rightarrow> do {
        b \<leftarrow> get_bucket d t i;
        if p < length b
        then set_bucket d t i (b[p := (dict_dup (keyDup (d_type d)) key, snd (b ! p))]) else None })"

text \<open>\<open>dictFindPositionForInsert\<close>: \<open>Inl\<close> the existing entry (the code returns \<open>NULL\<close>), or
  \<open>Inr\<close> the bucket where the key is to be inserted.\<close>

definition dictFindPositionForInsert ::
  "dictResizeEnable \<Rightarrow> ('k, 'v) dict \<Rightarrow> 'k \<Rightarrow>
   ((entry_ref + (nat \<times> nat)) \<times> ('k, 'v) dict) option" where
  "dictFindPositionForInsert cr d key = do {
     let idx = ht_index d 0 (dictHashKey d key);
     d1 \<leftarrow> dict_access_rehash cr d idx;
     d2 \<leftarrow> dictExpandIfNeeded_auto cr d1;
     r \<leftarrow> dict_search d2 key idx;
     (case r of
        Some he \<Rightarrow> Some (Inl he, d2)
      | None \<Rightarrow>
          (let t = (if dictIsRehashing d2 then 1 else 0)
           in Some (Inr (t, ht_index d2 t (dictHashKey d2 key)), d2)))
   }"

text \<open>The entry is inserted in front of the chain; its value is not yet set (it is \<open>v0\<close>).\<close>

definition dictInsertAtPosition ::
  "('k, 'v) dict \<Rightarrow> 'k \<Rightarrow> 'v \<Rightarrow> nat \<times> nat \<Rightarrow> (entry_ref \<times> ('k, 'v) dict) option" where
  "dictInsertAtPosition d key v0 position =
     (case position of (t, i) \<Rightarrow>
        (if t \<noteq> (if dictIsRehashing d then 1 else 0) then None
         else do {
           b \<leftarrow> get_bucket d t i;
           d1 \<leftarrow> set_bucket d t i ((key, v0) # b);
           Some ((t, i, 0), d1\<lparr>ht_used := (ht_used d1)(t := ulong_inc (ht_used d1 t))\<rparr>)
         }))"

text \<open>\<open>Inl\<close>: the key exists (the entry is stored through \<open>existing\<close>); \<open>Inr\<close>: the new entry.\<close>

definition dictAddRaw ::
  "dictResizeEnable \<Rightarrow> ('k, 'v) dict \<Rightarrow> 'k \<Rightarrow> 'v \<Rightarrow>
   ((entry_ref + entry_ref) \<times> ('k, 'v) dict) option" where
  "dictAddRaw cr d key v0 = do {
     (pos, d1) \<leftarrow> dictFindPositionForInsert cr d key;
     (case pos of
        Inl he \<Rightarrow> Some (Inl he, d1)
      | Inr position \<Rightarrow> do {
          (he, d2) \<leftarrow> dictInsertAtPosition d1 (dict_dup (keyDup (d_type d1)) key) v0 position;
          Some (Inr he, d2) })
   }"

definition dictAdd ::
  "dictResizeEnable \<Rightarrow> ('k, 'v) dict \<Rightarrow> 'k \<Rightarrow> 'v \<Rightarrow> 'v \<Rightarrow> (bool \<times> ('k, 'v) dict) option" where
  "dictAdd cr d key v0 v = do {
     (r, d1) \<leftarrow> dictAddRaw cr d key v0;
     (case r of
        Inl _ \<Rightarrow> Some (False, d1)
      | Inr he \<Rightarrow> do { d2 \<leftarrow> dictSetVal d1 he v; Some (True, d2) })
   }"

text \<open>\<open>dictReplace\<close> returns whether the key was added from scratch.\<close>

definition dictReplace ::
  "dictResizeEnable \<Rightarrow> ('k, 'v) dict \<Rightarrow> 'k \<Rightarrow> 'v \<Rightarrow> 'v \<Rightarrow> (bool \<times> ('k, 'v) dict) option" where
  "dictReplace cr d key v0 v = do {
     (r, d1) \<leftarrow> dictAddRaw cr d key v0;
     (case r of
        Inr he \<Rightarrow> do { d2 \<leftarrow> dictSetVal d1 he v; Some (True, d2) }
      | Inl existing \<Rightarrow> do { d2 \<leftarrow> dictSetVal d1 existing v; Some (False, d2) })
   }"

definition dictAddOrFind ::
  "dictResizeEnable \<Rightarrow> ('k, 'v) dict \<Rightarrow> 'k \<Rightarrow> 'v \<Rightarrow> (entry_ref \<times> ('k, 'v) dict) option" where
  "dictAddOrFind cr d key v0 = do {
     (r, d1) \<leftarrow> dictAddRaw cr d key v0;
     Some (case r of Inl existing \<Rightarrow> existing | Inr he \<Rightarrow> he, d1)
   }"

text \<open>Unlinking the entry at a position of its chain.\<close>

definition dict_unlink_at ::
  "('k, 'v) dict \<Rightarrow> entry_ref \<Rightarrow> (('k \<times> 'v) \<times> ('k, 'v) dict) option" where
  "dict_unlink_at d r =
     (case r of (t, i, p) \<Rightarrow> do {
        b \<leftarrow> get_bucket d t i;
        if p < length b then do {
          d1 \<leftarrow> set_bucket d t i (take p b @ drop (Suc p) b);
          Some (b ! p, d1\<lparr>ht_used := (ht_used d1)(t := ulong_dec (ht_used d1 t))\<rparr>)
        } else None })"

definition dictGenericDelete ::
  "dictResizeEnable \<Rightarrow> ('k, 'v) dict \<Rightarrow> 'k \<Rightarrow> (('k \<times> 'v) option \<times> ('k, 'v) dict) option" where
  "dictGenericDelete cr d key =
     (if dictSize d = 0 then Some (None, d)
      else do {
        let idx = ht_index d 0 (dictHashKey d key);
        d1 \<leftarrow> dict_access_rehash cr d idx;
        r \<leftarrow> dict_search d1 key idx;
        (case r of
           None \<Rightarrow> Some (None, d1)
         | Some he \<Rightarrow> do {
             (e, d2) \<leftarrow> dict_unlink_at d1 he;
             d3 \<leftarrow> dictShrinkIfNeeded_auto cr d2;
             Some (Some e, d3) })
      })"

definition dictDelete ::
  "dictResizeEnable \<Rightarrow> ('k, 'v) dict \<Rightarrow> 'k \<Rightarrow> (bool \<times> ('k, 'v) dict) option" where
  "dictDelete cr d key = do { (e, d1) \<leftarrow> dictGenericDelete cr d key; Some (e \<noteq> None, d1) }"

definition dictUnlink ::
  "dictResizeEnable \<Rightarrow> ('k, 'v) dict \<Rightarrow> 'k \<Rightarrow> (('k \<times> 'v) option \<times> ('k, 'v) dict) option" where
  "dictUnlink cr d key = dictGenericDelete cr d key"

definition dictTwoPhaseUnlinkFind ::
  "dictResizeEnable \<Rightarrow> ('k, 'v) dict \<Rightarrow> 'k \<Rightarrow> (entry_ref option \<times> ('k, 'v) dict) option" where
  "dictTwoPhaseUnlinkFind cr d key =
     (if dictSize d = 0 then Some (None, d)
      else do {
        d1 \<leftarrow> (if dictIsRehashing d then dictRehashStep cr d else Some d);
        r \<leftarrow> dict_search d1 key (ht_index d1 0 (dictHashKey d1 key));
        (case r of
           None \<Rightarrow> Some (None, d1)
         | Some he \<Rightarrow> Some (Some he, d1\<lparr>pauserehash := pauserehash d1 + 1\<rparr>))
      })"

definition dictTwoPhaseUnlinkFree ::
  "dictResizeEnable \<Rightarrow> ('k, 'v) dict \<Rightarrow> entry_ref option \<Rightarrow> ('k, 'v) dict option" where
  "dictTwoPhaseUnlinkFree cr d r =
     (case r of
        None \<Rightarrow> Some d
      | Some he \<Rightarrow> do {
          (_, d1) \<leftarrow> dict_unlink_at d he;
          d2 \<leftarrow> dictShrinkIfNeeded_auto cr d1;
          Some (d2\<lparr>pauserehash := pauserehash d2 - 1\<rparr>) })"

definition dictEmpty :: "('k, 'v) dict \<Rightarrow> ('k, 'v) dict" where
  "dictEmpty d = (dictReset (dictReset d 0) 1)
     \<lparr>rehashidx := -1, pauserehash := 0, pauseAutoResize := 0\<rparr>"

end
