(* ===== verification/Dict_Invariant.thy ===== *)
theory Dict_Invariant
  imports Dict
begin

text \<open>
  The invariant \<open>dict_ok\<close> of a dictionary and the finite map \<open>dict_map\<close> it stands for, and
  that rehashing a bucket, the incremental rehashing loop, resizing, and the search for a key
  keep both.  \<open>dict_step\<close> is what all the operations that reorganise a dictionary have in
  common; the results are used in the theory \<open>Dict_Map\<close>.
\<close>

declare One_nat_def [simp del]

unbundle bit_operations_syntax

section \<open>The invariant and the abstraction\<close>

definition table_entries :: "('k, 'v) dict \<Rightarrow> nat \<Rightarrow> ('k \<times> 'v) list" where
  "table_entries d t = concat (ht_table d t)"

definition dict_entries :: "('k, 'v) dict \<Rightarrow> ('k \<times> 'v) list" where
  "dict_entries d = table_entries d 0 @ table_entries d 1"

definition dict_map :: "('k, 'v) dict \<Rightarrow> 'k \<Rightarrow> 'v option" where
  "dict_map d = map_of (dict_entries d)"

text \<open>A table: unallocated, or an array of \<open>2 ^ exp\<close> chains, each entry in the chain its hash
  selects.\<close>

definition table_ok :: "('k, 'v) dict \<Rightarrow> nat \<Rightarrow> bool" where
  "table_ok d t \<longleftrightarrow>
     length (ht_table d t) = DICTHT_SIZE (ht_size_exp d t) \<and>
     -1 \<le> ht_size_exp d t \<and> ht_size_exp d t \<le> 63 \<and>
     ht_used d t = length (table_entries d t) \<and>
     (\<forall>i < length (ht_table d t). \<forall>e \<in> set (ht_table d t ! i).
        ht_index d t (dictHashKey d (fst e)) = i)"

definition dict_ok :: "('k, 'v) dict \<Rightarrow> bool" where
  "dict_ok d \<longleftrightarrow>
     table_ok d 0 \<and> table_ok d 1 \<and>
     distinct (map fst (dict_entries d)) \<and> length (dict_entries d) < 2 ^ 64 \<and>
     (if rehashidx d = -1 then ht_size_exp d 1 = -1
      else 0 \<le> rehashidx d \<and> nat (rehashidx d) \<le> DICTHT_SIZE (ht_size_exp d 0) \<and>
        0 \<le> ht_size_exp d 0 \<and> 0 \<le> ht_size_exp d 1 \<and>
        (\<forall>i < nat (rehashidx d). ht_table d 0 ! i = []))"

section \<open>Bucket arrays\<close>

lemma ht_index_mod:
  assumes "0 \<le> ht_size_exp d t"
  shows "ht_index d t h = unat h mod DICTHT_SIZE (ht_size_exp d t)"
proof -
  have "DICTHT_SIZE_MASK (ht_size_exp d t) = mask (nat (ht_size_exp d t))"
    using assms by (simp add: DICTHT_SIZE_MASK_def DICTHT_SIZE_def mask_eq_exp_minus_1)
  then show ?thesis
    using assms
    by (simp add: ht_index_def DICTHT_SIZE_def unsigned_take_bit_eq take_bit_eq_mod [of _ "unat h"]
        flip: take_bit_eq_mask)
qed

lemma DICTHT_SIZE_pos [simp]: "0 \<le> e \<Longrightarrow> 0 < DICTHT_SIZE e"
  by (simp add: DICTHT_SIZE_def)

lemma ht_index_less:
  assumes "table_ok d t" "0 \<le> ht_size_exp d t"
  shows "ht_index d t h < length (ht_table d t)"
  using assms by (simp add: ht_index_mod table_ok_def)

lemma mset_concat_update:
  "i < length bs \<Longrightarrow>
   mset (concat (bs[i := b])) + mset (bs ! i) = mset (concat bs) + mset b"
proof (induction bs arbitrary: i)
  case (Cons a bs)
  then show ?case by (cases i) (auto simp: algebra_simps)
qed simp

lemma set_concat_nth: "e \<in> set (concat bs) \<longleftrightarrow> (\<exists>i < length bs. e \<in> set (bs ! i))"
  by (simp add: set_concat in_set_conv_nth [of _ bs] Bex_def) blast

lemma map_of_eqI:
  assumes "mset xs = mset ys" "distinct (map fst xs)"
  shows "map_of xs = map_of ys"
proof -
  have "distinct (map fst ys)"
    using assms mset_eq_imp_distinct_iff [of "map fst xs" "map fst ys"] by simp
  moreover have "set xs = set ys" by (rule mset_eq_setD) (rule assms)
  ultimately show ?thesis using assms(2) map_of_inject_set by blast
qed

lemma dict_mapI:
  assumes "mset (dict_entries d') = mset (dict_entries d)" "distinct (map fst (dict_entries d))"
  shows "dict_map d' = dict_map d" "distinct (map fst (dict_entries d'))"
    "length (dict_entries d') = length (dict_entries d)"
proof -
  show "distinct (map fst (dict_entries d'))"
    using assms mset_eq_imp_distinct_iff [of "map fst (dict_entries d')" "map fst (dict_entries d)"]
    by simp
  then show "dict_map d' = dict_map d"
    unfolding dict_map_def by (rule map_of_eqI [OF assms(1)])
  show "length (dict_entries d') = length (dict_entries d)"
    by (rule mset_eq_length) (rule assms)
qed

section \<open>Rehashing a bucket\<close>

lemma ht_index_upd [simp]:
  "ht_index (d\<lparr>ht_table := x\<rparr>) t h = ht_index d t h"
  "ht_index (d\<lparr>ht_used := u\<rparr>) t h = ht_index d t h"
  "ht_index (d\<lparr>rehashidx := r\<rparr>) t h = ht_index d t h"
  "ht_index (d\<lparr>pauserehash := p\<rparr>) t h = ht_index d t h"
  by (simp_all add: ht_index_def)

lemma dictHashKey_upd [simp]:
  "dictHashKey (d\<lparr>ht_table := x\<rparr>) k = dictHashKey d k"
  "dictHashKey (d\<lparr>ht_used := u\<rparr>) k = dictHashKey d k"
  "dictHashKey (d\<lparr>ht_size_exp := s\<rparr>) k = dictHashKey d k"
  "dictHashKey (d\<lparr>rehashidx := r\<rparr>) k = dictHashKey d k"
  "dictHashKey (d\<lparr>pauserehash := p\<rparr>) k = dictHashKey d k"
  by (simp_all add: dictHashKey_def)

definition placed :: "('k, 'v) dict \<Rightarrow> nat \<Rightarrow> ('k, 'v) bucket list \<Rightarrow> bool" where
  "placed d t bs \<longleftrightarrow>
     (\<forall>i < length bs. \<forall>e \<in> set (bs ! i). ht_index d t (dictHashKey d (fst e)) = i)"

lemma placed_upd [simp]:
  "placed (d\<lparr>ht_table := x\<rparr>) t bs = placed d t bs"
  "placed (d\<lparr>ht_used := u\<rparr>) t bs = placed d t bs"
  "placed (d\<lparr>rehashidx := r\<rparr>) t bs = placed d t bs"
  "placed (d\<lparr>pauserehash := p\<rparr>) t bs = placed d t bs"
  by (simp_all add: placed_def)

lemma placed_update:
  assumes "placed d t bs" "\<forall>e \<in> set b. ht_index d t (dictHashKey d (fst e)) = i"
  shows "placed d t (bs[i := b])"
  unfolding placed_def
proof (intro allI impI ballI)
  fix j e assume "j < length (bs[i := b])" "e \<in> set (bs[i := b] ! j)"
  then show "ht_index d t (dictHashKey d (fst e)) = j"
    using assms by (cases "j = i") (simp_all add: placed_def)
qed

lemma mset_eq_add_length:
  assumes "mset xs = mset ys + mset zs" shows "length xs = length ys + length zs"
  using arg_cong [OF assms, of size] by simp

lemma table_ok_iff:
  "table_ok d t \<longleftrightarrow>
     length (ht_table d t) = DICTHT_SIZE (ht_size_exp d t) \<and>
     -1 \<le> ht_size_exp d t \<and> ht_size_exp d t \<le> 63 \<and>
     ht_used d t = length (table_entries d t) \<and> placed d t (ht_table d t)"
  by (simp add: table_ok_def placed_def)

text \<open>The index in the new table, computed from the hash or, when shrinking, from the index in
  the old one.\<close>

lemma rehash_index:
  assumes "0 \<le> ht_size_exp d 0" "0 \<le> ht_size_exp d 1"
    "ht_index d 0 (dictHashKey d k) = idx"
  shows "(if ht_size_exp d 1 > ht_size_exp d 0 then ht_index d 1 (dictHashKey d k)
          else ht_index d 1 (of_nat idx)) = ht_index d 1 (dictHashKey d k)"
proof (cases "ht_size_exp d 1 > ht_size_exp d 0")
  case False
  then have "DICTHT_SIZE (ht_size_exp d 1) dvd DICTHT_SIZE (ht_size_exp d 0)"
    using assms by (simp add: DICTHT_SIZE_def le_imp_power_dvd)
  moreover have "unat (of_nat idx :: 64 word) = idx"
    using assms(3) by (auto simp: ht_index_def)
  ultimately show ?thesis
    using False assms by (auto simp: ht_index_mod mod_mod_cancel)
qed simp

lemma rehashEntries_loop_ok:
  assumes "\<forall>e \<in> set es. ht_index d 0 (dictHashKey d (fst e)) = idx"
    and "0 \<le> ht_size_exp d 0" "0 \<le> ht_size_exp d 1"
    and "length (ht_table d 1) = DICTHT_SIZE (ht_size_exp d 1)"
    and "placed d 1 (ht_table d 1)"
    and "length es \<le> ht_used d 0" "ht_used d 0 < 2 ^ 64" "ht_used d 1 + length es < 2 ^ 64"
  shows "\<exists>bs. rehashEntries_loop idx es d =
      Some (d\<lparr>ht_table := (ht_table d)(1 := bs),
        ht_used := (ht_used d)(0 := ht_used d 0 - length es, 1 := ht_used d 1 + length es)\<rparr>) \<and>
      mset (concat bs) = mset (concat (ht_table d 1)) + mset es \<and>
      length bs = length (ht_table d 1) \<and> placed d 1 bs"
  using assms
proof (induction es arbitrary: d)
  case Nil
  then show ?case by (intro exI [of _ "ht_table d 1"]) simp
next
  case (Cons e es)
  define h where "h = ht_index d 1 (dictHashKey d (fst e))"
  define bs where "bs = (ht_table d 1)[h := e # ht_table d 1 ! h]"
  define d1 where "d1 = d\<lparr>ht_table := (ht_table d)(1 := bs),
     ht_used := (ht_used d)(0 := ht_used d 0 - 1, 1 := ht_used d 1 + 1)\<rparr>"
  have h: "h < length (ht_table d 1)"
    using Cons.prems by (simp add: h_def ht_index_mod)
  have step: "rehashEntries_loop idx (e # es) d = rehashEntries_loop idx es d1"
    using h Cons.prems rehash_index [of d "fst e" idx]
    by (simp add: h_def [symmetric] Let_def get_bucket_def set_bucket_def d1_def bs_def)
  have pl: "placed d 1 bs"
    unfolding bs_def
  proof (rule placed_update)
    show "\<forall>e \<in> set (e # ht_table d 1 ! h). ht_index d 1 (dictHashKey d (fst e)) = h"
      using Cons.prems(5) h by (auto simp: placed_def h_def)
  qed (rule Cons.prems(5))
  have ms: "mset (concat bs) = mset (concat (ht_table d 1)) + {#e#}"
    using mset_concat_update [OF h, of "e # ht_table d 1 ! h"] by (simp add: bs_def)
  have "\<exists>bs'. rehashEntries_loop idx es d1 =
      Some (d1\<lparr>ht_table := (ht_table d1)(1 := bs'),
        ht_used := (ht_used d1)(0 := ht_used d1 0 - length es, 1 := ht_used d1 1 + length es)\<rparr>) \<and>
      mset (concat bs') = mset (concat (ht_table d1 1)) + mset es \<and>
      length bs' = length (ht_table d1 1) \<and> placed d1 1 bs'"
  proof (rule Cons.IH [of d1])
    show "placed d1 1 (ht_table d1 1)"
      using pl by (simp add: d1_def)
    show "\<forall>e \<in> set es. ht_index d1 0 (dictHashKey d1 (fst e)) = idx"
      using Cons.prems(1) by (simp add: d1_def ht_index_def dictHashKey_def)
  qed (use Cons.prems(2-4,6-8) in \<open>simp_all add: d1_def bs_def\<close>)
  then obtain bs' where bs': "rehashEntries_loop idx es d1 =
      Some (d1\<lparr>ht_table := (ht_table d1)(1 := bs'),
        ht_used := (ht_used d1)(0 := ht_used d1 0 - length es, 1 := ht_used d1 1 + length es)\<rparr>)"
      "mset (concat bs') = mset (concat (ht_table d1 1)) + mset es"
      "length bs' = length (ht_table d1 1)" "placed d1 1 bs'"
    by blast
  have eq: "d1\<lparr>ht_table := (ht_table d1)(1 := bs'),
        ht_used := (ht_used d1)(0 := ht_used d1 0 - length es, 1 := ht_used d1 1 + length es)\<rparr> =
      d\<lparr>ht_table := (ht_table d)(1 := bs'),
        ht_used := (ht_used d)(0 := ht_used d 0 - length (e # es),
                               1 := ht_used d 1 + length (e # es))\<rparr>"
    by (simp add: d1_def fun_upd_twist Suc_eq_plus1 add_ac)
  show ?case
  proof (intro exI conjI)
    show "rehashEntries_loop idx (e # es) d = Some (d\<lparr>ht_table := (ht_table d)(1 := bs'),
        ht_used := (ht_used d)(0 := ht_used d 0 - length (e # es),
                               1 := ht_used d 1 + length (e # es))\<rparr>)"
      by (simp only: step bs'(1) eq)
    show "mset (concat bs') = mset (concat (ht_table d 1)) + mset (e # es)"
      using bs'(2) ms by (simp add: d1_def)
    show "length bs' = length (ht_table d 1)" "placed d 1 bs'"
      using bs'(3,4) by (simp_all add: d1_def bs_def)
  qed
qed

lemma rehashEntriesInBucketAtIndex_ok:
  assumes ok: "dict_ok d" and re: "dictIsRehashing d" and idx: "idx < length (ht_table d 0)"
  shows "\<exists>bs u0 u1. rehashEntriesInBucketAtIndex d idx =
      Some (d\<lparr>ht_table := (ht_table d)(0 := (ht_table d 0)[idx := []], 1 := bs),
        ht_used := (ht_used d)(0 := u0, 1 := u1)\<rparr>) \<and>
      dict_ok (d\<lparr>ht_table := (ht_table d)(0 := (ht_table d 0)[idx := []], 1 := bs),
        ht_used := (ht_used d)(0 := u0, 1 := u1)\<rparr>) \<and>
      mset (dict_entries (d\<lparr>ht_table := (ht_table d)(0 := (ht_table d 0)[idx := []], 1 := bs),
        ht_used := (ht_used d)(0 := u0, 1 := u1)\<rparr>)) = mset (dict_entries d)"
proof -
  define es where "es = ht_table d 0 ! idx"
  have r: "rehashidx d \<noteq> -1" using re by (simp add: dictIsRehashing_def)
  have t: "table_ok d 0" "table_ok d 1" and e: "0 \<le> ht_size_exp d 0" "0 \<le> ht_size_exp d 1"
    and len: "length (dict_entries d) < 2 ^ 64"
    using ok r by (auto simp: dict_ok_def)
  have ms0: "mset (concat ((ht_table d 0)[idx := []])) + mset es = mset (concat (ht_table d 0))"
    using mset_concat_update [OF idx, of "[]"] by (simp add: es_def)
  have u: "length (concat ((ht_table d 0)[idx := []])) + length es = ht_used d 0"
    using t(1) mset_eq_add_length [OF ms0 [symmetric]] by (simp only: table_ok_def table_entries_def)
  have len': "ht_used d 0 + ht_used d 1 < 2 ^ 64"
    using len t by (simp add: dict_entries_def table_ok_def)
  have "\<exists>bs. rehashEntries_loop idx es d =
      Some (d\<lparr>ht_table := (ht_table d)(1 := bs),
        ht_used := (ht_used d)(0 := ht_used d 0 - length es, 1 := ht_used d 1 + length es)\<rparr>) \<and>
      mset (concat bs) = mset (concat (ht_table d 1)) + mset es \<and>
      length bs = length (ht_table d 1) \<and> placed d 1 bs"
    using t e u len' idx by (intro rehashEntries_loop_ok) (auto simp: table_ok_def es_def placed_def)
  then obtain bs where bs: "rehashEntries_loop idx es d =
      Some (d\<lparr>ht_table := (ht_table d)(1 := bs),
        ht_used := (ht_used d)(0 := ht_used d 0 - length es, 1 := ht_used d 1 + length es)\<rparr>)"
      "mset (concat bs) = mset (concat (ht_table d 1)) + mset es"
      "length bs = length (ht_table d 1)" "placed d 1 bs"
    by blast
  define d' where "d' = d\<lparr>ht_table := (ht_table d)(0 := (ht_table d 0)[idx := []], 1 := bs),
        ht_used := (ht_used d)(0 := ht_used d 0 - length es, 1 := ht_used d 1 + length es)\<rparr>"
  have run: "rehashEntriesInBucketAtIndex d idx = Some d'"
    using bs(1) idx
    by (simp add: rehashEntriesInBucketAtIndex_def get_bucket_def set_bucket_def es_def d'_def
        fun_upd_twist)
  have ms: "mset (dict_entries d') = mset (dict_entries d)"
    using ms0 bs(2) by (simp add: dict_entries_def table_entries_def d'_def)
  have t0: "table_ok d' 0"
    using t(1) u placed_update [of d 0 "ht_table d 0" "[]" idx]
    by (auto simp: table_ok_iff d'_def table_entries_def)
  have "length (concat bs) = length (concat (ht_table d 1)) + length es"
    by (rule mset_eq_add_length) (rule bs(2))
  then have t1: "table_ok d' 1"
    using t(2) bs(3,4) by (auto simp: table_ok_iff d'_def table_entries_def)
  have "ht_table d' 0 ! i = []" if "i < nat (rehashidx d')" for i
    using ok r that idx by (cases "i = idx") (simp_all add: dict_ok_def d'_def)
  then have "dict_ok d'"
    using ok r t0 t1 dict_mapI [OF ms] by (auto simp: dict_ok_def d'_def)
  then show ?thesis
    using run ms unfolding d'_def by blast
qed

section \<open>Incremental rehashing\<close>

text \<open>What a rehashing step keeps: the invariant, the entries, the callbacks and counters; and
  table 0, unless it has been replaced.\<close>

definition dict_step :: "('k, 'v) dict \<Rightarrow> ('k, 'v) dict \<Rightarrow> bool" where
  "dict_step d d' \<longleftrightarrow>
     dict_ok d' \<and> mset (dict_entries d') = mset (dict_entries d) \<and>
     d_type d' = d_type d \<and> pauserehash d' = pauserehash d \<and>
     pauseAutoResize d' = pauseAutoResize d \<and>
     (rehashidx d' \<le> 0 \<or> ht_size_exp d' 0 = ht_size_exp d 0) \<and>
     (0 \<le> ht_size_exp d 0 \<longrightarrow> 0 \<le> ht_size_exp d' 0)"

lemma dict_step_refl [simp]: "dict_ok d \<Longrightarrow> dict_step d d"
  by (simp add: dict_step_def)

lemma dict_step_ok: "dict_step d d' \<Longrightarrow> dict_ok d'"
  by (simp add: dict_step_def)

lemma dict_step_map:
  assumes "dict_step d d'"
  shows "dict_map d' = dict_map d"
proof -
  have "mset (dict_entries d') = mset (dict_entries d)" and d: "distinct (map fst (dict_entries d'))"
    using assms by (simp_all add: dict_step_def dict_ok_def)
  then show ?thesis unfolding dict_map_def by (rule map_of_eqI)
qed

lemma dict_step_length:
  assumes "dict_step d d'"
  shows "length (dict_entries d') = length (dict_entries d)"
proof -
  have "mset (dict_entries d') = mset (dict_entries d)"
    using assms by (simp add: dict_step_def)
  then show ?thesis by (rule mset_eq_length)
qed

lemma dictSize_eq: "dict_ok d \<Longrightarrow> dictSize d = length (dict_entries d)"
  by (simp add: dictSize_def dict_ok_def table_ok_def dict_entries_def)

lemma dict_rehashingD:
  assumes "dict_ok d" "dictIsRehashing d"
  shows "0 \<le> rehashidx d" "nat (rehashidx d) \<le> length (ht_table d 0)"
    "0 \<le> ht_size_exp d 0" "0 \<le> ht_size_exp d 1"
    "\<And>i. i < nat (rehashidx d) \<Longrightarrow> ht_table d 0 ! i = []"
  using assms by (auto simp: dict_ok_def dictIsRehashing_def table_ok_def)

lemma table_ok_empty [simp]:
  assumes "ht_table d t = []" "ht_size_exp d t = -1" "ht_used d t = 0"
  shows "table_ok d t"
  using assms by (simp add: table_ok_def DICTHT_SIZE_def table_entries_def)

lemma dictCheckRehashingCompleted_ok:
  assumes ok: "dict_ok d" and re: "dictIsRehashing d"
  shows "dict_step d (snd (dictCheckRehashingCompleted d))"
    "fst (dictCheckRehashingCompleted d) \<longleftrightarrow> ht_used d 0 = 0"
    "fst (dictCheckRehashingCompleted d) \<longleftrightarrow>
       \<not> dictIsRehashing (snd (dictCheckRehashingCompleted d))"
proof -
  show "dict_step d (snd (dictCheckRehashingCompleted d))"
  proof (cases "ht_used d 0 = 0")
    case True
    define d' where "d' = snd (dictCheckRehashingCompleted d)"
    have f: "ht_table d' 0 = ht_table d 1" "ht_used d' 0 = ht_used d 1"
      "ht_size_exp d' 0 = ht_size_exp d 1" "ht_table d' 1 = []" "ht_used d' 1 = 0"
      "ht_size_exp d' 1 = -1" "d_type d' = d_type d" "rehashidx d' = -1"
      "pauserehash d' = pauserehash d" "pauseAutoResize d' = pauseAutoResize d"
      using True by (simp_all add: d'_def dictCheckRehashingCompleted_def dictReset_def)
    have e0: "table_entries d 0 = []"
      using True ok by (simp add: dict_ok_def table_ok_def)
    have es: "dict_entries d' = dict_entries d"
      using f e0 by (simp add: dict_entries_def table_entries_def)
    have t1: "table_ok d 1" using ok by (simp add: dict_ok_def)
    have "placed d' 0 (ht_table d' 0)"
      using t1 f by (simp add: table_ok_def placed_def ht_index_def dictHashKey_def)
    then have "table_ok d' 0"
      using t1 f by (simp add: table_ok_iff table_entries_def)
    then have "dict_ok d'"
      using ok f es by (simp add: dict_ok_def)
    then show ?thesis
      using f es dict_rehashingD [OF ok re] by (simp add: dict_step_def d'_def [symmetric])
  next
    case False
    then show ?thesis using ok by (simp add: dictCheckRehashingCompleted_def)
  qed
qed (use re in \<open>simp_all add: dictCheckRehashingCompleted_def dictIsRehashing_def dictReset_def\<close>)

lemma dict_ok_rehashidx:
  assumes "dict_ok d" "dictIsRehashing d" "0 \<le> r" "nat r \<le> length (ht_table d 0)"
    "\<And>i. i < nat r \<Longrightarrow> ht_table d 0 ! i = []"
  shows "dict_step d (d\<lparr>rehashidx := r\<rparr>)"
  using assms
  by (simp add: dict_step_def dict_ok_def dictIsRehashing_def table_ok_iff table_entries_def
      dict_entries_def)

lemma dictRehash_skip_ok:
  assumes "dict_ok d" "dictIsRehashing d" "ht_used d 0 \<noteq> 0"
  shows "\<exists>stop ev' r. dictRehash_skip d ev = Some (stop, ev', d\<lparr>rehashidx := r\<rparr>) \<and>
    rehashidx d \<le> r \<and> dict_step d (d\<lparr>rehashidx := r\<rparr>) \<and> (stop \<longrightarrow> rehashidx d < r) \<and>
    (\<not> stop \<longrightarrow> nat r < length (ht_table d 0) \<and> ht_table d 0 ! nat r \<noteq> [])"
  using assms
proof (induction d ev rule: dictRehash_skip.induct)
  case (1 d ev)
  note D = dict_rehashingD [OF 1(2,3)]
  define r where "r = nat (rehashidx d)"
  have lt: "r < length (ht_table d 0)"
  proof (rule ccontr)
    assume "\<not> r < length (ht_table d 0)"
    then have "\<forall>b \<in> set (ht_table d 0). b = []"
      using D(2,5) by (auto simp: in_set_conv_nth r_def)
    then have "table_entries d 0 = []" by (simp add: table_entries_def)
    then show False using 1(2,4) by (simp add: dict_ok_def table_ok_def)
  qed
  then have g: "get_bucket d 0 r = Some (ht_table d 0 ! r)" by (simp add: get_bucket_def)
  show ?case
  proof (cases "ht_table d 0 ! r")
    case (Cons e es)
    then show ?thesis
      using g lt D 1(2) by (subst dictRehash_skip.simps)
        (auto simp: r_def intro!: exI [of _ "rehashidx d"])
  next
    case Nil
    have below: "ht_table d 0 ! i = []" if "i < nat (rehashidx d + 1)" for i
      using that D(1,5) Nil by (cases "i = r") (auto simp: r_def nat_add_distrib)
    have st: "dict_step d (d\<lparr>rehashidx := rehashidx d + 1\<rparr>)"
      using 1(2,3) D lt below by (intro dict_ok_rehashidx) (auto simp: r_def nat_add_distrib)
    show ?thesis
    proof (cases "ev - 1 = 0")
      case True
      then show ?thesis
        using g lt D st Nil by (subst dictRehash_skip.simps)
          (auto simp: r_def intro!: exI [of _ "rehashidx d + 1"])
    next
      case False
      have "\<exists>stop ev' r. dictRehash_skip (d\<lparr>rehashidx := rehashidx d + 1\<rparr>) (ev - 1) =
          Some (stop, ev', d\<lparr>rehashidx := rehashidx d + 1\<rparr>\<lparr>rehashidx := r\<rparr>) \<and>
          rehashidx (d\<lparr>rehashidx := rehashidx d + 1\<rparr>) \<le> r \<and>
          dict_step (d\<lparr>rehashidx := rehashidx d + 1\<rparr>)
            (d\<lparr>rehashidx := rehashidx d + 1\<rparr>\<lparr>rehashidx := r\<rparr>) \<and>
          (stop \<longrightarrow> rehashidx (d\<lparr>rehashidx := rehashidx d + 1\<rparr>) < r) \<and>
          (\<not> stop \<longrightarrow> nat r < length (ht_table (d\<lparr>rehashidx := rehashidx d + 1\<rparr>) 0) \<and>
             ht_table (d\<lparr>rehashidx := rehashidx d + 1\<rparr>) 0 ! nat r \<noteq> [])"
        using D(1) g Nil 1(4) False dict_step_ok [OF st]
        by (intro 1(1)) (auto simp: r_def dictIsRehashing_def)
      then obtain stop ev' r' where *:
        "dictRehash_skip (d\<lparr>rehashidx := rehashidx d + 1\<rparr>) (ev - 1) =
          Some (stop, ev', d\<lparr>rehashidx := r'\<rparr>)" "rehashidx d + 1 \<le> r'"
        "dict_step (d\<lparr>rehashidx := rehashidx d + 1\<rparr>) (d\<lparr>rehashidx := r'\<rparr>)"
        "\<not> stop \<longrightarrow> nat r' < length (ht_table d 0) \<and> ht_table d 0 ! nat r' \<noteq> []"
        by auto
      then have "dictRehash_skip d ev = Some (stop, ev', d\<lparr>rehashidx := r'\<rparr>)"
        using g Nil False D(1) by (subst dictRehash_skip.simps) (simp add: r_def)
      moreover have "dict_step d (d\<lparr>rehashidx := r'\<rparr>)"
        using *(3) by (simp add: dict_step_def dict_entries_def table_entries_def)
      ultimately show ?thesis using * by auto
    qed
  qed
qed

lemma dict_step_trans:
  assumes "dict_step d d1" "ht_size_exp d1 0 = ht_size_exp d 0" "dict_step d1 d2"
  shows "dict_step d d2"
  using assms by (simp add: dict_step_def)

lemma rehashEntriesInBucketAtIndex_step:
  assumes "dict_ok d" "dictIsRehashing d" "idx < length (ht_table d 0)"
  shows "\<exists>d'. rehashEntriesInBucketAtIndex d idx = Some d' \<and> dict_step d d' \<and>
    rehashidx d' = rehashidx d \<and> ht_size_exp d' = ht_size_exp d \<and>
    ht_table d' 0 = (ht_table d 0)[idx := []]"
proof -
  obtain bs u0 u1 where *: "rehashEntriesInBucketAtIndex d idx =
      Some (d\<lparr>ht_table := (ht_table d)(0 := (ht_table d 0)[idx := []], 1 := bs),
        ht_used := (ht_used d)(0 := u0, 1 := u1)\<rparr>)"
    "dict_ok (d\<lparr>ht_table := (ht_table d)(0 := (ht_table d 0)[idx := []], 1 := bs),
        ht_used := (ht_used d)(0 := u0, 1 := u1)\<rparr>)"
    "mset (dict_entries (d\<lparr>ht_table := (ht_table d)(0 := (ht_table d 0)[idx := []], 1 := bs),
        ht_used := (ht_used d)(0 := u0, 1 := u1)\<rparr>)) = mset (dict_entries d)"
    using rehashEntriesInBucketAtIndex_ok [OF assms] by blast
  then show ?thesis by (simp add: dict_step_def)
qed

lemma dictCheckRehashingCompleted_cases:
  assumes "dict_ok d" "dictIsRehashing d"
  shows "\<exists>c d'. dictCheckRehashingCompleted d = (c, d') \<and> dict_step d d' \<and>
    (c \<longleftrightarrow> \<not> dictIsRehashing d') \<and> (c \<longleftrightarrow> ht_used d 0 = 0) \<and> (\<not> c \<longrightarrow> d' = d)"
proof -
  have "\<not> fst (dictCheckRehashingCompleted d) \<longrightarrow> snd (dictCheckRehashingCompleted d) = d"
    by (simp add: dictCheckRehashingCompleted_def)
  then show ?thesis
    using dictCheckRehashingCompleted_ok [OF assms]
    by (intro exI [of _ "fst (dictCheckRehashingCompleted d)"]
        exI [of _ "snd (dictCheckRehashingCompleted d)"]) (simp add: prod_eq_iff)
qed

lemma dictRehash_loop_ok:
  assumes "dict_ok d" "dictIsRehashing d"
  shows "\<exists>more d'. dictRehash_loop n d ev = Some (more, d') \<and> dict_step d d' \<and>
    (more \<longleftrightarrow> dictIsRehashing d') \<and> (n \<noteq> 0 \<longrightarrow> more \<longrightarrow> rehashidx d < rehashidx d') \<and>
    (more \<longrightarrow> rehashidx d \<le> rehashidx d' \<and> ht_size_exp d' = ht_size_exp d)"
  using assms
proof (induction n arbitrary: d ev)
  case 0
  obtain c d' where "dictCheckRehashingCompleted d = (c, d')" "dict_step d d'"
    "c \<longleftrightarrow> \<not> dictIsRehashing d'" "\<not> c \<longrightarrow> d' = d"
    using dictCheckRehashingCompleted_cases [OF 0] by blast
  then show ?case by auto
next
  case (Suc n)
  show ?case
  proof (cases "ht_used d 0 = 0")
    case True
    obtain c d' where "dictCheckRehashingCompleted d = (c, d')" "dict_step d d'"
      "c \<longleftrightarrow> \<not> dictIsRehashing d'" "c \<longleftrightarrow> ht_used d 0 = 0"
      using dictCheckRehashingCompleted_cases [OF Suc.prems] by metis
    then show ?thesis using True by auto
  next
    case False
    obtain stop ev' r where s: "dictRehash_skip d ev = Some (stop, ev', d\<lparr>rehashidx := r\<rparr>)"
      "rehashidx d \<le> r" "dict_step d (d\<lparr>rehashidx := r\<rparr>)" "stop \<longrightarrow> rehashidx d < r"
      "\<not> stop \<longrightarrow> nat r < length (ht_table d 0) \<and> ht_table d 0 ! nat r \<noteq> []"
      using dictRehash_skip_ok [OF Suc.prems False] by blast
    note D = dict_rehashingD [OF Suc.prems]
    have r0: "0 \<le> r" using s(2) D(1) by simp
    have lt: "int (DICTHT_SIZE (ht_size_exp d 0)) > rehashidx d"
    proof (cases "stop")
      case True
      then show ?thesis
        using s(3,4) D(1) by (auto simp: dict_step_def dict_ok_def)
    next
      case False
      then show ?thesis
        using s(2,5) r0 Suc.prems(1) by (auto simp: dict_ok_def table_ok_def)
    qed
    show ?thesis
    proof (cases stop)
      case True
      then show ?thesis
        using s lt False D(1) by (auto simp: dictIsRehashing_def)
    next
      case go: False
      let ?d1 = "d\<lparr>rehashidx := r\<rparr>"
      have re1: "dictIsRehashing ?d1" using r0 by (simp add: dictIsRehashing_def)
      have ok1: "dict_ok ?d1" using s(3) by (rule dict_step_ok)
      have "nat r < length (ht_table ?d1 0)" using s(5) go by simp
      then obtain d2 where d2: "rehashEntriesInBucketAtIndex ?d1 (nat r) = Some d2"
        "dict_step ?d1 d2" "rehashidx d2 = r" "ht_size_exp d2 = ht_size_exp d"
        "ht_table d2 0 = (ht_table d 0)[nat r := []]"
        using rehashEntriesInBucketAtIndex_step [OF ok1 re1] by fastforce
      have "ht_table d2 0 ! i = []" if "i < nat (r + 1)" for i
        using that d2(5) s(5) go r0 dict_rehashingD(5) [OF ok1 re1, of i]
        by (cases "i = nat r") (auto simp: nat_add_distrib)
      then have "dict_step d2 (d2\<lparr>rehashidx := r + 1\<rparr>)"
        using d2 s(5) go r0 dict_step_ok [OF d2(2)]
        by (intro dict_ok_rehashidx) (auto simp: dictIsRehashing_def nat_add_distrib)
      then have st: "dict_step d (d2\<lparr>rehashidx := r + 1\<rparr>)"
        using s(3) d2 by (simp add: dict_step_def)
      have "dict_ok (d2\<lparr>rehashidx := r + 1\<rparr>)" "dictIsRehashing (d2\<lparr>rehashidx := r + 1\<rparr>)"
        using st r0 by (simp_all add: dict_step_def dictIsRehashing_def)
      then obtain more d' where "dictRehash_loop n (d2\<lparr>rehashidx := r + 1\<rparr>) ev' = Some (more, d')"
        "dict_step (d2\<lparr>rehashidx := r + 1\<rparr>) d'" "more \<longleftrightarrow> dictIsRehashing d'"
        "more \<longrightarrow> r + 1 \<le> rehashidx d' \<and> ht_size_exp d' = ht_size_exp d"
        using Suc.IH [of "d2\<lparr>rehashidx := r + 1\<rparr>" ev'] d2(4) by auto
      moreover from this(2) have "dict_step d d'"
        by (rule dict_step_trans [OF st, rotated]) (simp add: d2(4))
      ultimately show ?thesis
        using False lt s(1,2) go d2(1,3) by auto
    qed
  qed
qed

lemma dictRehash_ok:
  assumes "dict_ok d"
  shows "\<exists>more d'. dictRehash cr d n = Some (more, d') \<and> dict_step d d' \<and>
    (more \<and> n \<noteq> 0 \<longrightarrow> rehashidx d < rehashidx d' \<and> ht_size_exp d' = ht_size_exp d) \<and>
    (\<not> dict_rehash_avoided cr d \<longrightarrow> more = dictIsRehashing d')"
proof (cases "dict_rehash_avoided cr d")
  case False
  then have "dictIsRehashing d" by (auto simp: dict_rehash_avoided_def Let_def)
  then show ?thesis
    using dictRehash_loop_ok [OF assms, of n "int n * 10"] False by (auto simp: dictRehash_def)
qed (use assms in \<open>auto simp: dictRehash_def\<close>)

lemma dictRehashStep_ok:
  assumes "dict_ok d" shows "\<exists>d'. dictRehashStep cr d = Some d' \<and> dict_step d d'"
  using dictRehash_ok [OF assms, of cr 1] assms by (auto simp: dictRehashStep_def)

lemma dictBucketRehash_ok:
  assumes "dict_ok d" "idx < length (ht_table d 0)"
  shows "\<exists>b d'. dictBucketRehash cr d idx = Some (b, d') \<and> dict_step d d'"
proof (cases "pauserehash d \<noteq> 0 \<or> dict_rehash_avoided cr d")
  case False
  then have re: "dictIsRehashing d" by (auto simp: dict_rehash_avoided_def Let_def)
  then obtain d1 where d1: "rehashEntriesInBucketAtIndex d idx = Some d1" "dict_step d d1"
    "rehashidx d1 = rehashidx d" "ht_size_exp d1 = ht_size_exp d"
    using rehashEntriesInBucketAtIndex_step [OF assms(1) _ assms(2)] by blast
  have "dict_step d1 (snd (dictCheckRehashingCompleted d1))"
    using re d1(3) dict_step_ok [OF d1(2)]
    by (intro dictCheckRehashingCompleted_ok) (simp_all add: dictIsRehashing_def)
  then have "dict_step d (snd (dictCheckRehashingCompleted d1))"
    by (rule dict_step_trans [OF d1(2), rotated]) (simp add: d1(4))
  then show ?thesis using False d1(1) by (auto simp: dictBucketRehash_def)
qed (use assms in \<open>auto simp: dictBucketRehash_def\<close>)

lemma dict_access_rehash_ok:
  assumes "dict_ok d" "dictIsRehashing d \<longrightarrow> idx < length (ht_table d 0)"
  shows "\<exists>d'. dict_access_rehash cr d idx = Some d' \<and> dict_step d d'"
proof (cases "dictIsRehashing d")
  case True
  then have "get_bucket d 0 idx = Some (ht_table d 0 ! idx)" and l: "idx < length (ht_table d 0)"
    using assms(2) by (simp_all add: get_bucket_def)
  then show ?thesis
    using True dictBucketRehash_ok [OF assms(1) l, of cr] dictRehashStep_ok [OF assms(1), of cr]
    by (auto simp: dict_access_rehash_def)
qed (use assms in \<open>simp add: dict_access_rehash_def\<close>)

lemma dictRehashMicroseconds_loop_ok:
  assumes "dict_ok d"
  shows "\<exists>r d'. dictRehashMicroseconds_loop cr us clock i rehashes d = Some (r, d') \<and> dict_ok d' \<and>
    mset (dict_entries d') = mset (dict_entries d) \<and>
    (cr = DICT_RESIZE_ENABLE \<and> (\<forall>i. clock i < us) \<longrightarrow> \<not> dictIsRehashing d')"
  using assms
proof (induction "nat (int (DICTHT_SIZE (ht_size_exp d 0)) - rehashidx d)"
    arbitrary: d i rehashes rule: less_induct)
  case less
  obtain more d1 where d1: "dictRehash cr d 100 = Some (more, d1)" "dict_step d d1"
    "more \<longrightarrow> rehashidx d < rehashidx d1 \<and> ht_size_exp d1 = ht_size_exp d"
    "\<not> dict_rehash_avoided cr d \<longrightarrow> more = dictIsRehashing d1"
    using dictRehash_ok [OF less.prems, of cr 100] by auto
  have ok1: "dict_ok d1" using d1(2) by (rule dict_step_ok)
  have en: "dict_rehash_avoided cr d \<longleftrightarrow> \<not> dictIsRehashing d" if "cr = DICT_RESIZE_ENABLE"
    using that by (simp add: dict_rehash_avoided_def Let_def)
  show ?case
  proof (cases "more \<and> clock i < us")
    case False
    have nm: "\<not> dictIsRehashing d1" if "cr = DICT_RESIZE_ENABLE" "\<not> more"
    proof (cases "dictIsRehashing d")
      case True
      then show ?thesis using d1(4) en [OF that(1)] that(2) by simp
    next
      case F: False
      then have "d1 = d" using d1(1) en [OF that(1)] by (simp add: dictRehash_def)
      then show ?thesis using F by simp
    qed
    obtain r where "dictRehashMicroseconds_loop cr us clock i rehashes d = Some (r, d1)"
      using d1(1) False by (cases more) (simp_all add: dictRehashMicroseconds_loop.simps [of _ _ _ _ _ d])
    moreover have "mset (dict_entries d1) = mset (dict_entries d)"
      using d1(2) by (simp add: dict_step_def)
    moreover have "\<not> dictIsRehashing d1" if "cr = DICT_RESIZE_ENABLE \<and> (\<forall>i. clock i < us)"
      using that False nm by auto
    ultimately show ?thesis using ok1 by auto
  next
    case True
    then have d1': "rehashidx d < rehashidx d1" "ht_size_exp d1 = ht_size_exp d"
      using d1(3) by auto
    have "rehashidx d1 \<noteq> -1" using d1'(1) less.prems by (auto simp: dict_ok_def split: if_splits)
    then have "nat (rehashidx d1) \<le> DICTHT_SIZE (ht_size_exp d 0)" "0 \<le> rehashidx d1"
      using ok1 d1'(2) by (auto simp: dict_ok_def)
    then have m: "nat (int (DICTHT_SIZE (ht_size_exp d1 0)) - rehashidx d1)
        < nat (int (DICTHT_SIZE (ht_size_exp d 0)) - rehashidx d)"
      using d1' by auto
    have "dictRehashMicroseconds_loop cr us clock i rehashes d =
        dictRehashMicroseconds_loop cr us clock (Suc i) (wrap_signed 32 (rehashes + 100)) d1"
      using d1(1) True by (subst dictRehashMicroseconds_loop.simps) simp
    then show ?thesis
      using less.hyps [OF m ok1, of "Suc i" "wrap_signed 32 (rehashes + 100)"] d1(2)
      by (auto simp: dict_step_def)
  qed
qed

section \<open>Lookup\<close>

text \<open>Keys and values are modelled by their contents, so \<open>keyCompare\<close>, if there is one, is to
  hold of equal keys only, and \<open>keyDup\<close> and \<open>valDup\<close> return copies with the same contents.\<close>

definition dictType_ok :: "('k, 'v) dictType \<Rightarrow> bool" where
  "dictType_ok ty \<longleftrightarrow>
     (case keyCompare ty of None \<Rightarrow> True | Some c \<Rightarrow> \<forall>a b. c a b \<longrightarrow> a = b) \<and>
     (\<forall>k. dict_dup (keyDup ty) k = k) \<and> (\<forall>v. dict_dup (valDup ty) v = v)"

lemma dict_key_eq_iff:
  "dictType_ok (d_type d) \<Longrightarrow> dict_key_eq d a b \<longleftrightarrow> a = b"
  by (auto simp: dict_key_eq_def dictType_ok_def split: option.splits)

lemma chain_find_Some:
  "chain_find P b = Some p \<Longrightarrow> p < length b \<and> P (fst (b ! p))"
  by (induction b arbitrary: p) (auto split: if_splits)

lemma chain_find_None: "chain_find P b = None \<longleftrightarrow> (\<forall>e \<in> set b. \<not> P (fst e))"
  by (induction b) auto

lemma table_lookup:
  assumes "table_ok d t" "0 \<le> ht_size_exp d t"
  shows "k \<in> fst ` set (table_entries d t) \<longleftrightarrow>
    k \<in> fst ` set (ht_table d t ! ht_index d t (dictHashKey d k))"
    (is "?L \<longleftrightarrow> ?R")
proof
  assume ?L
  then obtain e where "e \<in> set (table_entries d t)" "k = fst e" by blast
  then obtain i where "i < length (ht_table d t)" "e \<in> set (ht_table d t ! i)"
    unfolding table_entries_def set_concat_nth by blast
  then show ?R using assms(1) \<open>k = fst e\<close> by (auto simp: table_ok_def)
next
  assume ?R
  then show ?L
    using ht_index_less [OF assms, of "dictHashKey d k"]
    unfolding table_entries_def by (force simp: set_concat_nth simp del: set_concat)
qed

lemma dict_map_None: "dict_map d k = None \<longleftrightarrow>
    k \<notin> fst ` set (table_entries d 0) \<and> k \<notin> fst ` set (table_entries d 1)"
  by (simp add: dict_map_def map_of_eq_None_iff dict_entries_def image_Un)

definition valid_ref :: "('k, 'v) dict \<Rightarrow> entry_ref \<Rightarrow> bool" where
  "valid_ref d r \<longleftrightarrow> (case r of (t, i, p) \<Rightarrow>
     t \<le> 1 \<and> i < length (ht_table d t) \<and> p < length (ht_table d t ! i))"

lemma dict_entry_valid:
  "valid_ref d (t, i, p) \<Longrightarrow> dict_entry d (t, i, p) = Some (ht_table d t ! i ! p)"
  by (simp add: valid_ref_def dict_entry_def get_bucket_def)

lemma valid_ref_map:
  assumes "dict_ok d" "valid_ref d r" "dict_entry d r = Some (k, v)"
  shows "dict_map d k = Some v"
proof -
  obtain t i p where r: "r = (t, i, p)" by (cases r)
  then have "(k, v) \<in> set (table_entries d t)" "t = 0 \<or> t = 1"
    using assms(2,3) unfolding table_entries_def set_concat_nth
    by (auto simp: valid_ref_def dict_entry_valid le_Suc_eq One_nat_def intro!: exI [of _ i])
      (metis nth_mem)+
  then have "(k, v) \<in> set (dict_entries d)" by (auto simp: dict_entries_def)
  then show ?thesis
    using assms(1) by (simp add: dict_map_def dict_ok_def)
qed

lemma table_unallocated:
  "table_ok d t \<Longrightarrow> ht_size_exp d t = -1 \<Longrightarrow> table_entries d t = []"
  by (auto simp: table_ok_def DICTHT_SIZE_def table_entries_def)

lemma dict_search_ok:
  assumes ok: "dict_ok d" and ty: "dictType_ok (d_type d)" and alloc: "0 \<le> ht_size_exp d 0"
    and idx: "rehashidx d \<le> 0 \<or> idx = ht_index d 0 (dictHashKey d key)"
  shows "\<exists>r. dict_search d key idx = Some r \<and>
    (case r of None \<Rightarrow> dict_map d key = None
     | Some he \<Rightarrow> valid_ref d he \<and> map_option fst (dict_entry d he) = Some key)"
proof -
  define i0 where "i0 = ht_index d 0 (dictHashKey d key)"
  define i1 where "i1 = ht_index d 1 (dictHashKey d key)"
  have t0: "table_ok d 0" and t1: "table_ok d 1" using ok by (simp_all add: dict_ok_def)
  have i0: "i0 < length (ht_table d 0)" using ht_index_less [OF t0 alloc] by (simp add: i0_def)
  have i1: "i1 < length (ht_table d 1)" if "dictIsRehashing d"
    using ht_index_less [OF t1] dict_rehashingD(4) [OF ok that] by (simp add: i1_def)
  have in0: "key \<in> fst ` set (table_entries d 0) \<longleftrightarrow> key \<in> fst ` set (ht_table d 0 ! i0)"
    using table_lookup [OF t0 alloc] by (simp add: i0_def)
  have in1: "key \<in> fst ` set (table_entries d 1) \<longleftrightarrow> key \<in> fst ` set (ht_table d 1 ! i1)"
    if "dictIsRehashing d"
    using table_lookup [OF t1] dict_rehashingD(4) [OF ok that] by (simp add: i1_def)
  have no1: "table_entries d 1 = []" if "\<not> dictIsRehashing d"
    using ok that by (intro table_unallocated) (simp_all add: dict_ok_def dictIsRehashing_def)
  have skip: "ht_table d 0 ! i0 = [] \<and> dictIsRehashing d" if "int idx < rehashidx d"
    using that idx dict_rehashingD(5) [OF ok, of i0] by (auto simp: i0_def dictIsRehashing_def)
  have second: "\<exists>r. (do { b \<leftarrow> get_bucket d 1 i1;
        Some (map_option (\<lambda>p. (1, i1, p)) (chain_find (dict_key_eq d key) b)) }) = Some r \<and>
      (case r of None \<Rightarrow> dict_map d key = None
       | Some he \<Rightarrow> valid_ref d he \<and> map_option fst (dict_entry d he) = Some key)"
    if "dictIsRehashing d" "key \<notin> fst ` set (ht_table d 0 ! i0)"
  proof (cases "chain_find (dict_key_eq d key) (ht_table d 1 ! i1)")
    case None
    then have "key \<notin> fst ` set (ht_table d 1 ! i1)"
      by (auto simp: chain_find_None dict_key_eq_iff [OF ty])
    then show ?thesis
      using None i1 in1 that in0 by (simp add: get_bucket_def dict_map_None)
  next
    case (Some p)
    then show ?thesis
      using i1 that chain_find_Some [OF Some]
      by (simp add: get_bucket_def dict_key_eq_iff [OF ty] valid_ref_def dict_entry_def)
  qed
  show ?thesis
  proof (cases "int idx < rehashidx d")
    case True
    then show ?thesis
      using second skip by (simp add: dict_search_def i1_def [symmetric])
  next
    case F: False
    have g: "get_bucket d 0 i0 = Some (ht_table d 0 ! i0)" using i0 by (simp add: get_bucket_def)
    show ?thesis
    proof (cases "chain_find (dict_key_eq d key) (ht_table d 0 ! i0)")
      case None
      then have no0: "key \<notin> fst ` set (ht_table d 0 ! i0)"
        by (auto simp: chain_find_None dict_key_eq_iff [OF ty])
      show ?thesis
      proof (cases "dictIsRehashing d")
        case True
        then show ?thesis
          using F g None second [OF True no0]
          by (simp add: dict_search_def i0_def [symmetric] i1_def [symmetric])
      next
        case False
        then show ?thesis
          using F g None no0 in0 no1
          by (simp add: dict_search_def i0_def [symmetric] dict_map_None)
      qed
    next
      case (Some p)
      then have "dict_search d key idx = Some (Some (0, i0, p))"
        using F g by (simp add: dict_search_def i0_def [symmetric])
      then show ?thesis
        using g i0 chain_find_Some [OF Some]
        by (simp add: dict_key_eq_iff [OF ty] valid_ref_def dict_entry_def)
    qed
  qed
qed

lemma dict_alloc:
  assumes "dict_ok d" "dictSize d \<noteq> 0" shows "0 \<le> ht_size_exp d 0"
proof (rule ccontr)
  assume n: "\<not> 0 \<le> ht_size_exp d 0"
  then have "ht_size_exp d 0 = -1" "rehashidx d = -1"
    using assms(1) by (auto simp: dict_ok_def table_ok_def split: if_splits)
  then have "dict_entries d = []"
    using assms(1) by (simp add: dict_ok_def dict_entries_def table_unallocated)
  then show False using assms by (simp add: dictSize_eq)
qed

lemma dict_access_search:
  assumes ok: "dict_ok d" and ty: "dictType_ok (d_type d)" and alloc: "0 \<le> ht_size_exp d 0"
  shows "\<exists>d' r. dict_access_rehash cr d (ht_index d 0 (dictHashKey d key)) = Some d' \<and>
    dict_search d' key (ht_index d 0 (dictHashKey d key)) = Some r \<and> dict_step d d' \<and>
    (case r of None \<Rightarrow> dict_map d key = None
     | Some he \<Rightarrow> valid_ref d' he \<and> map_option fst (dict_entry d' he) = Some key)"
proof -
  define idx where "idx = ht_index d 0 (dictHashKey d key)"
  have "idx < length (ht_table d 0)"
    using ok alloc unfolding idx_def by (intro ht_index_less) (simp_all add: dict_ok_def)
  then obtain d' where d': "dict_access_rehash cr d idx = Some d'" "dict_step d d'"
    using dict_access_rehash_ok [OF ok, of idx cr] by blast
  have "\<exists>r. dict_search d' key idx = Some r \<and>
    (case r of None \<Rightarrow> dict_map d' key = None
     | Some he \<Rightarrow> valid_ref d' he \<and> map_option fst (dict_entry d' he) = Some key)"
    using d'(2) ty alloc
    by (intro dict_search_ok) (auto simp: dict_step_def idx_def ht_index_def dictHashKey_def)
  then show ?thesis
    using d' unfolding dict_step_map [OF d'(2)] idx_def by blast
qed

lemma dictFind_ok:
  assumes ok: "dict_ok d" and ty: "dictType_ok (d_type d)"
  shows "\<exists>r d'. dictFind cr d key = Some (r, d') \<and> dict_step d d' \<and>
    (case r of None \<Rightarrow> dict_map d key = None
     | Some he \<Rightarrow> \<exists>v. valid_ref d' he \<and> dict_entry d' he = Some (key, v) \<and> dict_map d key = Some v)"
proof (cases "dictSize d = 0")
  case True
  then show ?thesis
    using ok dictSize_eq [OF ok] by (simp add: dictFind_def dict_map_def)
next
  case False
  obtain d' r where *: "dict_access_rehash cr d (ht_index d 0 (dictHashKey d key)) = Some d'"
    "dict_search d' key (ht_index d 0 (dictHashKey d key)) = Some r" "dict_step d d'"
    "case r of None \<Rightarrow> dict_map d key = None
     | Some he \<Rightarrow> valid_ref d' he \<and> map_option fst (dict_entry d' he) = Some key"
    using dict_access_search [OF ok ty dict_alloc [OF ok False]] by blast
  have "dict_map d key = Some v" if "r = Some he" "dict_entry d' he = Some (key, v)" for he v
    using *(3,4) that valid_ref_map [of d' he key v] dict_step_map [OF *(3)]
    by (simp add: dict_step_def)
  then show ?thesis
    using False * by (auto simp: dictFind_def split: option.splits)
qed

section \<open>Resizing\<close>

lemma bit_len_bounds: "n < 2 ^ m \<longleftrightarrow> bit_len n \<le> m"
proof (induction m arbitrary: n)
  case 0
  then show ?case by (subst bit_len.simps) auto
next
  case (Suc m)
  have "n < 2 ^ Suc m \<longleftrightarrow> n div 2 < 2 ^ m" by (simp add: div_less_iff_less_mult mult.commute)
  also have "\<dots> \<longleftrightarrow> bit_len (n div 2) \<le> m" by (rule Suc.IH)
  also have "\<dots> \<longleftrightarrow> bit_len n \<le> Suc m" by (cases "n = 0") (simp_all add: bit_len.simps [of n] bit_len.simps [of 0])
  finally show ?case .
qed

lemma dictNextExp_range: "0 \<le> dictNextExp sz" "dictNextExp sz \<le> 63"
  by (auto simp: dictNextExp_def DICT_HT_INITIAL_EXP_def simp flip: bit_len_bounds [of _ 63])

lemma dictResize_ok:
  assumes ok: "dict_ok d" and nr: "\<not> dictIsRehashing d"
  shows "\<exists>st f d'. dictResize ta d sz = Some (st, f, d') \<and> dict_step d d' \<and>
    (st \<longrightarrow> 0 \<le> ht_size_exp d' 0) \<and> (d' = d \<or> rehashidx d' \<le> 0)"
proof -
  define e where "e = dictNextExp sz"
  define d1 where "d1 = d\<lparr>ht_size_exp := (ht_size_exp d)(1 := e), ht_used := (ht_used d)(1 := 0),
     ht_table := (ht_table d)(1 := replicate (DICTHT_SIZE e) []), rehashidx := 0\<rparr>"
  define d2 where "d2 = (dictReset (d1\<lparr>ht_size_exp := (ht_size_exp d1)(0 := e),
       ht_used := (ht_used d1)(0 := 0),
       ht_table := (ht_table d1)(0 := replicate (DICTHT_SIZE e) [])\<rparr>) 1)\<lparr>rehashidx := -1\<rparr>"
  have e: "0 \<le> e" "e \<le> 63" using dictNextExp_range by (simp_all add: e_def)
  have t0: "table_ok d 0" and t1: "table_ok d 1" using ok by (simp_all add: dict_ok_def)
  have e1: "ht_size_exp d 1 = -1" using ok nr by (simp add: dict_ok_def dictIsRehashing_def)
  have no1: "table_entries d 1 = []" by (rule table_unallocated [OF t1 e1])
  have p: "placed d' t (replicate n [])" for d' :: "('a, 'b) dict" and t n by (simp add: placed_def)
  have "dict_step d d2" if "ht_table d 0 = [] \<or> ht_used d 0 = 0"
  proof -
    have "table_entries d 0 = []" using that t0 by (auto simp: table_ok_def table_entries_def)
    then have "dict_entries d = []" "dict_entries d2 = []"
      using no1 by (simp_all add: dict_entries_def table_entries_def d2_def d1_def dictReset_def)
    moreover have "table_ok d2 0"
      using e by (simp add: table_ok_iff p d2_def d1_def dictReset_def table_entries_def)
    ultimately have "dict_ok d2"
      by (simp add: dict_ok_def) (simp add: d2_def dictReset_def)
    then show ?thesis
      using \<open>dict_entries d = []\<close> \<open>dict_entries d2 = []\<close> e
      by (simp add: dict_step_def) (simp add: d2_def d1_def dictReset_def)
  qed
  moreover have "dict_step d d1" if "\<not> (ht_table d 0 = [] \<or> ht_used d 0 = 0)"
  proof -
    have e0: "0 \<le> ht_size_exp d 0"
      using that t0 by (auto simp: table_ok_def DICTHT_SIZE_def split: if_splits)
    have "table_entries d1 0 = table_entries d 0" "table_entries d1 1 = []"
      by (simp_all add: table_entries_def d1_def)
    then have es: "dict_entries d1 = dict_entries d" using no1 by (simp add: dict_entries_def)
    have "placed d1 0 (ht_table d1 0)"
      using t0 by (simp add: table_ok_def placed_def d1_def ht_index_def)
    then have "table_ok d1 0"
      using t0 by (simp add: table_ok_iff table_entries_def) (simp add: d1_def)
    moreover have "table_ok d1 1"
      using e by (simp add: table_ok_iff table_entries_def p d1_def)
    ultimately have "dict_ok d1"
      using ok e e0 by (simp add: dict_ok_def es) (simp add: d1_def)
    then show ?thesis by (simp add: dict_step_def es) (simp add: d1_def)
  qed
  moreover have "ht_size_exp d2 0 = e" "ht_size_exp d1 0 = ht_size_exp d 0" "rehashidx d1 = 0"
      "rehashidx d2 = -1"
    by (simp_all add: d2_def d1_def dictReset_def)
  moreover have "0 \<le> ht_size_exp d 0" if "ht_table d 0 \<noteq> []"
    using that t0 by (auto simp: table_ok_def DICTHT_SIZE_def split: if_splits)
  moreover have "dictResize ta d sz =
     (if DICTHT_SIZE e < sz \<or> (DICTHT_SIZE e * sizeof_ptr) mod 2 ^ 64 < DICTHT_SIZE e
      then Some (False, False, d)
      else if e = ht_size_exp d 0 then Some (False, False, d)
      else if ta = Some False then Some (False, True, d)
      else if ht_table d 0 = [] \<or> ht_used d 0 = 0 then Some (True, False, d2)
      else Some (True, False, d1))"
    using nr by (simp add: dictResize_def Let_def e_def [symmetric] d2_def)
      (simp add: d1_def)
  ultimately show ?thesis using ok e by (auto split: if_splits)
qed

lemma dictExpand_ok:
  assumes ok: "dict_ok d"
  shows "\<exists>st d'. dictExpand d sz = Some (st, d') \<and> dict_step d d' \<and>
    (st \<longrightarrow> 0 \<le> ht_size_exp d' 0) \<and> (d' = d \<or> rehashidx d' \<le> 0)"
proof (cases "dictIsRehashing d \<or> ht_used d 0 > sz \<or> DICTHT_SIZE (ht_size_exp d 0) \<ge> sz")
  case True
  then show ?thesis using ok by (auto simp: dictExpand_def dictExpand_gen_def)
next
  case False
  then obtain st f d' where "dictResize None d sz = Some (st, f, d')" "dict_step d d'"
    "st \<longrightarrow> 0 \<le> ht_size_exp d' 0" "d' = d \<or> rehashidx d' \<le> 0"
    using dictResize_ok [OF ok] by blast
  then show ?thesis using False by (auto simp: dictExpand_def dictExpand_gen_def)
qed

lemma dictShrink_ok:
  assumes ok: "dict_ok d"
  shows "\<exists>st d'. dictShrink d sz = Some (st, d') \<and> dict_step d d'"
proof (cases "dictIsRehashing d \<or> ht_used d 0 > sz \<or> DICTHT_SIZE (ht_size_exp d 0) \<le> sz")
  case True
  then show ?thesis using ok by (auto simp: dictShrink_def)
next
  case False
  then obtain st f d' where "dictResize None d sz = Some (st, f, d')" "dict_step d d'"
    using dictResize_ok [OF ok] by blast
  then show ?thesis using False by (auto simp: dictShrink_def)
qed

lemma dictExpand_first:
  assumes ok: "dict_ok d" and e: "ht_size_exp d 0 = -1"
  shows "\<exists>d'. dictExpand d DICT_HT_INITIAL_SIZE = Some (True, d') \<and> dict_step d d' \<and>
    0 \<le> ht_size_exp d' 0 \<and> rehashidx d' \<le> 0"
proof -
  have nr: "\<not> dictIsRehashing d" using dict_rehashingD(3) [OF ok] e by auto
  have t0: "table_ok d 0" using ok by (simp add: dict_ok_def)
  have "ht_used d 0 = 0" using table_unallocated [OF t0 e] t0 by (simp add: table_ok_def)
  then have "dictExpand d DICT_HT_INITIAL_SIZE \<noteq> Some (False, d')" for d'
    using nr e by (auto simp: dictExpand_def dictExpand_gen_def dictResize_def Let_def
        dictNextExp_def DICT_HT_INITIAL_SIZE_def DICT_HT_INITIAL_EXP_def DICTHT_SIZE_def
        sizeof_ptr_def)
  moreover obtain st d' where "dictExpand d DICT_HT_INITIAL_SIZE = Some (st, d')" "dict_step d d'"
    "st \<longrightarrow> 0 \<le> ht_size_exp d' 0" "d' = d \<or> rehashidx d' \<le> 0"
    using dictExpand_ok [OF ok] by blast
  ultimately show ?thesis using nr e by (cases st) (auto simp: dictIsRehashing_def)
qed

lemma dictExpandIfNeeded_auto_ok:
  assumes ok: "dict_ok d" and a: "pauseAutoResize d > 0 \<longrightarrow> 0 \<le> ht_size_exp d 0"
  shows "\<exists>d'. dictExpandIfNeeded_auto cr d = Some d' \<and> dict_step d d' \<and>
    (d' = d \<or> rehashidx d' \<le> 0) \<and> 0 \<le> ht_size_exp d' 0"
proof (cases "0 \<le> ht_size_exp d 0")
  case True
  then have ne: "DICTHT_SIZE (ht_size_exp d 0) \<noteq> 0" by simp
  obtain st d' where d': "dictExpand d (ulong_inc (ht_used d 0)) = Some (st, d')"
    "dict_step d d'" "d' = d \<or> rehashidx d' \<le> 0"
    using dictExpand_ok [OF ok] by blast
  have "0 \<le> ht_size_exp d' 0"
    using d'(2) True by (simp add: dict_step_def)
  then show ?thesis
    using d' ok True unfolding dictExpandIfNeeded_auto_def dictExpandIfNeeded_def if_not_P [OF ne]
    by simp
next
  case False
  then have e: "ht_size_exp d 0 = -1" using ok by (auto simp: dict_ok_def table_ok_def)
  then have "\<not> dictIsRehashing d" using dict_rehashingD(3) [OF ok] by auto
  then show ?thesis
    using dictExpand_first [OF ok e] False a e
    by (auto simp: dictExpandIfNeeded_auto_def dictExpandIfNeeded_def DICTHT_SIZE_def)
qed

lemma dictShrinkIfNeeded_auto_ok:
  assumes ok: "dict_ok d"
  shows "\<exists>d'. dictShrinkIfNeeded_auto cr d = Some d' \<and> dict_step d d'"
  using ok dictShrink_ok [OF ok, of "ht_used d 0"]
  by (auto simp: dictShrinkIfNeeded_auto_def dictShrinkIfNeeded_def)

end
