(* ===== verification/Map_Store.thy ===== *)
theory Map_Store
  imports Main "HOL-Library.Monad_Syntax"
begin

text \<open>
  What the hash commands rely on when they use a container: a finite map whose operations may also
  change the representation and may need room.  The loops of \<open>HSET\<close> and \<open>HDEL\<close> of \<^verbatim>\<open>t_hash.c\<close> are
  proved once against this interface; dictionaries and hash objects provide it.
\<close>

text \<open>The loop of \<open>hsetCommand\<close> over the field/value arguments, counting the new fields
  (\<open>created += !hashTypeSet(...)\<close>; \<open>put\<close> says whether the field is new).\<close>

primrec hset_fields ::
  "('s \<Rightarrow> 'k \<Rightarrow> 'v \<Rightarrow> (bool \<times> 's) option) \<Rightarrow> ('k \<times> 'v) list \<Rightarrow> int \<Rightarrow> 's \<Rightarrow> (int \<times> 's) option" where
  "hset_fields put [] created s = Some (created, s)"
| "hset_fields put (fv # args) created s = do {
     (new, s1) \<leftarrow> put s (fst fv) (snd fv);
     hset_fields put args (created + (if new then 1 else 0)) s1
   }"

text \<open>The loop of \<open>hdelCommand\<close>: the number of deleted fields, and \<open>keyremoved\<close>, set when the hash
  has become empty; the loop stops there.\<close>

primrec hdel_fields ::
  "('s \<Rightarrow> 'k \<Rightarrow> (bool \<times> 's) option) \<Rightarrow> ('s \<Rightarrow> (nat \<times> 's) option) \<Rightarrow> 'k list \<Rightarrow> int \<Rightarrow> 's \<Rightarrow>
    (int \<times> bool \<times> 's) option" where
  "hdel_fields del len [] deleted s = Some (deleted, False, s)"
| "hdel_fields del len (k # ks) deleted s = do {
     (hit, s1) \<leftarrow> del s k;
     if hit then do {
       (n, s2) \<leftarrow> len s1;
       if n = 0 then Some (deleted + 1, True, s2) else hdel_fields del len ks (deleted + 1) s2
     }
     else hdel_fields del len ks deleted s1
   }"

text \<open>\<open>rep s m\<close>: the state stands for the map; \<open>room s args\<close>: it has room for these updates, one after
  the other.\<close>

locale map_store =
  fixes rep :: "'s \<Rightarrow> ('k \<Rightarrow> 'v option) \<Rightarrow> bool" and room :: "'s \<Rightarrow> ('k \<times> 'v) list \<Rightarrow> bool"
    and get :: "'s \<Rightarrow> 'k \<Rightarrow> ('v option \<times> 's) option"
    and put :: "'s \<Rightarrow> 'k \<Rightarrow> 'v \<Rightarrow> (bool \<times> 's) option"
    and del :: "'s \<Rightarrow> 'k \<Rightarrow> (bool \<times> 's) option"
    and len :: "'s \<Rightarrow> (nat \<times> 's) option"
  assumes rep_finite: "rep s m \<Longrightarrow> finite (dom m)"
    and get_law: "rep s m \<Longrightarrow> \<exists>s'. get s k = Some (m k, s') \<and> rep s' m"
    and put_law: "rep s m \<Longrightarrow> room s ((k, v) # args) \<Longrightarrow>
      \<exists>s'. put s k v = Some (m k = None, s') \<and> rep s' (m(k \<mapsto> v)) \<and> room s' args"
    and del_law: "rep s m \<Longrightarrow> \<exists>s'. del s k = Some (m k \<noteq> None, s') \<and> rep s' (m(k := None))"
    and len_law: "rep s m \<Longrightarrow> \<exists>s'. len s = Some (card (dom m), s') \<and> rep s' m"

context map_store
begin

lemma put_card:
  assumes "rep s m"
  shows "card (dom (m(k \<mapsto> v))) = card (dom m) + (if m k = None then 1 else 0)"
  using rep_finite [OF assms] by (auto simp: card_insert_if insert_absorb domIff)

lemma hset_fields_count:
  assumes "rep s m" "room s args"
  shows "\<exists>s'. hset_fields put args created s =
      Some (created + int (card (dom (m ++ map_of (rev args)))) - int (card (dom m)), s') \<and>
    rep s' (m ++ map_of (rev args))"
  using assms
proof (induction args arbitrary: s m created)
  case (Cons fv args)
  obtain k v where fv: "fv = (k, v)" by (cases fv)
  obtain s1 where s1: "put s k v = Some (m k = None, s1)" "rep s1 (m(k \<mapsto> v))" "room s1 args"
    using put_law [OF Cons.prems(1), of k v args] Cons.prems(2) fv by auto
  have m: "(m(k \<mapsto> v)) ++ map_of (rev args) = m ++ map_of (rev (fv # args))" by (simp add: fv)
  have c: "card (dom (m(k \<mapsto> v))) = card (dom m) + (if m k = None then 1 else 0)"
    by (rule put_card [OF Cons.prems(1)])
  obtain s' where s': "hset_fields put args (created + (if m k = None then 1 else 0)) s1 =
      Some (created + (if m k = None then 1 else 0) + int (card (dom (m ++ map_of (rev (fv # args))))) -
        int (card (dom (m(k \<mapsto> v)))), s')" "rep s' (m ++ map_of (rev (fv # args)))"
    using Cons.IH [OF s1(2,3), of "created + (if m k = None then 1 else 0)"] unfolding m by blast
  then show ?case using s1(1) c fv by (auto simp: algebra_simps)
qed simp

lemma hdel_fields_count:
  assumes "rep s m"
  shows "\<exists>s'. hdel_fields del len ks deleted s =
      Some (deleted + int (card (dom m \<inter> set ks)), dom m \<noteq> {} \<and> dom m \<subseteq> set ks, s') \<and>
    rep s' (m |` (- set ks))"
  using assms
proof (induction ks arbitrary: s m deleted)
  case (Cons k ks)
  define m1 where "m1 = m(k := None)"
  obtain s1 where s1: "del s k = Some (m k \<noteq> None, s1)" "rep s1 m1"
    using del_law [OF Cons.prems] unfolding m1_def by blast
  have r: "m |` (- set (k # ks)) = m1 |` (- set ks)" by (auto simp: restrict_map_def m1_def)
  have dom1: "dom m1 = dom m - {k}" by (auto simp: m1_def)
  have fin: "finite (dom m1)" by (rule rep_finite [OF s1(2)])
  show ?case
  proof (cases "m k = None")
    case True
    then have "k \<notin> dom m" by auto
    then have "dom m \<inter> set (k # ks) = dom m1 \<inter> set ks" "dom m \<subseteq> set (k # ks) \<longleftrightarrow> dom m1 \<subseteq> set ks" "dom m = dom m1"
      using dom1 by auto
    then show ?thesis using s1(1) True Cons.IH [OF s1(2), of deleted] r by simp
  next
    case False
    then have k: "k \<in> dom m" by auto
    obtain s2 where s2: "len s1 = Some (card (dom m1), s2)" "rep s2 m1" using len_law [OF s1(2)] by blast
    have "dom m \<inter> set (k # ks) = insert k (dom m1 \<inter> set ks)" using k dom1 by auto
    then have c: "card (dom m \<inter> set (k # ks)) = Suc (card (dom m1 \<inter> set ks))"
      using fin dom1 by (simp add: card_insert_if)
    have sub: "dom m \<noteq> {} \<and> dom m \<subseteq> set (k # ks) \<longleftrightarrow> dom m1 \<subseteq> set ks" using k dom1 by auto
    show ?thesis
    proof (cases "dom m1 = {}")
      case True
      then have "m1 = Map.empty" by simp
      then show ?thesis using s1(1) s2 False c sub unfolding r by simp
    next
      case ne: False
      obtain s' where "hdel_fields del len ks (deleted + 1) s2 =
          Some (deleted + 1 + int (card (dom m1 \<inter> set ks)), dom m1 \<noteq> {} \<and> dom m1 \<subseteq> set ks, s')"
        "rep s' (m1 |` (- set ks))" using Cons.IH [OF s2(2), of "deleted + 1"] by blast
      then show ?thesis using s1(1) s2(1) False ne c sub fin unfolding r by simp
    qed
  qed
qed (simp add: restrict_map_def)

end

end
