(* ===== verification/Dict_Map.thy ===== *)
theory Dict_Map
  imports Dict_Invariant Map_Store
begin

text \<open>
  The operations of \<open>dict.c\<close> as operations on a finite map, for every hash function, every
  resize policy and every stage of an incremental rehashing, and the interface \<open>map_store\<close>
  through which the commands use a dictionary.
\<close>

section \<open>Insertion and deletion\<close>

declare One_nat_def [simp del]

lemma map_of_add_mset:
  assumes "mset xs = add_mset (k, v) (mset ys)" "distinct (map fst xs)"
  shows "map_of xs = (map_of ys)(k \<mapsto> v)" "map_of ys k = None" "distinct (map fst ys)"
proof -
  have eq: "mset xs = mset ((k, v) # ys)" using assms(1) by simp
  then have d: "distinct (map fst ((k, v) # ys))"
    using assms(2) mset_eq_imp_distinct_iff [of "map fst xs" "map fst ((k, v) # ys)"] by simp
  show "map_of xs = (map_of ys)(k \<mapsto> v)"
    using map_of_eqI [OF eq assms(2)] by simp
  show "map_of ys k = None" "distinct (map fst ys)"
    using d by (simp_all add: map_of_eq_None_iff)
qed

text \<open>Replacing one bucket.\<close>

lemma dict_bucket_update:
  assumes ok: "dict_ok d" and t: "t = 0 \<or> t = 1" and i: "i < length (ht_table d t)"
    and b: "\<forall>e \<in> set b. ht_index d t (dictHashKey d (fst e)) = i"
    and u: "u + length (ht_table d t ! i) = ht_used d t + length b"
    and nr: "t = 0 \<and> ht_table d 0 ! i = [] \<and> dictIsRehashing d \<longrightarrow> b = []"
    and d': "d' = d\<lparr>ht_table := (ht_table d)(t := (ht_table d t)[i := b]),
                     ht_used := (ht_used d)(t := u)\<rparr>"
    and dis: "distinct (map fst (dict_entries d'))" and len: "length (dict_entries d') < 2 ^ 64"
  shows "dict_ok d'"
proof -
  have t': "table_ok d 0" "table_ok d 1" using ok by (simp_all add: dict_ok_def)
  have "mset (concat ((ht_table d t)[i := b])) + mset (ht_table d t ! i) =
      mset (concat (ht_table d t)) + mset b"
    by (rule mset_concat_update [OF i])
  then have "mset (concat ((ht_table d t)[i := b]) @ ht_table d t ! i) =
      mset (concat (ht_table d t) @ b)" by simp
  then have "length (concat ((ht_table d t)[i := b]) @ ht_table d t ! i) =
      length (concat (ht_table d t) @ b)" by (rule mset_eq_length)
  then have l: "length (concat ((ht_table d t)[i := b])) = u"
    using u t t' by (auto simp: table_ok_def table_entries_def)
  have p: "placed d t ((ht_table d t)[i := b])"
    using t t' b by (intro placed_update) (auto simp: table_ok_iff)
  have tt: "table_ok d' t"
    using t t' p l by (auto simp: table_ok_iff table_entries_def d')
  have other: "table_ok d' s" if "s \<noteq> t" "s = 0 \<or> s = 1" for s
    using that t' by (auto simp: table_ok_iff table_entries_def d')
  have "table_ok d' 0" "table_ok d' 1" using tt other t by metis+
  moreover have "ht_table d' 0 ! j = []" if "rehashidx d \<noteq> -1" "j < nat (rehashidx d)" for j
  proof -
    have "ht_table d 0 ! j = []" using ok that by (simp add: dict_ok_def)
    then show ?thesis
      using nr i that by (cases "j = i") (auto simp: d' dictIsRehashing_def)
  qed
  ultimately show ?thesis
    using ok dis len by (simp add: dict_ok_def) (auto simp: d')
qed

lemma dict_entries_update:
  assumes "t = 0 \<or> t = 1" "i < length (ht_table d t)"
    and "d' = d\<lparr>ht_table := (ht_table d)(t := (ht_table d t)[i := b]), ht_used := u\<rparr>"
  shows "mset (dict_entries d') + mset (ht_table d t ! i) = mset (dict_entries d) + mset b"
  using assms mset_concat_update [OF assms(2), of b]
  by (auto simp: dict_entries_def table_entries_def ac_simps)

lemma dictInsertAtPosition_ok:
  assumes ok: "dict_ok d" and alloc: "0 \<le> ht_size_exp d 0" and new: "dict_map d key = None"
    and len: "Suc (length (dict_entries d)) < 2 ^ 64"
    and t: "t = (if dictIsRehashing d then 1 else 0)"
    and i: "i = ht_index d t (dictHashKey d key)"
  shows "\<exists>d'. dictInsertAtPosition d key v0 (t, i) = Some ((t, i, 0), d') \<and> dict_ok d' \<and>
    valid_ref d' (t, i, 0) \<and> dict_entry d' (t, i, 0) = Some (key, v0) \<and>
    dict_map d' = (dict_map d)(key \<mapsto> v0) \<and> d_type d' = d_type d \<and>
    length (dict_entries d') = Suc (length (dict_entries d))"
proof -
  define b where "b = (key, v0) # ht_table d t ! i"
  define d' where "d' = d\<lparr>ht_table := (ht_table d)(t := (ht_table d t)[i := b]),
    ht_used := (ht_used d)(t := ht_used d t + 1)\<rparr>"
  have t': "t = 0 \<or> t = 1" "t \<le> 1" using t by auto
  have tok: "table_ok d t" using ok t' by (auto simp: dict_ok_def)
  have e: "0 \<le> ht_size_exp d t" using alloc dict_rehashingD(4) [OF ok] t by auto
  have il: "i < length (ht_table d t)" using ht_index_less [OF tok e] i by simp
  have u: "ht_used d t < 2 ^ 64 - 1"
    using t' tok len by (auto simp: table_ok_def dict_entries_def)
  have ms: "mset (dict_entries d') = add_mset (key, v0) (mset (dict_entries d))"
    using dict_entries_update [OF t'(1) il d'_def] by (simp add: b_def)
  then have ms': "mset (dict_entries d') = mset ((key, v0) # dict_entries d)" by simp
  have nk: "key \<notin> fst ` set (dict_entries d)"
    using new by (simp add: dict_map_def map_of_eq_None_iff)
  have "distinct (map fst ((key, v0) # dict_entries d))"
    using ok nk by (simp add: dict_ok_def)
  then have dis: "distinct (map fst (dict_entries d'))"
    using ms' mset_eq_imp_distinct_iff [of "map fst (dict_entries d')"
        "map fst ((key, v0) # dict_entries d)"] by simp
  have l: "length (dict_entries d') = Suc (length (dict_entries d))"
    using mset_eq_length [OF ms'] by simp
  have "dict_ok d'"
  proof (rule dict_bucket_update [OF ok t'(1) il _ _ _ d'_def dis])
    show "\<forall>e \<in> set b. ht_index d t (dictHashKey d (fst e)) = i"
      using tok il i by (auto simp: b_def table_ok_def)
    show "length (dict_entries d') < 2 ^ 64" using l len by simp
  qed (use t in \<open>auto simp: b_def\<close>)
  moreover have "dictInsertAtPosition d key v0 (t, i) = Some ((t, i, 0), d')"
    using t il u by (simp add: dictInsertAtPosition_def get_bucket_def set_bucket_def d'_def b_def)
  moreover have "ht_table d' t ! i = b" "i < length (ht_table d' t)" using il by (simp_all add: d'_def)
  then have "valid_ref d' (t, i, 0)" "dict_entry d' (t, i, 0) = Some (key, v0)"
    using t'(2) by (simp_all add: valid_ref_def dict_entry_def get_bucket_def b_def)
  ultimately show ?thesis
    using map_of_add_mset(1) [OF ms dis] l by (simp add: dict_map_def) (simp add: d'_def)
qed

lemma dictSetVal_ok:
  assumes ok: "dict_ok d" and ty: "dictType_ok (d_type d)" and r: "valid_ref d r" and e: "dict_entry d r = Some (key, v0)"
  shows "\<exists>d'. dictSetVal d r v = Some d' \<and> dict_ok d' \<and> dict_map d' = (dict_map d)(key \<mapsto> v) \<and>
    d_type d' = d_type d \<and> length (dict_entries d') = length (dict_entries d)"
proof -
  obtain t i p where r': "r = (t, i, p)" by (cases r)
  define b where "b = (ht_table d t ! i)[p := (key, v)]"
  define d' where "d' = d\<lparr>ht_table := (ht_table d)(t := (ht_table d t)[i := b]),
    ht_used := (ht_used d)(t := ht_used d t)\<rparr>"
  have t: "t = 0 \<or> t = 1" and il: "i < length (ht_table d t)" and p: "p < length (ht_table d t ! i)"
    using r r' by (auto simp: valid_ref_def One_nat_def)
  have bp: "ht_table d t ! i ! p = (key, v0)" using e r r' by (simp add: dict_entry_valid)
  have tok: "table_ok d t" using ok t by (auto simp: dict_ok_def)
  have "mset b = add_mset (key, v) (mset (ht_table d t ! i) - {#(key, v0)#})"
    using p bp by (simp add: b_def mset_update)
  moreover have "(key, v0) \<in># mset (ht_table d t ! i)" using p bp by (metis nth_mem set_mset_mset)
  ultimately have mb: "add_mset (key, v0) (mset b) = add_mset (key, v) (mset (ht_table d t ! i))"
    by (simp add: add_mset_commute)
  have "mset (dict_entries d') + mset (ht_table d t ! i) = mset (dict_entries d) + mset b"
    by (rule dict_entries_update [OF t il d'_def])
  then have "add_mset (key, v0) (mset (dict_entries d')) + mset (ht_table d t ! i) =
      add_mset (key, v) (mset (dict_entries d)) + mset (ht_table d t ! i)"
    using mb by (metis union_mset_add_mset_left union_mset_add_mset_right)
  then have ms: "add_mset (key, v0) (mset (dict_entries d')) = add_mset (key, v) (mset (dict_entries d))"
    by simp
  have "(key, v0) \<in># mset (dict_entries d)"
    using valid_ref_map [OF ok r e] by (auto simp: dict_map_def dest: map_of_SomeD)
  then obtain rs where rs: "mset (dict_entries d) = add_mset (key, v0) (mset rs)"
    by (metis ex_mset insert_DiffM)
  then have rs': "mset (dict_entries d') = add_mset (key, v) (mset rs)"
    using ms by (simp add: add_mset_commute)
  have dis: "distinct (map fst (dict_entries d))" using ok by (simp add: dict_ok_def)
  have k: "key \<notin> fst ` set rs" "distinct (map fst rs)"
    using map_of_add_mset(2,3) [OF rs dis] by (simp_all add: map_of_eq_None_iff)
  have e2: "mset (dict_entries d') = mset ((key, v) # rs)" using rs' by simp
  have dis': "distinct (map fst (dict_entries d'))"
    using k e2 mset_eq_imp_distinct_iff [of "map fst (dict_entries d')" "map fst ((key, v) # rs)"]
    by simp
  have "length (dict_entries d) = length ((key, v0) # rs)" by (rule mset_eq_length) (simp add: rs)
  then have l: "length (dict_entries d') = length (dict_entries d)"
    using mset_eq_length [OF e2] by simp
  have "dict_ok d'"
  proof (rule dict_bucket_update [OF ok t il _ _ _ d'_def dis'])
    have "e' \<in> set b \<Longrightarrow> fst e' \<in> fst ` set (ht_table d t ! i)" for e'
      using p bp by (auto simp: b_def in_set_conv_nth nth_list_update image_iff split: if_splits)
        (metis fst_conv nth_mem)+
    then show "\<forall>e \<in> set b. ht_index d t (dictHashKey d (fst e)) = i"
      using tok il by (fastforce simp: table_ok_def)
    show "length (dict_entries d') < 2 ^ 64" using l ok by (simp add: dict_ok_def)
  qed (use p in \<open>auto simp: b_def\<close>)
  moreover have "dictSetVal d r v = Some d'"
    using r' il p bp ty by (simp add: dictSetVal_def dictType_ok_def get_bucket_def set_bucket_def d'_def b_def)
  moreover have "dict_map d' = (dict_map d)(key \<mapsto> v)"
    using map_of_add_mset(1) [OF rs dis] map_of_add_mset(1) [OF rs' dis'] by (simp add: dict_map_def)
  ultimately show ?thesis using l by (simp add: d'_def)
qed

lemma dict_unlink_at_ok:
  assumes ok: "dict_ok d" and r: "valid_ref d r" and e: "dict_entry d r = Some (key, v)"
  shows "\<exists>d'. dict_unlink_at d r = Some ((key, v), d') \<and> dict_ok d' \<and>
    dict_map d' = (dict_map d)(key := None) \<and> d_type d' = d_type d \<and>
    length (dict_entries d) = Suc (length (dict_entries d')) \<and> pauserehash d' = pauserehash d"
proof -
  obtain t i p where r': "r = (t, i, p)" by (cases r)
  define b where "b = take p (ht_table d t ! i) @ drop (Suc p) (ht_table d t ! i)"
  define d' where "d' = d\<lparr>ht_table := (ht_table d)(t := (ht_table d t)[i := b]),
    ht_used := (ht_used d)(t := ht_used d t - 1)\<rparr>"
  have t: "t = 0 \<or> t = 1" and il: "i < length (ht_table d t)" and p: "p < length (ht_table d t ! i)"
    using r r' by (auto simp: valid_ref_def One_nat_def)
  have bp: "ht_table d t ! i ! p = (key, v)" using e r r' by (simp add: dict_entry_valid)
  have tok: "table_ok d t" using ok t by (auto simp: dict_ok_def)
  have split: "ht_table d t ! i = take p (ht_table d t ! i) @ (key, v) # drop (Suc p) (ht_table d t ! i)"
    using p bp by (metis id_take_nth_drop)
  have mb: "mset (ht_table d t ! i) = add_mset (key, v) (mset b)"
    unfolding b_def by (subst split) simp
  have ms: "mset (dict_entries d) = add_mset (key, v) (mset (dict_entries d'))"
    using dict_entries_update [OF t il d'_def] mb by simp
  have dis: "distinct (map fst (dict_entries d))" using ok by (simp add: dict_ok_def)
  note m = map_of_add_mset [OF ms dis]
  have "mset (dict_entries d) = mset ((key, v) # dict_entries d')" using ms by simp
  then have l: "length (dict_entries d) = Suc (length (dict_entries d'))"
    using mset_eq_length by fastforce
  have "length (ht_table d t ! i) \<le> ht_used d t"
    using tok il member_le_sum_list [of "length (ht_table d t ! i)" "map length (ht_table d t)"]
    by (simp add: table_ok_def table_entries_def length_concat)
  then have u: "ht_used d t \<noteq> 0" "ht_used d t < 2 ^ 64"
    using p ok t by (auto simp: dict_ok_def table_ok_def dict_entries_def)
  have "dict_ok d'"
  proof (rule dict_bucket_update [OF ok t il _ _ _ d'_def m(3)])
    have "set b \<subseteq> set (ht_table d t ! i)"
      using set_take_subset set_drop_subset by (fastforce simp: b_def)
    then show "\<forall>e \<in> set b. ht_index d t (dictHashKey d (fst e)) = i"
      using tok il unfolding table_ok_def by blast
    show "length (dict_entries d') < 2 ^ 64" using l ok by (simp add: dict_ok_def)
    show "ht_used d t - 1 + length (ht_table d t ! i) = ht_used d t + length b"
      using p u by (simp add: b_def)
  qed (use p in auto)
  moreover have "dict_unlink_at d r = Some ((key, v), d')"
    using r' il p bp u
    by (simp add: dict_unlink_at_def get_bucket_def set_bucket_def d'_def b_def)
  moreover have "dict_map d' = (dict_map d)(key := None)"
    using m(1,2) by (auto simp: dict_map_def)
  ultimately show ?thesis using l by (simp add: d'_def)
qed

section \<open>The dictionary as a map\<close>

definition dict_usable :: "('k, 'v) dict \<Rightarrow> bool" where
  "dict_usable d \<longleftrightarrow> dict_ok d \<and> dictType_ok (d_type d) \<and>
     (pauseAutoResize d > 0 \<longrightarrow> 0 \<le> ht_size_exp d 0)"

lemma dict_step_usable: "dict_usable d \<Longrightarrow> dict_step d d' \<Longrightarrow> dict_usable d'"
  by (auto simp: dict_usable_def dict_step_def)

lemma dict_finite_map: "finite (dom (dict_map d))"
  by (simp add: dict_map_def finite_dom_map_of)

lemma dict_card_entries:
  assumes "dict_ok d" shows "card (dom (dict_map d)) = length (dict_entries d)"
  using assms distinct_card [of "map fst (dict_entries d)"]
  by (simp add: dict_ok_def dict_map_def dom_map_of_conv_image_fst)

lemma dictFetchValue_ok:
  assumes "dict_usable d"
  shows "\<exists>d'. dictFetchValue cr d key = Some (dict_map d key, d') \<and> dict_step d d'"
proof -
  obtain r d' where *: "dictFind cr d key = Some (r, d')" "dict_step d d'"
    "case r of None \<Rightarrow> dict_map d key = None
     | Some he \<Rightarrow> \<exists>v. valid_ref d' he \<and> dict_entry d' he = Some (key, v) \<and> dict_map d key = Some v"
    using dictFind_ok [of d cr key] assms by (auto simp: dict_usable_def)
  then show ?thesis
    by (cases r) (auto simp: dictFetchValue_def dictGetVal_def)
qed

lemma dictAddRaw_ok:
  assumes u: "dict_usable d" and len: "card (dom (dict_map d)) < 2 ^ 64 - 1"
  shows "\<exists>r d'. dictAddRaw cr d key v0 = Some (r, d') \<and> dict_usable d' \<and>
    (case r of
       Inl he \<Rightarrow> dict_map d key \<noteq> None \<and> dict_map d' = dict_map d \<and> valid_ref d' he \<and>
         (\<exists>v. dict_entry d' he = Some (key, v))
     | Inr he \<Rightarrow> dict_map d key = None \<and> dict_map d' = (dict_map d)(key \<mapsto> v0) \<and>
         valid_ref d' he \<and> dict_entry d' he = Some (key, v0))"
proof -
  have ok: "dict_ok d" and ty: "dictType_ok (d_type d)"
    and a: "pauseAutoResize d > 0 \<longrightarrow> 0 \<le> ht_size_exp d 0"
    using u by (simp_all add: dict_usable_def)
  define idx where "idx = ht_index d 0 (dictHashKey d key)"
  have "idx < length (ht_table d 0)" if "dictIsRehashing d"
    using ok dict_rehashingD(3) [OF ok that] unfolding idx_def
    by (intro ht_index_less) (simp_all add: dict_ok_def)
  then obtain d1 where d1: "dict_access_rehash cr d idx = Some d1" "dict_step d d1"
    using dict_access_rehash_ok [OF ok, of idx cr] by blast
  have u1: "dict_usable d1" by (rule dict_step_usable [OF u d1(2)])
  then obtain d2 where d2: "dictExpandIfNeeded_auto cr d1 = Some d2" "dict_step d1 d2"
    "d2 = d1 \<or> rehashidx d2 \<le> 0" "0 \<le> ht_size_exp d2 0"
    using dictExpandIfNeeded_auto_ok [of d1 cr] by (auto simp: dict_usable_def)
  have u2: "dict_usable d2" by (rule dict_step_usable [OF u1 d2(2)])
  have m2: "dict_map d2 = dict_map d"
    using dict_step_map [OF d1(2)] dict_step_map [OF d2(2)] by simp
  have i2: "rehashidx d2 \<le> 0 \<or> idx = ht_index d2 0 (dictHashKey d2 key)"
    using d1(2) d2(3) by (auto simp: dict_step_def idx_def ht_index_def dictHashKey_def)
  obtain r where r: "dict_search d2 key idx = Some r"
    "case r of None \<Rightarrow> dict_map d2 key = None
     | Some he \<Rightarrow> valid_ref d2 he \<and> map_option fst (dict_entry d2 he) = Some key"
    using dict_search_ok [of d2 idx key] u2 d2(4) i2 by (auto simp: dict_usable_def)
  show ?thesis
  proof (cases r)
    case (Some he)
    then obtain v where v: "valid_ref d2 he" "dict_entry d2 he = Some (key, v)"
      using r(2) by auto
    then have "dict_map d2 key = Some v"
      using u2 by (intro valid_ref_map) (simp_all add: dict_usable_def)
    then show ?thesis
      using d1 d2 r Some v u2 m2
      by (simp add: dictAddRaw_def dictFindPositionForInsert_def idx_def [symmetric])
  next
    case None
    define t :: nat where "t = (if dictIsRehashing d2 then 1 else 0)"
    define i where "i = ht_index d2 t (dictHashKey d2 key)"
    have ok2: "dict_ok d2" using u2 by (simp add: dict_usable_def)
    have "length (dict_entries d2) < 2 ^ 64 - 1"
      using len dict_card_entries [OF ok2] m2 by simp
    then have "\<exists>d'. dictInsertAtPosition d2 key v0 (t, i) = Some ((t, i, 0), d') \<and> dict_ok d' \<and>
      valid_ref d' (t, i, 0) \<and> dict_entry d' (t, i, 0) = Some (key, v0) \<and>
      dict_map d' = (dict_map d2)(key \<mapsto> v0) \<and> d_type d' = d_type d2 \<and>
      length (dict_entries d') = Suc (length (dict_entries d2))"
      using r(2) None d2(4) by (intro dictInsertAtPosition_ok ok2) (simp_all add: t_def i_def)
    then obtain d' where d': "dictInsertAtPosition d2 key v0 (t, i) = Some ((t, i, 0), d')"
      "dict_ok d'" "valid_ref d' (t, i, 0)" "dict_entry d' (t, i, 0) = Some (key, v0)"
      "dict_map d' = (dict_map d2)(key \<mapsto> v0)" by blast
    have "d_type d' = d_type d2" "ht_size_exp d' = ht_size_exp d2"
      using d'(1) by (auto simp: dictInsertAtPosition_def set_bucket_def get_bucket_def
          split: if_splits)
    then have "dict_usable d'" using d'(2) u2 d2(4) by (simp add: dict_usable_def)
    moreover have "dictAddRaw cr d key v0 = Some (Inr (t, i, 0), d')"
      using d1(1) d2(1) r(1) None d'(1) u2
      by (simp add: dict_usable_def dictType_ok_def dictAddRaw_def dictFindPositionForInsert_def idx_def [symmetric] t_def i_def
          Let_def)
    ultimately show ?thesis using d' r(2) None m2 by simp
  qed
qed

lemma dictSetVal_usable:
  assumes "dict_usable d" "valid_ref d r" "dict_entry d r = Some (key, v0)"
  shows "\<exists>d'. dictSetVal d r v = Some d' \<and> dict_usable d' \<and> dict_map d' = (dict_map d)(key \<mapsto> v)"
proof -
  obtain d' where d': "dictSetVal d r v = Some d'" "dict_ok d'"
    "dict_map d' = (dict_map d)(key \<mapsto> v)" "d_type d' = d_type d"
    using dictSetVal_ok [of d r key v0 v] assms by (auto simp: dict_usable_def)
  then have "ht_size_exp d' = ht_size_exp d" "pauseAutoResize d' = pauseAutoResize d"
    by (auto simp: dictSetVal_def set_bucket_def get_bucket_def split: if_splits prod.splits)
  then show ?thesis using d' assms(1) by (simp add: dict_usable_def)
qed

lemma dictSetKey_usable:
  assumes "dict_usable d" "valid_ref d r" "dict_entry d r = Some (key, v)"
  shows "dictSetKey d r key = Some d"
proof -
  obtain t i p where r: "r = (t, i, p)" by (cases r)
  then have b: "i < length (ht_table d t)" "p < length (ht_table d t ! i)" "ht_table d t ! i ! p = (key, v)"
    using assms(3) by (auto simp: dict_entry_def get_bucket_def split: if_splits)
  have k: "dict_dup (keyDup (d_type d)) key = key" using assms(1) by (simp add: dict_usable_def dictType_ok_def)
  have "(ht_table d t ! i)[p := (key, v)] = ht_table d t ! i" using b by (metis list_update_id)
  then show ?thesis using b k r
    by (simp add: dictSetKey_def get_bucket_def set_bucket_def)
qed

lemma dictAdd_ok:
  assumes u: "dict_usable d" and len: "card (dom (dict_map d)) < 2 ^ 64 - 1"
  shows "\<exists>d'. dictAdd cr d key v0 v = Some (dict_map d key = None, d') \<and> dict_usable d' \<and>
    dict_map d' = (if dict_map d key = None then (dict_map d)(key \<mapsto> v) else dict_map d)"
proof -
  obtain r d1 where *: "dictAddRaw cr d key v0 = Some (r, d1)" "dict_usable d1"
    "case r of
       Inl he \<Rightarrow> dict_map d key \<noteq> None \<and> dict_map d1 = dict_map d \<and> valid_ref d1 he \<and>
         (\<exists>v. dict_entry d1 he = Some (key, v))
     | Inr he \<Rightarrow> dict_map d key = None \<and> dict_map d1 = (dict_map d)(key \<mapsto> v0) \<and>
         valid_ref d1 he \<and> dict_entry d1 he = Some (key, v0)"
    using dictAddRaw_ok [OF u len] by blast
  then show ?thesis
  proof (cases r)
    case (Inr he)
    then show ?thesis using * dictSetVal_usable [OF *(2), of he key v0 v] by (auto simp: dictAdd_def)
  qed (auto simp: dictAdd_def)
qed

lemma dictReplace_ok:
  assumes u: "dict_usable d" and len: "card (dom (dict_map d)) < 2 ^ 64 - 1"
  shows "\<exists>d'. dictReplace cr d key v0 v = Some (dict_map d key = None, d') \<and> dict_usable d' \<and>
    dict_map d' = (dict_map d)(key \<mapsto> v)"
proof -
  obtain r d1 where *: "dictAddRaw cr d key v0 = Some (r, d1)" "dict_usable d1"
    "case r of
       Inl he \<Rightarrow> dict_map d key \<noteq> None \<and> dict_map d1 = dict_map d \<and> valid_ref d1 he \<and>
         (\<exists>v. dict_entry d1 he = Some (key, v))
     | Inr he \<Rightarrow> dict_map d key = None \<and> dict_map d1 = (dict_map d)(key \<mapsto> v0) \<and>
         valid_ref d1 he \<and> dict_entry d1 he = Some (key, v0)"
    using dictAddRaw_ok [OF u len] by blast
  then show ?thesis
  proof (cases r)
    case (Inr he)
    then show ?thesis using * dictSetVal_usable [OF *(2), of he key v0 v] by (auto simp: dictReplace_def)
  next
    case (Inl he)
    then obtain v1 where "dict_entry d1 he = Some (key, v1)" using * by auto
    then show ?thesis
      using Inl * dictSetVal_usable [OF *(2), of he key v1 v] by (auto simp: dictReplace_def)
  qed
qed

lemma dict_unlink_shrink_ok:
  assumes u: "dict_usable d" and r: "valid_ref d r" "dict_entry d r = Some (key, v)"
  shows "\<exists>d1 d2. dict_unlink_at d r = Some ((key, v), d1) \<and>
    dictShrinkIfNeeded_auto cr d1 = Some d2 \<and> dict_usable d2 \<and>
    dict_map d2 = (dict_map d)(key := None) \<and> pauserehash d2 = pauserehash d"
proof -
  obtain d1 where d1: "dict_unlink_at d r = Some ((key, v), d1)" "dict_ok d1"
    "dict_map d1 = (dict_map d)(key := None)" "d_type d1 = d_type d" "pauserehash d1 = pauserehash d"
    using dict_unlink_at_ok [of d r key v] r u by (auto simp: dict_usable_def)
  then have "ht_size_exp d1 = ht_size_exp d" "pauseAutoResize d1 = pauseAutoResize d"
    by (auto simp: dict_unlink_at_def set_bucket_def get_bucket_def split: if_splits prod.splits)
  then have u1: "dict_usable d1" using d1 u by (simp add: dict_usable_def)
  obtain d2 where d2: "dictShrinkIfNeeded_auto cr d1 = Some d2" "dict_step d1 d2"
    using dictShrinkIfNeeded_auto_ok [OF d1(2)] by blast
  then show ?thesis
    using d1 dict_step_usable [OF u1 d2(2)] dict_step_map [OF d2(2)] by (simp add: dict_step_def)
qed

lemma dictGenericDelete_ok:
  assumes u: "dict_usable d"
  shows "\<exists>d'. dictGenericDelete cr d key =
      Some (map_option (Pair key) (dict_map d key), d') \<and> dict_usable d' \<and>
    dict_map d' = (dict_map d)(key := None)"
proof (cases "dictSize d = 0")
  case True
  then have "dict_map d = Map.empty"
    using u dictSize_eq [of d] by (simp add: dict_usable_def dict_map_def)
  then show ?thesis using True u by (simp add: dictGenericDelete_def)
next
  case False
  have ok: "dict_ok d" and ty: "dictType_ok (d_type d)" using u by (simp_all add: dict_usable_def)
  obtain d1 r where *: "dict_access_rehash cr d (ht_index d 0 (dictHashKey d key)) = Some d1"
    "dict_search d1 key (ht_index d 0 (dictHashKey d key)) = Some r" "dict_step d d1"
    "case r of None \<Rightarrow> dict_map d key = None
     | Some he \<Rightarrow> valid_ref d1 he \<and> map_option fst (dict_entry d1 he) = Some key"
    using dict_access_search [OF ok ty dict_alloc [OF ok False]] by blast
  have u1: "dict_usable d1" by (rule dict_step_usable [OF u *(3)])
  note m1 = dict_step_map [OF *(3)]
  show ?thesis
  proof (cases r)
    case None
    then show ?thesis using * False u1 m1 by (auto simp: dictGenericDelete_def)
  next
    case (Some he)
    then obtain v where v: "valid_ref d1 he" "dict_entry d1 he = Some (key, v)"
      using *(4) by auto
    then have "dict_map d1 key = Some v"
      using u1 by (intro valid_ref_map) (simp_all add: dict_usable_def)
    then show ?thesis
      using dict_unlink_shrink_ok [OF u1 v, of cr] * Some False m1
      by (auto simp: dictGenericDelete_def)
  qed
qed

lemma dictTwoPhase_ok:
  assumes u: "dict_usable d"
  shows "\<exists>r d1 d2. dictTwoPhaseUnlinkFind cr d key = Some (r, d1) \<and>
    dict_map d1 = dict_map d \<and>
    (case r of None \<Rightarrow> dict_map d key = None \<and> pauserehash d1 = pauserehash d
     | Some he \<Rightarrow> map_option (Pair key) (dict_map d key) = dict_entry d1 he \<and>
         dict_map d key \<noteq> None \<and> pauserehash d1 = pauserehash d + 1) \<and>
    dictTwoPhaseUnlinkFree cr d1 r = Some d2 \<and> dict_usable d2 \<and>
    dict_map d2 = (dict_map d)(key := None) \<and> pauserehash d2 = pauserehash d"
proof (cases "dictSize d = 0")
  case True
  then have "dict_map d = Map.empty"
    using u dictSize_eq [of d] by (simp add: dict_usable_def dict_map_def)
  then show ?thesis
    using True u by (simp add: dictTwoPhaseUnlinkFind_def dictTwoPhaseUnlinkFree_def)
next
  case False
  have ok: "dict_ok d" and ty: "dictType_ok (d_type d)" using u by (simp_all add: dict_usable_def)
  obtain d0 where d0: "(if dictIsRehashing d then dictRehashStep cr d else Some d) = Some d0"
    "dict_step d d0"
    using dictRehashStep_ok [OF ok, of cr] ok by (cases "dictIsRehashing d") auto
  have u0: "dict_usable d0" by (rule dict_step_usable [OF u d0(2)])
  have a0: "0 \<le> ht_size_exp d0 0" using dict_alloc [OF ok False] d0(2) by (simp add: dict_step_def)
  note m0 = dict_step_map [OF d0(2)]
  have p0: "pauserehash d0 = pauserehash d" using d0(2) by (simp add: dict_step_def)
  obtain r where r: "dict_search d0 key (ht_index d0 0 (dictHashKey d0 key)) = Some r"
    "case r of None \<Rightarrow> dict_map d0 key = None
     | Some he \<Rightarrow> valid_ref d0 he \<and> map_option fst (dict_entry d0 he) = Some key"
    using dict_search_ok [of d0 "ht_index d0 0 (dictHashKey d0 key)" key] u0 a0
    by (auto simp: dict_usable_def)
  show ?thesis
  proof (cases r)
    case None
    then show ?thesis
      using False d0(1) r m0 p0 u0
      by (auto simp: dictTwoPhaseUnlinkFind_def dictTwoPhaseUnlinkFree_def)
  next
    case (Some he)
    define d1 where "d1 = d0\<lparr>pauserehash := pauserehash d0 + 1\<rparr>"
    have find: "dictTwoPhaseUnlinkFind cr d key = Some (Some he, d1)"
      using False d0(1) r(1) Some unfolding dictTwoPhaseUnlinkFind_def d1_def by simp
    have e1: "dict_entries d1 = dict_entries d0"
      by (simp add: d1_def dict_entries_def table_entries_def)
    then have m1: "dict_map d1 = dict_map d0" by (simp add: dict_map_def)
    have "table_ok d1 t = table_ok d0 t" for t
      by (simp add: table_ok_iff table_entries_def) (simp add: d1_def)
    then have "dict_ok d1" using u0 e1 by (simp add: dict_usable_def dict_ok_def) (simp add: d1_def)
    then have u1: "dict_usable d1" using u0 by (simp add: dict_usable_def) (simp add: d1_def)
    have en: "dict_entry d1 he = dict_entry d0 he" "valid_ref d1 he = valid_ref d0 he"
      by (simp_all add: d1_def dict_entry_def get_bucket_def valid_ref_def split: prod.splits)
    obtain v where v: "valid_ref d1 he" "dict_entry d1 he = Some (key, v)"
      using r(2) Some en by auto
    have k: "dict_map d1 key = Some v"
      using u1 v by (intro valid_ref_map) (simp_all add: dict_usable_def)
    obtain da db where ab: "dict_unlink_at d1 he = Some ((key, v), da)"
      "dictShrinkIfNeeded_auto cr da = Some db" "dict_usable db"
      "dict_map db = (dict_map d1)(key := None)" "pauserehash db = pauserehash d1"
      using dict_unlink_shrink_ok [OF u1 v, of cr] by blast
    define d2 where "d2 = db\<lparr>pauserehash := pauserehash db - 1\<rparr>"
    have e2: "dict_entries d2 = dict_entries db"
      by (simp add: d2_def dict_entries_def table_entries_def)
    have "table_ok d2 t = table_ok db t" for t
      by (simp add: table_ok_iff table_entries_def) (simp add: d2_def)
    then have "dict_ok d2" using ab(3) e2 by (simp add: dict_usable_def dict_ok_def) (simp add: d2_def)
    then have u2: "dict_usable d2" using ab(3) by (simp add: dict_usable_def) (simp add: d2_def)
    have free: "dictTwoPhaseUnlinkFree cr d1 (Some he) = Some d2"
      using ab(1,2) by (simp add: dictTwoPhaseUnlinkFree_def d2_def)
    have "dict_map d2 = (dict_map d)(key := None)" "pauserehash d2 = pauserehash d"
      using e2 ab(4,5) m1 m0 p0 by (simp_all add: dict_map_def d2_def) (simp add: d1_def)
    moreover have "pauserehash d1 = pauserehash d + 1" using p0 by (simp add: d1_def)
    ultimately show ?thesis
      using find free u2 k v m1 m0 by auto
  qed
qed

section \<open>The map interface\<close>

text \<open>A dictionary provides the interface of the hash commands; one entry is the unit of room.\<close>

definition dict_rep :: "('k, 'v) dict \<Rightarrow> ('k \<Rightarrow> 'v option) \<Rightarrow> bool" where
  "dict_rep d m \<longleftrightarrow> dict_usable d \<and> dict_map d = m"

lemma dict_repI: "dict_usable d \<Longrightarrow> dict_rep d (dict_map d)"
  by (simp add: dict_rep_def)

definition dict_room :: "('k, 'v) dict \<Rightarrow> ('k \<times> 'v) list \<Rightarrow> bool" where
  "dict_room d args \<longleftrightarrow> card (dom (dict_map d)) + length args \<le> 2 ^ 64 - 1"

lemma dictSize_card:
  assumes "dict_ok d" shows "dictSize d = card (dom (dict_map d))"
proof -
  have "ht_used d 0 + ht_used d 1 = length (dict_entries d)" "length (dict_entries d) < 2 ^ 64"
    using assms by (simp_all add: dict_ok_def dict_entries_def table_ok_def)
  then show ?thesis using dict_card_entries [OF assms] by (simp add: dictSize_def)
qed

interpretation dict_store:
  map_store dict_rep dict_room "dictFetchValue cr" "\<lambda>d k. dictReplace cr d k v0"
    "dictDelete cr" "\<lambda>d. Some (dictSize d, d)"
  for cr and v0
proof
  fix d :: "('a, 'b) dict" and m k v
  assume r: "dict_rep d m"
  then have u: "dict_usable d" and m: "m = dict_map d" by (simp_all add: dict_rep_def)
  show "finite (dom m)" unfolding m by (rule dict_finite_map)
  show "\<exists>s'. dictFetchValue cr d k = Some (m k, s') \<and> dict_rep s' m"
    using dictFetchValue_ok [OF u, of cr k] dict_step_usable [OF u] dict_step_map unfolding m dict_rep_def by blast
  show "\<exists>s'. dictDelete cr d k = Some (m k \<noteq> None, s') \<and> dict_rep s' (m(k := None))"
    using dictGenericDelete_ok [OF u, of cr k] by (auto simp: dictDelete_def m dict_rep_def)
  show "\<exists>s'. Some (dictSize d, d) = Some (card (dom m), s') \<and> dict_rep s' m"
    using u dictSize_card [of d] by (simp add: m dict_rep_def dict_usable_def)
  fix args
  assume room: "dict_room d ((k, v) # args)"
  then have "card (dom (dict_map d)) < 2 ^ 64 - 1" by (simp add: dict_room_def)
  then obtain d' where d': "dictReplace cr d k v0 v = Some (dict_map d k = None, d')" "dict_usable d'"
    "dict_map d' = (dict_map d)(k \<mapsto> v)" using dictReplace_ok [OF u] by blast
  have "card (dom (dict_map d')) \<le> card (dom (dict_map d)) + 1"
    unfolding d'(3) using dict_finite_map [of d] by (simp add: card_insert_if)
  then show "\<exists>s'. dictReplace cr d k v0 v = Some (m k = None, s') \<and> dict_rep s' (m(k \<mapsto> v)) \<and> dict_room s' args"
    using d' room by (auto simp: m dict_rep_def dict_room_def)
qed

section \<open>Properties\<close>

definition nat_dictType :: "(nat, nat) dictType" where
  "nat_dictType = \<lparr>hashFunction = of_nat, keyDup = None, valDup = None, keyCompare = Some (=), resizeAllowed = None\<rparr>"

text \<open>A dictionary in the middle of a rehashing from 4 to 8 buckets.\<close>

definition mid_dict :: "(nat, nat) dict" where
  "mid_dict = \<lparr>d_type = nat_dictType,
     ht_table = (\<lambda>t. if t = 0 then [[], [(5, 50), (1, 10)], [], [(3, 30)]]
                      else if t = 1 then [[], [], [], [], [(4, 40)], [], [], []] else []),
     ht_used = (\<lambda>t. if t = 0 then 3 else if t = 1 then 1 else 0),
     ht_size_exp = (\<lambda>t. if t = 0 then 2 else if t = 1 then 3 else -1),
     rehashidx = 1, pauserehash = 0, pauseAutoResize = 0\<rparr>"

lemma placed_mid_dict: "placed mid_dict 0 (ht_table mid_dict 0)" "placed mid_dict 1 (ht_table mid_dict 1)"
  by (simp_all add: placed_def mid_dict_def nat_dictType_def dictHashKey_def ht_index_def
      DICTHT_SIZE_MASK_def DICTHT_SIZE_def All_less_Suc)

lemma mid_dict_usable: "dict_usable mid_dict"
proof -
  have "table_ok mid_dict 0" "table_ok mid_dict 1"
    unfolding table_ok_iff by (simp_all add: placed_mid_dict)
      (simp_all add: mid_dict_def DICTHT_SIZE_def table_entries_def)
  then show ?thesis
    by (simp add: dict_usable_def dict_ok_def)
      (simp add: mid_dict_def nat_dictType_def dictType_ok_def dict_dup_def DICTHT_SIZE_def dict_entries_def
        table_entries_def)
qed

text \<open>C11. Time-limited rehashing (\<open>dictRehashMicroseconds\<close>, through \<open>dictRehash\<close> and
  \<open>rehashEntriesInBucketAtIndex\<close>) always returns, whatever the clock shows and for every
  resize policy; it fails no assertion and touches no bucket outside the tables; it preserves
  the invariant and the contents; and if the time never runs out and resizing is enabled, no
  rehashing is left in progress.\<close>

theorem dictRehashMicroseconds_correct:
  assumes "dict_ok d"
  shows "\<exists>r d'. dictRehashMicroseconds cr d us clock = Some (r, d') \<and> dict_ok d' \<and>
    dict_map d' = dict_map d \<and> dictSize d' = dictSize d \<and>
    (cr = DICT_RESIZE_ENABLE \<and> pauserehash d = 0 \<and> (\<forall>i. clock i < us) \<longrightarrow>
       \<not> dictIsRehashing d')"
proof -
  obtain r d' where d': "dictRehashMicroseconds_loop cr us clock 0 0 d = Some (r, d')" "dict_ok d'"
    "mset (dict_entries d') = mset (dict_entries d)"
    "cr = DICT_RESIZE_ENABLE \<and> (\<forall>i. clock i < us) \<longrightarrow> \<not> dictIsRehashing d'"
    using dictRehashMicroseconds_loop_ok [OF assms, of cr us clock 0 0] by (elim exE conjE)
  have m: "dict_map d' = dict_map d" "dictSize d' = dictSize d"
    using dict_mapI [OF d'(3)] assms d'(2) by (simp_all add: dict_ok_def dictSize_eq)
  show ?thesis
  proof (cases "pauserehash d > 0")
    case True
    then show ?thesis using assms by (simp add: dictRehashMicroseconds_def)
  next
    case False
    then have "dictRehashMicroseconds cr d us clock = Some (r, d')"
      using d'(1) by (simp add: dictRehashMicroseconds_def)
    then show ?thesis using d'(2,4) m by blast
  qed
qed

theorem dictRehashMicroseconds_correct_witness:
  "dict_ok mid_dict \<and> dictIsRehashing mid_dict \<and>
   (\<exists>r d'. dictRehashMicroseconds DICT_RESIZE_ENABLE mid_dict 1 (\<lambda>_. 0) = Some (r, d') \<and>
      dict_ok d' \<and> dict_map d' = dict_map mid_dict \<and> \<not> dictIsRehashing d')"
proof -
  have ok: "dict_ok mid_dict" using mid_dict_usable by (simp add: dict_usable_def)
  have "dictIsRehashing mid_dict" "pauserehash mid_dict = 0"
    by (simp_all add: mid_dict_def dictIsRehashing_def)
  then show ?thesis
    using dictRehashMicroseconds_correct [OF ok, of DICT_RESIZE_ENABLE 1 "\<lambda>_. 0"] ok by auto
qed

text \<open>C12. \<open>dictFetchValue\<close> (and \<open>dictFind\<close> below it) returns exactly the value the
  dictionary maps the key to, in every state of an incremental rehashing and for every hash
  function, although the lookup itself moves buckets; the contents stay the same.\<close>

theorem dictFetchValue_refines:
  assumes "dict_usable d"
  shows "\<exists>d'. dictFetchValue cr d key = Some (dict_map d key, d') \<and> dict_usable d' \<and>
    dict_map d' = dict_map d"
  using dict_store.get_law [OF dict_repI [OF assms], of cr key] by (auto simp: dict_rep_def)

theorem dictFetchValue_refines_witness:
  "dict_usable mid_dict \<and> dict_map mid_dict 1 = Some 10 \<and>
   (\<exists>d'. dictFetchValue DICT_RESIZE_ENABLE mid_dict 1 = Some (dict_map mid_dict 1, d') \<and>
      dict_usable d' \<and> dict_map d' = dict_map mid_dict)"
  using dictFetchValue_refines [OF mid_dict_usable, of DICT_RESIZE_ENABLE 1]
  by (simp add: mid_dict_usable)
    (simp add: mid_dict_def dict_map_def dict_entries_def table_entries_def)

text \<open>C13. \<open>dictAdd\<close> adds a key that is absent and refuses one that is present, leaving the
  contents alone; \<open>dictReplace\<close> sets the key in both cases and says which one it was.  Both
  rehash and expand the tables on the way, keep the invariant, and end in the map update.
  The bound says that the \<open>unsigned long\<close> counters do not wrap.\<close>

theorem dictAdd_dictReplace_refine:
  assumes "dict_usable d" "card (dom (dict_map d)) < 2 ^ 64 - 1"
  shows "(\<exists>d'. dictAdd cr d key v0 v = Some (dict_map d key = None, d') \<and> dict_usable d' \<and>
      dict_map d' = (if dict_map d key = None then (dict_map d)(key \<mapsto> v) else dict_map d)) \<and>
    (\<exists>d'. dictReplace cr d key v0 v = Some (dict_map d key = None, d') \<and> dict_usable d' \<and>
      dict_map d' = (dict_map d)(key \<mapsto> v))"
  by (intro conjI dictAdd_ok [OF assms] dictReplace_ok [OF assms])

lemma card_mid_dict: "card (dom (dict_map mid_dict)) = 4"
  using dict_card_entries [of mid_dict] mid_dict_usable
  by (simp add: dict_usable_def) (simp add: mid_dict_def dict_entries_def table_entries_def)

theorem dictAdd_dictReplace_refine_witness:
  "dict_usable mid_dict \<and> card (dom (dict_map mid_dict)) < 2 ^ 64 - 1 \<and>
   (\<exists>d'. dictReplace DICT_RESIZE_AVOID mid_dict 3 0 33 = Some (dict_map mid_dict 3 = None, d') \<and>
      dict_usable d' \<and> dict_map d' = (dict_map mid_dict)(3 \<mapsto> 33))"
proof -
  have c: "card (dom (dict_map mid_dict)) < 2 ^ 64 - 1" by (simp add: card_mid_dict)
  show ?thesis
    using dictAdd_dictReplace_refine [OF mid_dict_usable c, of DICT_RESIZE_AVOID 3 0 33]
      mid_dict_usable c by blast
qed

text \<open>C14. \<open>dictDelete\<close> and \<open>dictUnlink\<close> remove exactly the given key: \<open>dictUnlink\<close> hands out
  the entry that was stored, \<open>dictDelete\<close> says whether there was one, and the rest of the map
  stays, through the rehashing step and the shrinking that a deletion can trigger.\<close>

theorem dictDelete_dictUnlink_refine:
  assumes "dict_usable d"
  shows "(\<exists>d'. dictDelete cr d key = Some (dict_map d key \<noteq> None, d') \<and> dict_usable d' \<and>
      dict_map d' = (dict_map d)(key := None)) \<and>
    (\<exists>d'. dictUnlink cr d key = Some (map_option (Pair key) (dict_map d key), d') \<and>
      dict_usable d' \<and> dict_map d' = (dict_map d)(key := None))"
  using dict_store.del_law [OF dict_repI [OF assms], of cr key] dictGenericDelete_ok [OF assms, of cr key]
  by (auto simp: dictUnlink_def dict_rep_def)

theorem dictDelete_dictUnlink_refine_witness:
  "dict_usable mid_dict \<and>
   (\<exists>d'. dictUnlink DICT_RESIZE_ENABLE mid_dict 5 =
        Some (map_option (Pair 5) (dict_map mid_dict 5), d') \<and>
      dict_usable d' \<and> dict_map d' = (dict_map mid_dict)(5 := None))"
  using dictDelete_dictUnlink_refine [OF mid_dict_usable, of DICT_RESIZE_ENABLE 5] mid_dict_usable
  by blast



end
