(* ===== verification/Dict_Scan.thy ===== *)
theory Dict_Scan
  imports Dict_Map
begin

text \<open>
  The stateless iteration \<open>dictScan\<close> of \<^verbatim>\<open>dict.c\<close>.  The cursor counts in the reversed order of
  its bits.  Seen from the other end, the cursor is a position in \<open>0 ..< 2 ^ 64\<close>, a bucket of a
  table of \<open>2 ^ e\<close> buckets is a stretch of \<open>2 ^ (64 - e)\<close> positions, and a call emits all entries
  between the position it starts from and the one it returns (\<open>dictScan_ok\<close>).  This is why a full
  scan misses no element although the table is resized and rehashed between the calls.

  The callback \<open>fn\<close> is modelled by the list of entries it is called with; the variant with
  defragmentation callbacks is not modelled.
\<close>

unbundle bit_operations_syntax

section \<open>The model\<close>

text \<open>\<open>rev\<close>, which reverses the bits by swapping ever smaller blocks.\<close>

fun rev_loop :: "nat \<Rightarrow> 64 word \<Rightarrow> 64 word \<Rightarrow> 64 word" where
  "rev_loop s msk v =
     (let s' = s div 2 in
      if s' = 0 then v
      else let msk' = msk XOR push_bit s' msk;
               v' = (drop_bit s' v AND msk') OR (push_bit s' v AND NOT msk')
           in rev_loop s' msk' v')"

declare rev_loop.simps [simp del]

definition dict_rev :: "64 word \<Rightarrow> 64 word" where
  "dict_rev v = rev_loop 64 (NOT 0) v"

text \<open>The increment of the reversed cursor.\<close>

definition scan_next :: "64 word \<Rightarrow> 64 word \<Rightarrow> 64 word" where
  "scan_next m v = dict_rev (dict_rev (v OR NOT m) + 1)"

partial_function (option) dictScan_loop ::
  "('k, 'v) dict \<Rightarrow> nat \<Rightarrow> 64 word \<Rightarrow> 64 word \<Rightarrow> 64 word \<Rightarrow> ('k \<times> 'v) list \<Rightarrow>
   (64 word \<times> ('k \<times> 'v) list) option" where
  "dictScan_loop d htidx1 m0 m1 v emitted = do {
     b \<leftarrow> get_bucket d htidx1 (unat (v AND m1));
     let v1 = scan_next m1 v;
     if v1 AND (m0 XOR m1) \<noteq> 0 then dictScan_loop d htidx1 m0 m1 v1 (emitted @ b)
     else Some (v1, emitted @ b)
   }"

declare dictScan_loop.simps [code]

definition dictScan ::
  "('k, 'v) dict \<Rightarrow> 64 word \<Rightarrow> (64 word \<times> ('k \<times> 'v) list) option" where
  "dictScan d v =
     (if dictSize d = 0 then Some (0, [])
      else if \<not> dictIsRehashing d then do {
        let m0 = DICTHT_SIZE_MASK (ht_size_exp d 0);
        b \<leftarrow> get_bucket d 0 (unat (v AND m0));
        Some (scan_next m0 v, b)
      }
      else do {
        let (htidx0, htidx1) =
          (if DICTHT_SIZE (ht_size_exp d 0) > DICTHT_SIZE (ht_size_exp d 1) then (1, 0) else (0, 1));
        let m0 = DICTHT_SIZE_MASK (ht_size_exp d htidx0);
        let m1 = DICTHT_SIZE_MASK (ht_size_exp d htidx1);
        b \<leftarrow> get_bucket d htidx0 (unat (v AND m0));
        dictScan_loop d htidx1 m0 m1 v b
      })"

text \<open>A sequence of calls, each on the dictionary as it is then: the cursor returned by one call
  is passed to the next.\<close>

primrec dictScan_calls ::
  "('k, 'v) dict list \<Rightarrow> 64 word \<Rightarrow> (64 word \<times> ('k \<times> 'v) list) option" where
  "dictScan_calls [] v = Some (v, [])"
| "dictScan_calls (d # ds) v = do {
     (v1, em) \<leftarrow> dictScan d v;
     (v2, ems) \<leftarrow> dictScan_calls ds v1;
     Some (v2, em @ ems)
   }"

section \<open>Bit reversal\<close>

definition rev_swap :: "nat \<Rightarrow> nat \<Rightarrow> nat" where
  "rev_swap s i = (if even (i div s) then i + s else i - s)"

lemma rev_mask_step:
  assumes "\<forall>i < 64. bit msk i \<longleftrightarrow> even (i div (2 * s))" "0 < s" "i < 64"
  shows "bit (msk XOR push_bit s (msk :: 64 word)) i \<longleftrightarrow> even (i div s)"
proof -
  define q where "q = i div s"
  have 1: "i div (2 * s) = q div 2" by (simp add: q_def div_mult2_eq mult.commute)
  have "(i - s) div s = q - 1"
    using assms(2) by (cases "s \<le> i") (simp_all add: q_def le_div_geq)
  then have 2: "(i - s) div (2 * s) = (q - 1) div 2" by (simp add: div_mult2_eq mult.commute [of 2])
  have 3: "s \<le> i \<longleftrightarrow> 0 < q" using assms(2) by (simp add: q_def div_greater_zero_iff)
  have "(even (q div 2) \<noteq> (0 < q \<and> even ((q - 1) div 2))) \<longleftrightarrow> even q" by presburger
  then show ?thesis
    using assms(1,3) 1 2 3 by (auto simp: bit_simps q_def [symmetric])
qed

lemma rev_value_step:
  assumes "\<forall>i < 64. bit msk i \<longleftrightarrow> even (i div s)" "0 < s" "i < 64"
  shows "bit ((drop_bit s v AND msk) OR (push_bit s v AND NOT msk) :: 64 word) i \<longleftrightarrow>
    bit v (rev_swap s i)"
proof -
  have "s \<le> i" if "odd (i div s)"
    using that by (metis div_less dvd_0_right not_less)
  then show ?thesis
    using assms bit_imp_le_length [of v "i + s"] by (auto simp: bit_simps rev_swap_def add.commute)
qed

lemma rev_loop_step:
  assumes m: "\<forall>i < 64. bit msk i \<longleftrightarrow> even (i div (2 * s))" and s: "0 < s"
    and v: "\<forall>i < 64. bit v i \<longleftrightarrow> bit w (f i)"
    and r: "\<forall>i < 64. rev_swap s i < 64"
  shows "\<exists>msk' v'. rev_loop (2 * s) msk v = rev_loop s msk' v' \<and>
    (\<forall>i < 64. bit msk' i \<longleftrightarrow> even (i div s)) \<and>
    (\<forall>i < 64. bit v' i \<longleftrightarrow> bit w (f (rev_swap s i)))"
proof -
  define msk' where "msk' = msk XOR push_bit s msk"
  define v' where "v' = (drop_bit s v AND msk') OR (push_bit s v AND NOT msk')"
  have m': "\<forall>i < 64. bit msk' i \<longleftrightarrow> even (i div s)"
    using rev_mask_step [OF m s] by (simp add: msk'_def)
  have "\<forall>i < 64. bit v' i \<longleftrightarrow> bit w (f (rev_swap s i))"
    using rev_value_step [OF m' s] v r by (simp add: v'_def)
  moreover have "rev_loop (2 * s) msk v = rev_loop s msk' v'"
    using s by (subst rev_loop.simps) (simp add: Let_def msk'_def v'_def)
  ultimately show ?thesis using m' by blast
qed

lemma rev_swap_range:
  "\<forall>i < 64. rev_swap 32 i < 64" "\<forall>i < 64. rev_swap 16 i < 64" "\<forall>i < 64. rev_swap 8 i < 64"
  "\<forall>i < 64. rev_swap 4 i < 64" "\<forall>i < 64. rev_swap 2 i < 64" "\<forall>i < 64. rev_swap 1 i < 64"
proof -
  have "\<forall>s \<in> {32, 16, 8, 4, 2, 1}. \<forall>i \<in> {0..<64}. rev_swap s i < 64"
    by code_simp
  then show "\<forall>i < 64. rev_swap 32 i < 64" "\<forall>i < 64. rev_swap 16 i < 64" "\<forall>i < 64. rev_swap 8 i < 64"
  "\<forall>i < 64. rev_swap 4 i < 64" "\<forall>i < 64. rev_swap 2 i < 64" "\<forall>i < 64. rev_swap 1 i < 64"
    by simp_all
qed

lemmas rev_swap_eval =
  rev_swap_def [of "numeral s" "numeral n"] rev_swap_def [of "numeral s" 0]
  rev_swap_def [of "numeral s" 1] rev_swap_def [of 1 "numeral n"] rev_swap_def [of 1 0]
  rev_swap_def [of 1 1] for s n

lemma rev_swap_all:
  assumes "i < 64"
  shows "rev_swap 32 (rev_swap 16 (rev_swap 8 (rev_swap 4 (rev_swap 2 (rev_swap 1 i))))) = 63 - i"
proof -
  have "\<forall>i \<in> set [0..<64].
    rev_swap 32 (rev_swap 16 (rev_swap 8 (rev_swap 4 (rev_swap 2 (rev_swap 1 i))))) = 63 - i"
    by (simp add: rev_swap_eval upt_rec [of 0 64] upt_rec [of 1 64] One_nat_def [symmetric] del: set_upt)
  then show ?thesis using assms by simp
qed

text \<open>\<open>rev\<close> reverses the bits.\<close>

lemma bit_dict_rev: "bit (dict_rev v) i \<longleftrightarrow> i < 64 \<and> bit v (63 - i)"
proof (cases "i < 64")
  case True
  have m: "\<forall>i < 64. bit (NOT 0 :: 64 word) i \<longleftrightarrow> even (i div (2 * 32))"
    by (simp add: bit_simps)
  obtain m1 v1 where 1: "rev_loop 64 (NOT 0) v = rev_loop 32 m1 v1"
    "\<forall>i < 64. bit m1 i \<longleftrightarrow> even (i div (2 * 16))" "\<forall>i < 64. bit v1 i \<longleftrightarrow> bit v (rev_swap 32 i)"
    using rev_loop_step [OF m _ _ rev_swap_range(1), of v v "\<lambda>i. i"] by auto
  obtain m2 v2 where 2: "rev_loop 32 m1 v1 = rev_loop 16 m2 v2"
    "\<forall>i < 64. bit m2 i \<longleftrightarrow> even (i div (2 * 8))"
    "\<forall>i < 64. bit v2 i \<longleftrightarrow> bit v (rev_swap 32 (rev_swap 16 i))"
    using rev_loop_step [OF 1(2) _ 1(3) rev_swap_range(2)] by auto
  obtain m3 v3 where 3: "rev_loop 16 m2 v2 = rev_loop 8 m3 v3"
    "\<forall>i < 64. bit m3 i \<longleftrightarrow> even (i div (2 * 4))"
    "\<forall>i < 64. bit v3 i \<longleftrightarrow> bit v (rev_swap 32 (rev_swap 16 (rev_swap 8 i)))"
    using rev_loop_step [OF 2(2) _ 2(3) rev_swap_range(3)] by auto
  obtain m4 v4 where 4: "rev_loop 8 m3 v3 = rev_loop 4 m4 v4"
    "\<forall>i < 64. bit m4 i \<longleftrightarrow> even (i div (2 * 2))"
    "\<forall>i < 64. bit v4 i \<longleftrightarrow> bit v (rev_swap 32 (rev_swap 16 (rev_swap 8 (rev_swap 4 i))))"
    using rev_loop_step [OF 3(2) _ 3(3) rev_swap_range(4)] by auto
  obtain m5 v5 where 5: "rev_loop 4 m4 v4 = rev_loop 2 m5 v5"
    "\<forall>i < 64. bit m5 i \<longleftrightarrow> even (i div (2 * 1))"
    "\<forall>i < 64. bit v5 i \<longleftrightarrow>
       bit v (rev_swap 32 (rev_swap 16 (rev_swap 8 (rev_swap 4 (rev_swap 2 i)))))"
    using rev_loop_step [OF 4(2) _ 4(3) rev_swap_range(5)] by auto
  obtain m6 v6 where 6: "rev_loop 2 m5 v5 = rev_loop 1 m6 v6"
    "\<forall>i < 64. bit v6 i \<longleftrightarrow>
       bit v (rev_swap 32 (rev_swap 16 (rev_swap 8 (rev_swap 4 (rev_swap 2 (rev_swap 1 i))))))"
    using rev_loop_step [OF 5(2) _ 5(3) rev_swap_range(6)] by auto
  have "dict_rev v = v6"
    unfolding dict_rev_def 1(1) 2(1) 3(1) 4(1) 5(1) 6(1) by (subst rev_loop.simps) simp
  then show ?thesis using 6(2) True rev_swap_all [OF True] by simp
qed (use bit_imp_le_length [of "dict_rev v" i] in auto)

lemma dict_rev_rev [simp]: "dict_rev (dict_rev v) = v"
  by (rule bit_eqI) (auto simp: bit_dict_rev bit_imp_le_length dest: bit_imp_le_length)

section \<open>Cursors as positions\<close>

text \<open>The position of a cursor, or of a hash, in the order in which the scan goes.\<close>

definition scan_pos :: "64 word \<Rightarrow> nat" where
  "scan_pos v = unat (dict_rev v)"

lemma scan_pos_less: "scan_pos v < 2 ^ 64"
  using unsigned_less [of "dict_rev v"] by (simp add: scan_pos_def)

lemma scan_pos_0 [simp]: "scan_pos v = 0 \<longleftrightarrow> v = 0"
proof -
  have "dict_rev 0 = 0" by (rule bit_eqI) (simp add: bit_dict_rev)
  then show ?thesis by (metis dict_rev_rev scan_pos_def unsigned_0 unsigned_eq_0_iff)
qed

lemma scan_pos_zero [simp]: "scan_pos 0 = 0"
  by simp

lemma DICTHT_SIZE_MASK_mask: "0 \<le> e \<Longrightarrow> DICTHT_SIZE_MASK e = mask (nat e)"
  by (simp add: DICTHT_SIZE_MASK_def DICTHT_SIZE_def mask_eq_exp_minus_1)

lemma or_mask_nat: "((a :: nat) OR mask n) = a div 2 ^ n * 2 ^ n + mask n"
proof -
  have "a OR mask n = push_bit n (drop_bit n a) OR mask n"
    by (rule bit_eqI) (auto simp: bit_simps)
  also have "\<dots> = push_bit n (drop_bit n a) + mask n"
    by (rule disjunctive_add_eq_or [symmetric]) (rule bit_eqI, auto simp: bit_simps)
  finally show ?thesis by (simp add: push_bit_eq_mult drop_bit_eq_div)
qed

lemma scan_pos_next:
  assumes "e \<le> 64"
  shows "scan_pos (scan_next (mask e) v) =
    (scan_pos v div 2 ^ (64 - e) + 1) * 2 ^ (64 - e) mod 2 ^ 64"
proof -
  define n where "n = 64 - e"
  have m: "mask n + 1 = (2 :: nat) ^ n" by (simp add: Suc_mask_eq_exp flip: Suc_eq_plus1)
  have "dict_rev (v OR NOT (mask e)) = dict_rev v OR mask n"
    using assms by (intro bit_eqI) (auto simp: bit_dict_rev bit_simps n_def)
  then have "scan_pos (scan_next (mask e) v) = unat ((dict_rev v OR mask n) + 1)"
    by (simp add: scan_pos_def scan_next_def)
  also have "\<dots> = (unat (dict_rev v OR mask n) + 1) mod 2 ^ 64"
    by (simp add: unat_word_ariths)
  also have "unat (dict_rev v OR mask n) = unat (dict_rev v) OR mask n"
    by (rule bit_eqI) (auto simp: bit_simps n_def)
  also have "\<dots> + 1 = (scan_pos v div 2 ^ n + 1) * 2 ^ n"
    using m by (simp only: or_mask_nat scan_pos_def add_mult_distrib mult_1 add.assoc)
  finally show ?thesis by (simp add: n_def)
qed

lemma scan_pos_bucket:
  assumes "e \<le> 64"
  shows "h AND mask e = v AND mask e \<longleftrightarrow> scan_pos h div 2 ^ (64 - e) = scan_pos v div 2 ^ (64 - e)"
proof -
  have "h AND mask e = v AND mask e \<longleftrightarrow>
      drop_bit (64 - e) (dict_rev h) = drop_bit (64 - e) (dict_rev v)" (is "?L \<longleftrightarrow> ?R")
  proof
    assume ?L
    then have "bit (h AND mask e) i = bit (v AND mask e) i" for i by simp
    then have *: "i < e \<Longrightarrow> bit h i = bit v i" for i by (simp add: bit_simps) (metis assms le_trans less_le_trans)
    show ?R
      by (rule bit_eqI) (use assms * in \<open>auto simp: bit_simps bit_dict_rev\<close>)
  next
    assume ?R
    then have "bit (drop_bit (64 - e) (dict_rev h)) j = bit (drop_bit (64 - e) (dict_rev v)) j" for j
      by simp
    then have **: "64 - e + j < 64 \<Longrightarrow> bit h (63 - (64 - e + j)) = bit v (63 - (64 - e + j))" for j
      unfolding bit_drop_bit_eq comp_def bit_dict_rev by blast
    have "bit h i = bit v i" if "i < e" for i
      using ** [of "e - 1 - i"] that assms by simp
    then show ?L by (intro bit_eqI) (auto simp: bit_simps)
  qed
  also have "\<dots> \<longleftrightarrow> unat (drop_bit (64 - e) (dict_rev h)) = unat (drop_bit (64 - e) (dict_rev v))"
    by (rule word_unat_eq_iff)
  finally show ?thesis
    by (simp only: unat_drop_bit_eq drop_bit_eq_div [where ?'a = nat] scan_pos_def)
qed

lemma scan_pos_diff:
  assumes "e0 \<le> e1" "e1 \<le> 64"
  shows "v AND (mask e0 XOR mask e1) = 0 \<longleftrightarrow>
    scan_pos v mod 2 ^ (64 - e0) div 2 ^ (64 - e1) = 0"
proof -
  have "v AND (mask e0 XOR mask e1) = 0 \<longleftrightarrow>
      drop_bit (64 - e1) (take_bit (64 - e0) (dict_rev v)) = 0" (is "?L \<longleftrightarrow> ?R")
  proof
    assume ?L
    then have "bit (v AND (mask e0 XOR mask e1)) i = False" for i by simp
    then have *: "\<not> bit v i" if "e0 \<le> i" "i < e1" for i
      using assms that by (simp add: bit_simps) (metis less_le_trans not_less)
    show ?R
      by (rule bit_eqI) (use assms * in \<open>auto simp: bit_simps bit_dict_rev\<close>)
  next
    assume ?R
    then have "bit (drop_bit (64 - e1) (take_bit (64 - e0) (dict_rev v))) j = False" for j by simp
    then have **: "64 - e1 + j < 64 - e0 \<Longrightarrow> \<not> bit v (63 - (64 - e1 + j))" for j
      using assms by (auto simp: bit_simps bit_dict_rev)
    have "\<not> bit v i" if "e0 \<le> i" "i < e1" for i
      using ** [of "e1 - 1 - i"] that assms by simp
    then have "\<not> (bit v i \<and> (i < e0) \<noteq> (i < e1))" for i
      using assms(1) by (meson less_le_trans not_less)
    then show ?L by (intro bit_eqI) (auto simp: bit_simps)
  qed
  also have "\<dots> \<longleftrightarrow> unat (drop_bit (64 - e1) (take_bit (64 - e0) (dict_rev v))) = 0"
    by (simp add: word_unat_eq_iff [of _ 0])
  finally show ?thesis
    by (simp only: unat_drop_bit_eq unsigned_take_bit_eq drop_bit_eq_div [where ?'a = nat]
        take_bit_eq_mod [where ?'a = nat] scan_pos_def)
qed

text \<open>The end of the stretch of positions that one step with a table of \<open>2 ^ e\<close> buckets covers.\<close>

definition scan_end :: "nat \<Rightarrow> nat \<Rightarrow> nat" where
  "scan_end e p = (p div 2 ^ (64 - e) + 1) * 2 ^ (64 - e)"

lemma scan_end_gt: "p < scan_end e p"
  by (simp add: scan_end_def div_less_iff_less_mult [symmetric])

lemma scan_end_le:
  assumes "p < 2 ^ 64" shows "scan_end e p \<le> 2 ^ 64"
proof -
  have d: "(2 :: nat) ^ 64 = 2 ^ (64 - min e 64) * 2 ^ min e 64"
    by (simp flip: power_add)
  have "p div 2 ^ (64 - min e 64) < 2 ^ min e 64"
    using assms d by (simp add: div_less_iff_less_mult mult.commute)
  then have "(p div 2 ^ (64 - min e 64) + 1) * 2 ^ (64 - min e 64) \<le> 2 ^ min e 64 * 2 ^ (64 - min e 64)"
    by (intro mult_le_mono1) simp
  moreover have "64 - min e 64 = 64 - e" by simp
  ultimately show ?thesis using d unfolding scan_end_def by (metis mult.commute)
qed

text \<open>A bucket of a well-formed table holds every entry of the table whose position is in the
  stretch of the cursor.\<close>

lemma scan_bucket:
  assumes t: "table_ok d t" and e: "0 \<le> ht_size_exp d t"
  defines "n \<equiv> nat (ht_size_exp d t)"
  shows "unat (v AND DICTHT_SIZE_MASK (ht_size_exp d t)) < length (ht_table d t)"
    and "\<lbrakk>x \<in> set (table_entries d t);
       scan_pos (dictHashKey d (fst x)) div 2 ^ (64 - n) = scan_pos v div 2 ^ (64 - n)\<rbrakk> \<Longrightarrow>
      x \<in> set (ht_table d t ! unat (v AND DICTHT_SIZE_MASK (ht_size_exp d t)))"
proof -
  show "unat (v AND DICTHT_SIZE_MASK (ht_size_exp d t)) < length (ht_table d t)"
    using ht_index_less [OF t e, of v] by (simp add: ht_index_def)
  have n: "n \<le> 64" using t by (auto simp: table_ok_def n_def)
  assume x: "x \<in> set (table_entries d t)"
    "scan_pos (dictHashKey d (fst x)) div 2 ^ (64 - n) = scan_pos v div 2 ^ (64 - n)"
  from x(1) obtain i where i: "i < length (ht_table d t)" "x \<in> set (ht_table d t ! i)"
    unfolding table_entries_def set_concat_nth by blast
  have "dictHashKey d (fst x) AND mask n = v AND mask n"
    using x(2) by (simp only: scan_pos_bucket [OF n])
  moreover have "ht_index d t (dictHashKey d (fst x)) = i" using t i by (simp add: table_ok_def)
  ultimately have "i = unat (v AND DICTHT_SIZE_MASK (ht_size_exp d t))"
    using e by (simp add: ht_index_def DICTHT_SIZE_MASK_mask n_def)
  then show "x \<in> set (ht_table d t ! unat (v AND DICTHT_SIZE_MASK (ht_size_exp d t)))"
    using i(2) by simp
qed

lemma scan_end_stretch:
  assumes "p div 2 ^ (64 - e) * 2 ^ (64 - e) \<le> q" "q < scan_end e p"
  shows "q div 2 ^ (64 - e) = p div 2 ^ (64 - e)"
proof -
  have "q < Suc (p div 2 ^ (64 - e)) * 2 ^ (64 - e)" using assms(2) unfolding scan_end_def Suc_eq_plus1 .
  then show ?thesis using assms(1) by (intro div_nat_eqI) (simp_all add: mult.commute)
qed

lemma dictScan_loop_ok:
  assumes t: "table_ok d t" and e1: "0 \<le> ht_size_exp d t"
  defines "n \<equiv> nat (ht_size_exp d t)"
  assumes le: "m \<le> n"
  shows "\<exists>v' em. dictScan_loop d t (mask m) (mask n) v acc = Some (v', acc @ em) \<and>
    scan_pos v' = scan_end m (scan_pos v) mod 2 ^ 64 \<and>
    (\<forall>x \<in> set (table_entries d t).
       scan_pos v \<le> scan_pos (dictHashKey d (fst x)) \<and>
       scan_pos (dictHashKey d (fst x)) < scan_end m (scan_pos v) \<longrightarrow> x \<in> set em)"
proof (induction "scan_end m (scan_pos v) - scan_pos v" arbitrary: v acc rule: less_induct)
  case less
  define S0 S1 :: nat where "S0 = 2 ^ (64 - m)" and "S1 = 2 ^ (64 - n)"
  have n: "n \<le> 64" using t by (auto simp: table_ok_def n_def)
  then have dv: "S1 dvd S0" using le by (simp add: S0_def S1_def le_imp_power_dvd)
  define p where "p = scan_pos v"
  have p: "p < 2 ^ 64" by (simp only: p_def scan_pos_less)
  have mk: "DICTHT_SIZE_MASK (ht_size_exp d t) = mask n" using e1 by (simp add: DICTHT_SIZE_MASK_mask n_def)
  define b where "b = ht_table d t ! unat (v AND mask n)"
  have g: "get_bucket d t (unat (v AND mask n)) = Some b"
    using scan_bucket(1) [OF t e1, of v] by (simp add: get_bucket_def mk b_def)
  define v1 where "v1 = scan_next (mask n) v"
  have v1: "scan_pos v1 = scan_end n p mod 2 ^ 64"
    using scan_pos_next [OF n, of v] by (simp add: v1_def scan_end_def p_def)
  have inb: "x \<in> set b" if "x \<in> set (table_entries d t)" "p \<le> scan_pos (dictHashKey d (fst x))"
    "scan_pos (dictHashKey d (fst x)) < scan_end n p" for x
  proof -
    have "p div 2 ^ (64 - n) * 2 ^ (64 - n) \<le> scan_pos (dictHashKey d (fst x))"
      using that(2) by (meson div_times_less_eq_dividend le_trans)
    then have "scan_pos (dictHashKey d (fst x)) div 2 ^ (64 - n) = p div 2 ^ (64 - n)"
      using that(3) by (rule scan_end_stretch)
    then show ?thesis
      using scan_bucket(2) [OF t e1 that(1), of v] unfolding mk b_def p_def n_def by blast
  qed
  have E1: "scan_end n p \<le> scan_end m p"
  proof -
    have "p < scan_end m p" by (rule scan_end_gt)
    moreover have "S1 dvd scan_end m p" using dv by (simp add: scan_end_def S0_def [symmetric])
    then obtain k where k: "scan_end m p = k * S1" by (metis dvd_def mult.commute)
    ultimately have "p div S1 < k" by (simp add: div_less_iff_less_mult S1_def)
    then have "(p div S1 + 1) * S1 \<le> k * S1" by (intro mult_le_mono1) simp
    then show ?thesis unfolding k by (simp only: scan_end_def S1_def)
  qed
  have step: "dictScan_loop d t (mask m) (mask n) v acc =
      (if v1 AND (mask m XOR mask n) \<noteq> 0 then dictScan_loop d t (mask m) (mask n) v1 (acc @ b)
       else Some (v1, acc @ b))"
    using g by (subst dictScan_loop.simps) (simp add: v1_def Let_def)
  have test: "v1 AND (mask m XOR mask n) = 0 \<longleftrightarrow> S0 dvd scan_pos v1"
  proof -
    have "S1 dvd (2 :: nat) ^ 64" unfolding S1_def by (rule le_imp_power_dvd) simp
    moreover have "S1 dvd scan_end n p" unfolding scan_end_def S1_def by simp
    ultimately have s1: "S1 dvd scan_pos v1" unfolding v1 by (rule dvd_mod [rotated])
    have "v1 AND (mask m XOR mask n) = 0 \<longleftrightarrow> scan_pos v1 mod S0 div S1 = 0"
      using scan_pos_diff [OF le n, of v1] by (simp add: S0_def S1_def)
    also have "S1 dvd scan_pos v1 mod S0" using s1 dv by (simp add: dvd_mod)
    then have "scan_pos v1 mod S0 div S1 = 0 \<longleftrightarrow> scan_pos v1 mod S0 = 0"
      by (auto simp: S1_def elim!: dvdE)
    finally show ?thesis by (simp add: dvd_eq_mod_eq_0)
  qed
  have dvE: "S0 dvd scan_end m p" by (simp add: scan_end_def S0_def)
  have d64: "S0 dvd (2 :: nat) ^ 64" unfolding S0_def by (rule le_imp_power_dvd) simp
  show ?case
  proof (cases "scan_end n p = scan_end m p")
    case True
    then have "S0 dvd scan_pos v1" unfolding v1 using dvE d64 by (simp only: dvd_mod)
    then have "dictScan_loop d t (mask m) (mask n) v acc = Some (v1, acc @ b)"
      using step test by simp
    then show ?thesis using v1 inb True by (auto simp: p_def)
  next
    case False
    then have lt: "scan_end n p < scan_end m p" using E1 by simp
    moreover have "scan_end m p \<le> 2 ^ 64" by (rule scan_end_le [OF p])
    ultimately have v1': "scan_pos v1 = scan_end n p" unfolding v1 by simp
    have q: "scan_end n p div S0 = p div S0"
    proof -
      have "p div 2 ^ (64 - m) * 2 ^ (64 - m) \<le> scan_end n p"
        using scan_end_gt [of p n] by (meson div_times_less_eq_dividend le_trans less_imp_le)
      then show ?thesis using scan_end_stretch [OF _ lt] by (simp add: S0_def)
    qed
    have E: "scan_end m (scan_pos v1) = scan_end m p"
      using q by (simp add: v1' scan_end_def S0_def)
    have "\<not> S0 dvd scan_end n p"
    proof
      assume "S0 dvd scan_end n p"
      then have "scan_end n p = p div S0 * S0" using q by (metis dvd_div_mult_self)
      then show False
        using scan_end_gt [of p n] div_times_less_eq_dividend [of p S0] by simp
    qed
    then have go: "dictScan_loop d t (mask m) (mask n) v acc =
        dictScan_loop d t (mask m) (mask n) v1 (acc @ b)"
      using step test v1' by simp
    have "scan_end m (scan_pos v1) - scan_pos v1 < scan_end m (scan_pos v) - scan_pos v"
      using E v1' lt scan_end_gt [of p n] by (simp add: p_def)
    from less.hyps [OF this, of "acc @ b"] obtain v' em where v':
      "dictScan_loop d t (mask m) (mask n) v1 (acc @ b) = Some (v', (acc @ b) @ em)"
      "scan_pos v' = scan_end m p mod 2 ^ 64"
      "\<forall>x \<in> set (table_entries d t).
         scan_end n p \<le> scan_pos (dictHashKey d (fst x)) \<and>
         scan_pos (dictHashKey d (fst x)) < scan_end m p \<longrightarrow> x \<in> set em"
      unfolding E unfolding v1' by blast
    have "x \<in> set (b @ em)" if "x \<in> set (table_entries d t)"
      "scan_pos v \<le> scan_pos (dictHashKey d (fst x))"
      "scan_pos (dictHashKey d (fst x)) < scan_end m (scan_pos v)" for x
      using v'(3) inb [OF that(1)] that
      by (cases "scan_end n p \<le> scan_pos (dictHashKey d (fst x))") (auto simp: p_def)
    then show ?thesis
      using go v'(1,2) by (intro exI [of _ v'] exI [of _ "b @ em"]) (simp add: p_def)
  qed
qed

section \<open>Calls and scans\<close>

text \<open>One call: the returned cursor is further on, or 0 at the end, and every entry between the
  two cursors has been emitted.\<close>

definition scan_stop :: "64 word \<Rightarrow> nat" where
  "scan_stop v' = (if v' = 0 then 2 ^ 64 else scan_pos v')"

lemma scan_stop_eq:
  assumes "scan_pos v' = E mod 2 ^ 64" "0 < E" "E \<le> 2 ^ 64"
  shows "scan_stop v' = E"
proof (cases "E = 2 ^ 64")
  case True
  then have "v' = 0" using assms(1) by simp
  then show ?thesis using True by (simp add: scan_stop_def)
next
  case False
  then have "scan_pos v' = E" using assms by simp
  moreover from this have "v' \<noteq> 0" using assms(2) by (simp flip: scan_pos_0)
  ultimately show ?thesis by (simp add: scan_stop_def)
qed

lemma dictScan_ok:
  assumes ok: "dict_ok d" and ne: "dictSize d \<noteq> 0"
  shows "\<exists>v' em m. dictScan d v = Some (v', em) \<and>
    scan_stop v' = scan_end m (scan_pos v) \<and> int m \<le> ht_size_exp d 0 \<and>
    (\<forall>x \<in> set (dict_entries d).
       scan_pos v \<le> scan_pos (dictHashKey d (fst x)) \<and>
       scan_pos (dictHashKey d (fst x)) < scan_stop v' \<longrightarrow> x \<in> set em)"
proof (cases "dictIsRehashing d")
  case False
  define n where "n = nat (ht_size_exp d 0)"
  have t: "table_ok d 0" and e: "0 \<le> ht_size_exp d 0"
    using ok dict_alloc [OF ok ne] by (simp_all add: dict_ok_def)
  have n: "n \<le> 64" using t by (auto simp: table_ok_def n_def)
  have mk: "DICTHT_SIZE_MASK (ht_size_exp d 0) = mask n" using e by (simp add: DICTHT_SIZE_MASK_mask n_def)
  define b where "b = ht_table d 0 ! unat (v AND mask n)"
  have "scan_stop (scan_next (mask n) v) = scan_end n (scan_pos v)"
    using scan_pos_next [OF n, of v] scan_end_le [OF scan_pos_less] scan_end_gt [of "scan_pos v" n]
    by (intro scan_stop_eq) (simp_all add: scan_end_def)
  moreover have "int n \<le> ht_size_exp d 0" using e by (simp add: n_def)
  moreover have "dictScan d v = Some (scan_next (mask n) v, b)"
    using False ne scan_bucket(1) [OF t e, of v]
    by (simp add: dictScan_def get_bucket_def mk b_def Let_def)
  moreover have "x \<in> set b" if "x \<in> set (dict_entries d)"
    "scan_pos v \<le> scan_pos (dictHashKey d (fst x))"
    "scan_pos (dictHashKey d (fst x)) < scan_end n (scan_pos v)" for x
  proof -
    have "x \<in> set (table_entries d 0)"
      using that(1) ok False by (simp add: dict_entries_def dict_ok_def dictIsRehashing_def table_unallocated)
    moreover have "scan_pos v div 2 ^ (64 - n) * 2 ^ (64 - n) \<le> scan_pos (dictHashKey d (fst x))"
      using that(2) by (meson div_times_less_eq_dividend le_trans)
    then have "scan_pos (dictHashKey d (fst x)) div 2 ^ (64 - n) = scan_pos v div 2 ^ (64 - n)"
      using that(3) by (rule scan_end_stretch)
    ultimately show ?thesis
      using scan_bucket(2) [OF t e, of x v] unfolding mk b_def n_def by blast
  qed
  ultimately show ?thesis
    by (intro exI [of _ "scan_next (mask n) v"] exI [of _ b] exI [of _ n]) simp
next
  case True
  note D = dict_rehashingD [OF ok True]
  have ts: "table_ok d 0" "table_ok d 1" using ok by (simp_all add: dict_ok_def)
  define s l :: nat where "s = (if DICTHT_SIZE (ht_size_exp d 0) > DICTHT_SIZE (ht_size_exp d 1) then 1 else 0)"
    and "l = 1 - s"
  have sl: "(if DICTHT_SIZE (ht_size_exp d 0) > DICTHT_SIZE (ht_size_exp d 1) then (1, 0) else (0, 1)) = (s, l)"
    by (simp add: s_def l_def)
  have es: "0 \<le> ht_size_exp d s" "0 \<le> ht_size_exp d l" and tsl: "table_ok d s" "table_ok d l"
    using D(3,4) ts by (simp_all add: s_def l_def)
  define m n where "m = nat (ht_size_exp d s)" and "n = nat (ht_size_exp d l)"
  have "DICTHT_SIZE (ht_size_exp d s) \<le> DICTHT_SIZE (ht_size_exp d l)"
    by (simp add: s_def l_def)
  then have le: "m \<le> n" using es by (simp add: DICTHT_SIZE_def m_def n_def)
  have mk: "DICTHT_SIZE_MASK (ht_size_exp d s) = mask m" "DICTHT_SIZE_MASK (ht_size_exp d l) = mask n"
    using es by (simp_all add: DICTHT_SIZE_MASK_mask m_def n_def)
  define b where "b = ht_table d s ! unat (v AND mask m)"
  have g: "get_bucket d s (unat (v AND mask m)) = Some b"
    using scan_bucket(1) [OF tsl(1) es(1), of v] by (simp add: get_bucket_def mk b_def)
  obtain v' em where v': "dictScan_loop d l (mask m) (mask n) v b = Some (v', b @ em)"
    "scan_pos v' = scan_end m (scan_pos v) mod 2 ^ 64"
    "\<forall>x \<in> set (table_entries d l).
       scan_pos v \<le> scan_pos (dictHashKey d (fst x)) \<and>
       scan_pos (dictHashKey d (fst x)) < scan_end m (scan_pos v) \<longrightarrow> x \<in> set em"
    using dictScan_loop_ok [OF tsl(2) es(2), of m v b] le unfolding n_def by blast
  have st: "scan_stop v' = scan_end m (scan_pos v)"
    using v'(2) scan_end_le [OF scan_pos_less] scan_end_gt [of "scan_pos v" m]
    by (intro scan_stop_eq) simp_all
  have run: "dictScan d v = Some (v', b @ em)"
    using True ne g v'(1) unfolding dictScan_def sl by (simp add: mk Let_def)
  have "x \<in> set b" if "x \<in> set (table_entries d s)"
    "scan_pos v \<le> scan_pos (dictHashKey d (fst x))"
    "scan_pos (dictHashKey d (fst x)) < scan_end m (scan_pos v)" for x
  proof -
    have "scan_pos v div 2 ^ (64 - m) * 2 ^ (64 - m) \<le> scan_pos (dictHashKey d (fst x))"
      using that(2) by (meson div_times_less_eq_dividend le_trans)
    then have "scan_pos (dictHashKey d (fst x)) div 2 ^ (64 - m) = scan_pos v div 2 ^ (64 - m)"
      using that(3) by (rule scan_end_stretch)
    then show ?thesis
      using scan_bucket(2) [OF tsl(1) es(1) that(1), of v] unfolding mk b_def m_def by blast
  qed
  moreover have "set (dict_entries d) = set (table_entries d s) \<union> set (table_entries d l)"
    by (auto simp: dict_entries_def s_def l_def)
  moreover have "int m \<le> ht_size_exp d 0" using es(1) le D(3) by (auto simp: m_def n_def s_def l_def)
  ultimately show ?thesis
    using run st v'(3) by (intro exI [of _ v'] exI [of _ "b @ em"] exI [of _ m]) auto
qed

lemma dictScan_calls_cover:
  assumes "dictScan_calls ds v = Some (0, em)" "ds \<noteq> []"
    and "\<forall>d \<in> set ds. dict_ok d \<and> hashFunction (d_type d) = hf \<and> key \<in> dom (dict_map d)"
    and "scan_pos v \<le> scan_pos (hf key)"
  shows "key \<in> fst ` set em"
  using assms
proof (induction ds arbitrary: v em)
  case (Cons d ds)
  have ok: "dict_ok d" and hf: "dictHashKey d key = hf key" and k: "key \<in> dom (dict_map d)"
    using Cons.prems(3) by (simp_all add: dictHashKey_def)
  obtain x where x: "x \<in> set (dict_entries d)" "fst x = key"
    using k by (auto simp: dict_map_def dest: map_of_SomeD)
  then have "dictSize d \<noteq> 0" using dictSize_eq [OF ok] by auto
  then obtain v1 em1 where 1: "dictScan d v = Some (v1, em1)"
    "\<forall>x \<in> set (dict_entries d).
       scan_pos v \<le> scan_pos (dictHashKey d (fst x)) \<and>
       scan_pos (dictHashKey d (fst x)) < scan_stop v1 \<longrightarrow> x \<in> set em1"
    using dictScan_ok [OF ok] by blast
  obtain em2 where 2: "dictScan_calls ds v1 = Some (0, em2)" "em = em1 @ em2"
    using Cons.prems(1) 1(1) by (auto split: bind_splits)
  show ?case
  proof (cases "scan_pos (hf key) < scan_stop v1")
    case True
    then have "x \<in> set em1" using 1(2) x Cons.prems(4) hf by auto
    then show ?thesis using 2(2) x(2) by auto
  next
    case False
    have v1: "v1 \<noteq> 0" using False scan_pos_less [of "hf key"] by (auto simp: scan_stop_def)
    then have "scan_pos v1 \<le> scan_pos (hf key)" using False by (simp add: scan_stop_def)
    moreover have "ds \<noteq> []" using 2(1) v1 by (cases ds) auto
    ultimately have "key \<in> fst ` set em2"
      using Cons.IH [OF 2(1)] Cons.prems(3) by simp
    then show ?thesis using 2(2) by auto
  qed
qed simp

text \<open>No call fails, and the cursor moves on by a bucket of the larger table at least, so a scan
  ends.\<close>

lemma dictScan_calls_total:
  assumes "\<forall>d \<in> set ds. dict_ok d"
  shows "\<exists>v' em. dictScan_calls ds v = Some (v', em)"
  using assms
proof (induction ds arbitrary: v)
  case (Cons d ds)
  obtain v1 em1 where "dictScan d v = Some (v1, em1)"
    using dictScan_ok [of d v] Cons.prems by (cases "dictSize d = 0") (auto simp: dictScan_def)
  moreover obtain v2 em2 where "dictScan_calls ds v1 = Some (v2, em2)" using Cons by force
  ultimately show ?case by simp
qed simp

lemma dvd_less_add:
  assumes "(a :: nat) < b" "s dvd a" "s dvd b"
  shows "a + s \<le> b"
proof -
  obtain i j where ij: "a = s * i" "b = s * j" using assms(2,3) by (auto simp: dvd_def)
  then have "i < j" using assms(1) by auto
  then have "s * Suc i \<le> s * j" by (intro mult_le_mono2) simp
  then show ?thesis using ij by simp
qed

lemma dictScan_progress:
  assumes "dict_ok d" "ht_size_exp d 0 \<le> int E" "E \<le> 64"
    "dictScan d v = Some (v', em)" "v' \<noteq> 0" "2 ^ (64 - E) dvd scan_pos v"
  shows "2 ^ (64 - E) dvd scan_pos v'" "scan_pos v + 2 ^ (64 - E) \<le> scan_pos v'"
proof -
  have "dictSize d = 0 \<Longrightarrow> v' = 0" using assms(4) by (simp add: dictScan_def)
  then have "dictSize d \<noteq> 0" using assms(5) by blast
  then obtain m where m: "scan_stop v' = scan_end m (scan_pos v)" "int m \<le> ht_size_exp d 0"
    using dictScan_ok [OF assms(1), of v] assms(4) by auto
  have p: "scan_pos v' = scan_end m (scan_pos v)" using m(1) assms(5) by (simp add: scan_stop_def)
  have "(2 :: nat) ^ (64 - E) dvd 2 ^ (64 - m)" using m(2) assms(2) by (simp add: le_imp_power_dvd)
  then show d: "2 ^ (64 - E) dvd scan_pos v'" unfolding p scan_end_def by simp
  have "scan_pos v < scan_pos v'" unfolding p by (rule scan_end_gt)
  then show "scan_pos v + 2 ^ (64 - E) \<le> scan_pos v'"
    by (rule dvd_less_add) (rule assms(6), rule d)
qed

lemma dictScan_calls_end:
  assumes "\<forall>d \<in> set ds. dict_ok d \<and> ht_size_exp d 0 \<le> int E" "E \<le> 64"
    "2 ^ (64 - E) dvd scan_pos v" "2 ^ 64 \<le> scan_pos v + length ds * 2 ^ (64 - E)" "ds \<noteq> []"
  shows "\<exists>n em. 0 < n \<and> n \<le> length ds \<and> dictScan_calls (take n ds) v = Some (0, em)"
  using assms
proof (induction ds arbitrary: v)
  case (Cons d ds)
  have ok: "dict_ok d" and e: "ht_size_exp d 0 \<le> int E" using Cons.prems(1) by simp_all
  obtain v1 em1 where 1: "dictScan d v = Some (v1, em1)"
    using dictScan_ok [OF ok, of v] by (cases "dictSize d = 0") (auto simp: dictScan_def)
  show ?case
  proof (cases "v1 = 0")
    case True
    then show ?thesis using 1 by (intro exI [of _ 1]) (simp add: One_nat_def)
  next
    case False
    note pr = dictScan_progress [OF ok e Cons.prems(2) 1 False Cons.prems(3)]
    have l: "2 ^ 64 \<le> scan_pos v1 + length ds * 2 ^ (64 - E)"
      using Cons.prems(4) pr(2) by (simp add: algebra_simps)
    moreover from this have "ds \<noteq> []" using scan_pos_less [of v1] by auto
    ultimately obtain n em where "n \<le> length ds" "dictScan_calls (take n ds) v1 = Some (0, em)"
      using Cons.IH [OF _ Cons.prems(2) pr(1)] Cons.prems(1) by auto
    then show ?thesis using 1 by (intro exI [of _ "Suc n"]) simp
  qed
qed simp

section \<open>Properties\<close>

text \<open>C16. A full scan misses nothing: if calls of \<open>dictScan\<close>, starting with cursor 0 and each
  continuing with the cursor the previous one returned, end with cursor 0, then every key that was
  in the dictionary at each of the calls has been emitted.  Between the calls the dictionary may
  have changed in any way: it may have been expanded, shrunk, or be at any stage of rehashing in
  either direction.\<close>

theorem dictScan_complete:
  assumes "dictScan_calls ds 0 = Some (0, em)" "ds \<noteq> []"
    and "\<forall>d \<in> set ds. dict_ok d \<and> hashFunction (d_type d) = hf \<and> key \<in> dom (dict_map d)"
  shows "key \<in> fst ` set em"
  by (rule dictScan_calls_cover [OF assms]) simp

lemma mid_dict_facts:
  "dict_ok mid_dict" "hashFunction (d_type mid_dict) = of_nat" "5 \<in> dom (dict_map mid_dict)"
  "ht_size_exp mid_dict 0 = 2"
  using mid_dict_usable by (simp_all add: dict_usable_def)
    (simp_all add: mid_dict_def nat_dictType_def dict_map_def dict_entries_def table_entries_def)

theorem dictScan_complete_witness:
  "\<exists>n em. 0 < n \<and> dictScan_calls (take n (replicate 4 mid_dict)) 0 = Some (0, em) \<and>
     5 \<in> fst ` set em"
proof -
  obtain n em where n: "0 < n" "dictScan_calls (take n (replicate 4 mid_dict)) 0 = Some (0, em)"
    using dictScan_calls_end [of "replicate 4 mid_dict" 2 0] mid_dict_facts by auto
  then have "5 \<in> fst ` set em"
    using mid_dict_facts
    by (intro dictScan_complete [OF n(2), of of_nat]) (auto dest: in_set_takeD)
  then show ?thesis using n by blast
qed

text \<open>C17. A scan ends, and no call reads outside the tables: as long as the first table has at most
  \<open>2 ^ E\<close> buckets, the cursor returns to 0 within \<open>2 ^ E\<close> calls, whatever happens to the dictionary
  between them; the loop over the larger table terminates in each call.\<close>

theorem dictScan_terminates:
  assumes "\<forall>d \<in> set ds. dict_ok d \<and> ht_size_exp d 0 \<le> int E" "E \<le> 63" "2 ^ E \<le> length ds"
  shows "\<exists>n em. 0 < n \<and> n \<le> 2 ^ E \<and> dictScan_calls (take n ds) 0 = Some (0, em)"
proof -
  have "(2 :: nat) ^ 64 = 2 ^ E * 2 ^ (64 - E)" using assms(2) by (simp flip: power_add)
  then have "\<exists>n em. 0 < n \<and> n \<le> length (take (2 ^ E) ds) \<and>
      dictScan_calls (take n (take (2 ^ E) ds)) 0 = Some (0, em)"
    using assms by (intro dictScan_calls_end [where E = E]) (auto dest: in_set_takeD simp: min_def)
  then show ?thesis using assms(3) by (auto simp: min_def split: if_splits)
qed

theorem dictScan_terminates_witness:
  "\<exists>n em. 0 < n \<and> n \<le> 2 ^ 2 \<and> dictScan_calls (take n (replicate 4 mid_dict)) 0 = Some (0, em)"
  using dictScan_terminates [of "replicate 4 mid_dict" 2] mid_dict_facts by simp

end
