(* ===== verification/Util_Numbers.thy ===== *)
theory Util_Numbers
  imports Redis_Prelude
begin

text \<open>
  The conversions between numbers and strings of \<^verbatim>\<open>util.c\<close>.  Strings are byte lists without
  the terminating NUL; \<open>dec\<close> and \<open>sdec\<close> are the reference: the decimal representation of a
  natural number and of an integer.  A parser returns \<^term>\<open>None\<close> where the C function returns 0;
  in \<open>ull2string\<close> and \<open>ll2string\<close>, which write to a buffer, \<^term>\<open>None\<close> is a write outside the buffer.
\<close>

section \<open>Printing\<close>

function digits10 :: "nat \<Rightarrow> nat" where
  "digits10 v =
     (if v < 10 then 1 else if v < 100 then 2 else if v < 1000 then 3
      else if v < 1000000000000 then
        (if v < 100000000 then
           (if v < 1000000 then
              (if v < 10000 then 4 else 5 + (if v \<ge> 100000 then 1 else 0))
            else 7 + (if v \<ge> 10000000 then 1 else 0))
         else if v < 10000000000 then 9 + (if v \<ge> 1000000000 then 1 else 0)
         else 11 + (if v \<ge> 100000000000 then 1 else 0))
      else 12 + digits10 (v div 1000000000000))"
  by auto
termination by (relation "measure id") auto

declare digits10.simps [simp del]

definition sdigits10 :: "int \<Rightarrow> nat" where
  "sdigits10 v =
     (if v < 0 then
        (let uv = (if v \<noteq> INT64_MIN then nat (- v) else nat INT64_MAX + 1) in digits10 uv + 1)
      else digits10 (nat v))"

definition digit :: "nat \<Rightarrow> byte" where
  "digit d = of_nat (48 + d)"

text \<open>The two characters at position \<open>2 * i\<close> of the table \<open>"000102...99"\<close>.\<close>

definition digit_pair :: "nat \<Rightarrow> byte \<times> byte" where
  "digit_pair i = (digit (i div 10), digit (i mod 10))"

definition put :: "nat \<Rightarrow> byte \<Rightarrow> bytes \<Rightarrow> bytes option" where
  "put i b dst = (if i < length dst then Some (dst[i := b]) else None)"

definition put_before :: "nat \<Rightarrow> byte \<Rightarrow> bytes \<Rightarrow> bytes option" where
  "put_before i b dst = (if 1 \<le> i then put (i - 1) b dst else None)"

fun ull2string_loop :: "bytes \<Rightarrow> nat \<Rightarrow> nat \<Rightarrow> bytes option" where
  "ull2string_loop dst nxt val =
     (if val \<ge> 100 then do {
        let (c0, c1) = digit_pair (val mod 100);
        dst \<leftarrow> put nxt c1 dst;
        dst \<leftarrow> put_before nxt c0 dst;
        if 2 \<le> nxt then ull2string_loop dst (nxt - 2) (val div 100) else None
      }
      else if val < 10 then put nxt (digit val) dst
      else do {
        let (c0, c1) = digit_pair val;
        dst \<leftarrow> put nxt c1 dst;
        put_before nxt c0 dst
      })"

declare ull2string_loop.simps [simp del]

text \<open>The label \<open>err\<close>: force a NUL terminator and return 0.\<close>

definition string_err :: "bytes \<Rightarrow> bytes" where
  "string_err dst = (case dst of [] \<Rightarrow> [] | _ # r \<Rightarrow> 0 # r)"

text \<open>\<open>dst\<close> is the buffer, its length is \<open>dstlen\<close>.\<close>

definition ull2string :: "bytes \<Rightarrow> nat \<Rightarrow> (nat \<times> bytes) option" where
  "ull2string dst val =
     (let len = digits10 val in
      if len \<ge> length dst then Some (0, string_err dst)
      else do {
        dst \<leftarrow> put len 0 dst;
        dst \<leftarrow> ull2string_loop dst (len - 1) val;
        Some (len, dst)
      })"

definition ll2string :: "bytes \<Rightarrow> int \<Rightarrow> (nat \<times> bytes) option" where
  "ll2string dst svalue =
     (if svalue < 0 then
        (let val = (if svalue \<noteq> INT64_MIN then nat (- svalue) else nat INT64_MAX + 1) in
         if length dst < 2 then Some (0, string_err dst)
         else do {
           (len, dst') \<leftarrow> ull2string (tl dst) val;
           Some (if len = 0 then 0 else len + 1, 45 # dst')
         })
      else do {
        (len, dst') \<leftarrow> ull2string dst (nat svalue);
        Some (if len = 0 then 0 else len, dst')
      })"

section \<open>Parsing\<close>

definition is_digit :: "byte \<Rightarrow> bool" where
  "is_digit c \<longleftrightarrow> 48 \<le> unat c \<and> unat c \<le> 57"

definition digit_val :: "byte \<Rightarrow> nat" where
  "digit_val c = unat c - 48"

definition LONG_STR_SIZE :: nat where "LONG_STR_SIZE = 21"
definition ULLONG_MAX :: nat where "ULLONG_MAX = 2 ^ 64 - 1"

text \<open>The loop over the digits: \<^term>\<open>None\<close> on overflow, else the value and the unread rest.\<close>

fun string2ll_loop :: "nat \<Rightarrow> bytes \<Rightarrow> (nat \<times> bytes) option" where
  "string2ll_loop v [] = Some (v, [])"
| "string2ll_loop v (c # p) =
     (if is_digit c then
        (if v > ULLONG_MAX div 10 then None
         else if v * 10 > ULLONG_MAX - digit_val c then None
         else string2ll_loop (v * 10 + digit_val c) p)
      else Some (v, c # p))"

definition string2ll :: "bytes \<Rightarrow> int option" where
  "string2ll s =
     (if length s = 0 \<or> length s \<ge> LONG_STR_SIZE then None
      else if s = [48] then Some 0
      else let negative = (hd s = 45); p = (if negative then tl s else s) in
        if p = [] then None
        else if \<not> (49 \<le> unat (hd p) \<and> unat (hd p) \<le> 57) then None
        else do {
          (v, rest) \<leftarrow> string2ll_loop (digit_val (hd p)) (tl p);
          if rest \<noteq> [] then None
          else if negative then
            (if v > nat (- (INT64_MIN + 1)) + 1 then None else Some (- int v))
          else (if int v > INT64_MAX then None else Some (int v))
        })"

definition string2l :: "bytes \<Rightarrow> int option" where
  "string2l s = do {
     llval \<leftarrow> string2ll s;
     if llval < INT64_MIN \<or> llval > INT64_MAX then None else Some llval
   }"

text \<open>\<open>strtoull\<close> of the C library on a NUL-terminated string, base 10: the value, whether it was
  out of range (\<open>ERANGE\<close>), and the unread rest (\<open>endptr\<close>).\<close>

definition is_space :: "byte \<Rightarrow> bool" where
  "is_space c \<longleftrightarrow> c = 32 \<or> (9 \<le> unat c \<and> unat c \<le> 13)"

definition digits_value :: "bytes \<Rightarrow> nat" where
  "digits_value ds = foldl (\<lambda>v c. v * 10 + digit_val c) 0 ds"

definition strtoull :: "bytes \<Rightarrow> nat \<times> bool \<times> bytes" where
  "strtoull s =
     (let t = dropWhile is_space s;
          negative = (t \<noteq> [] \<and> hd t = 45);
          u = (if t \<noteq> [] \<and> (hd t = 45 \<or> hd t = 43) then tl t else t);
          ds = takeWhile is_digit u; v = digits_value ds
      in if ds = [] then (0, False, s)
         else if v > ULLONG_MAX then (ULLONG_MAX, True, dropWhile is_digit u)
         else (if negative then (2 ^ 64 - v) mod 2 ^ 64 else v, False, dropWhile is_digit u))"

text \<open>\<open>s\<close> is the C string, so it has no NUL.\<close>

definition string2ull :: "bytes \<Rightarrow> nat option" where
  "string2ull s =
     (case string2ll s of
        Some ll \<Rightarrow> if ll < 0 then None else Some (nat ll)
      | None \<Rightarrow>
          (let (v, erange, rest) = strtoull s in
           if erange \<or> \<not> (s \<noteq> [] \<and> rest = []) then None else Some v))"

definition tolower :: "int \<Rightarrow> int" where
  "tolower c = (if 65 \<le> c \<and> c \<le> 90 then c + 32 else c)"

definition strcasecmp_eq :: "bytes \<Rightarrow> bytes \<Rightarrow> bool" where
  "strcasecmp_eq a b \<longleftrightarrow> map (tolower \<circ> uint) a = map (tolower \<circ> uint) b"

definition memtoull_unit :: "bytes \<Rightarrow> nat option" where
  "memtoull_unit u =
     (if u = [] \<or> strcasecmp_eq u [98] then Some 1
      else if strcasecmp_eq u [107] then Some 1000
      else if strcasecmp_eq u [107, 98] then Some 1024
      else if strcasecmp_eq u [109] then Some (1000 * 1000)
      else if strcasecmp_eq u [109, 98] then Some (1024 * 1024)
      else if strcasecmp_eq u [103] then Some (1000 * 1000 * 1000)
      else if strcasecmp_eq u [103, 98] then Some (1024 * 1024 * 1024)
      else None)"

text \<open>The value and the error flag.  \<open>p\<close> is a C string without its NUL.\<close>

definition memtoull :: "bytes \<Rightarrow> nat \<times> bool" where
  "memtoull p =
     (if p \<noteq> [] \<and> hd p = 45 then (0, True)
      else let ds = takeWhile is_digit p; u = dropWhile is_digit p in
        case memtoull_unit u of
          None \<Rightarrow> (0, True)
        | Some mul \<Rightarrow>
            if length ds \<ge> 128 then (0, True)
            else let (val, _, rest) = strtoull ds in
              if rest \<noteq> [] then (0, True) else ((val * mul) mod 2 ^ 64, False))"

text \<open>The position of the first byte of \<open>s\<close> that is one of \<open>chars\<close>.\<close>

primrec mempbrk_from :: "nat \<Rightarrow> bytes \<Rightarrow> bytes \<Rightarrow> nat option" where
  "mempbrk_from j [] chars = None"
| "mempbrk_from j (c # s) chars =
     (if c \<in> set chars then Some j else mempbrk_from (j + 1) s chars)"

definition mempbrk :: "bytes \<Rightarrow> bytes \<Rightarrow> nat option" where
  "mempbrk s chars = mempbrk_from 0 s chars"

primrec memmapchar :: "byte \<Rightarrow> (byte \<times> byte) list \<Rightarrow> byte" where
  "memmapchar c [] = c"
| "memmapchar c (ft # r) = (if c = fst ft then snd ft else memmapchar c r)"

definition memmapchars :: "bytes \<Rightarrow> bytes \<Rightarrow> bytes \<Rightarrow> bytes" where
  "memmapchars s frm to = map (\<lambda>c. memmapchar c (zip frm to)) s"

text \<open>Hexadecimal digits: 0, 1 or 2 for the three ranges.\<close>

definition base_16_char_type :: "byte \<Rightarrow> nat option" where
  "base_16_char_type c =
     (let n = unat c in
      if 48 \<le> n \<and> n \<le> 57 then Some 0
      else if 97 \<le> n \<and> n \<le> 102 then Some 1
      else if 65 \<le> n \<and> n \<le> 70 then Some 2 else None)"

definition ascii_to_dec :: "nat \<Rightarrow> nat" where
  "ascii_to_dec t = [48, 97 - 10, 65 - 10] ! t"

datatype hex_result = Hex_fault | Hex_overflow | Hex_ok nat

text \<open>\<open>src\<close> is the memory from the pointer on.  The loop reads \<open>src[curr_char_idx]\<close> before it compares
  the index with \<open>slen\<close>; a read outside is \<open>Hex_fault\<close>.\<close>

function string2ul_base16_loop :: "bytes \<Rightarrow> nat \<Rightarrow> nat \<Rightarrow> nat \<Rightarrow> hex_result" where
  "string2ul_base16_loop src slen i result =
     (if i \<ge> length src then Hex_fault
      else case base_16_char_type (src ! i) of
        None \<Rightarrow> Hex_ok result
      | Some t \<Rightarrow>
          if \<not> i < slen then Hex_ok result
          else let curr_val = unat (src ! i) - ascii_to_dec t in
            if result > ULLONG_MAX div 16 \<or> result > (ULLONG_MAX - curr_val) div 16 then Hex_overflow
            else string2ul_base16_loop src slen (i + 1) (result * 16 + curr_val))"
  by auto
termination by (relation "measure (\<lambda>(src, slen, i, r). length src - i)") auto

declare string2ul_base16_loop.simps [simp del]

definition string2ul_base16_async_signal_safe :: "bytes \<Rightarrow> nat \<Rightarrow> hex_result" where
  "string2ul_base16_async_signal_safe src slen = string2ul_base16_loop src slen 0 0"

section \<open>The decimal representation\<close>

fun dec :: "nat \<Rightarrow> bytes" where
  "dec n = (if n < 10 then [digit n] else dec (n div 10) @ [digit (n mod 10)])"

declare dec.simps [simp del]

definition sdec :: "int \<Rightarrow> bytes" where
  "sdec v = (if v < 0 then 45 # dec (nat (- v)) else dec (nat v))"

lemma dec_not_Nil [simp]: "dec n \<noteq> []"
  by (subst dec.simps) simp

lemma ten_le_power:
  assumes "10 ^ Suc k \<le> (n :: nat)" shows "10 \<le> n"
proof -
  have "(10 :: nat) ^ 1 \<le> 10 ^ Suc k" by (rule power_increasing) simp_all
  also note assms
  finally show ?thesis by simp
qed

lemma length_dec_eq:
  "n < 10 ^ Suc k \<Longrightarrow> k = 0 \<or> 10 ^ k \<le> n \<Longrightarrow> length (dec n) = Suc k"
proof (induction k arbitrary: n)
  case 0
  then show ?case by (subst dec.simps) simp
next
  case (Suc k)
  then have "10 ^ Suc k \<le> n" by simp
  then have "n div 10 < 10 ^ Suc k" "10 ^ k \<le> n div 10"
    using Suc.prems(1) by (simp_all add: div_less_iff_less_mult less_eq_div_iff_mult_less_eq mult.commute)
  moreover have "10 \<le> n"
    by (rule ten_le_power) fact
  ultimately show ?case using Suc.IH [of "n div 10"] by (subst dec.simps) simp
qed

lemma length_dec_div12:
  "10 ^ 12 \<le> n \<Longrightarrow> length (dec n) = 12 + length (dec (n div 10 ^ 12))"
proof -
  have step: "length (dec n) = k + length (dec (n div 10 ^ k))" if "10 ^ k \<le> n" for k n
    using that
  proof (induction k arbitrary: n)
    case (Suc k)
    have "10 \<le> n" using Suc.prems by (rule ten_le_power)
    moreover have "10 ^ k \<le> n div 10"
      using Suc.prems by (simp add: less_eq_div_iff_mult_less_eq mult.commute)
    ultimately show ?case
      using Suc.IH [of "n div 10"] by (subst dec.simps) (simp add: div_mult2_eq)
  qed simp
  show "10 ^ 12 \<le> n \<Longrightarrow> length (dec n) = 12 + length (dec (n div 10 ^ 12))" by (rule step)
qed

lemma digits10_dec: "digits10 v = length (dec v)"
proof (induction v rule: digits10.induct)
  case (1 v)
  show ?case
  proof (cases "v < 10 ^ 12")
    case True
    then consider "v < 10" | "10 \<le> v" "v < 100" | "100 \<le> v" "v < 1000" | "1000 \<le> v" "v < 10000"
      | "10000 \<le> v" "v < 100000" | "100000 \<le> v" "v < 1000000" | "1000000 \<le> v" "v <
      10000000" | "10000000 \<le> v" "v < 100000000" | "100000000 \<le> v" "v < 1000000000" |
      "1000000000 \<le> v" "v < 10000000000" | "10000000000 \<le> v" "v < 100000000000" |
      "100000000000 \<le> v" "v < 1000000000000"
      by (simp add: not_less [symmetric]) linarith
    then show ?thesis
    proof cases
      case 1
      then show ?thesis using length_dec_eq [of v 0] by (simp add: digits10.simps [of v])
    next
      case 2
      then show ?thesis using length_dec_eq [of v 1] by (simp add: digits10.simps [of v])
    next
      case 3
      then show ?thesis using length_dec_eq [of v 2] by (simp add: digits10.simps [of v])
    next
      case 4
      then show ?thesis using length_dec_eq [of v 3] by (simp add: digits10.simps [of v])
    next
      case 5
      then show ?thesis using length_dec_eq [of v 4] by (simp add: digits10.simps [of v])
    next
      case 6
      then show ?thesis using length_dec_eq [of v 5] by (simp add: digits10.simps [of v])
    next
      case 7
      then show ?thesis using length_dec_eq [of v 6] by (simp add: digits10.simps [of v])
    next
      case 8
      then show ?thesis using length_dec_eq [of v 7] by (simp add: digits10.simps [of v])
    next
      case 9
      then show ?thesis using length_dec_eq [of v 8] by (simp add: digits10.simps [of v])
    next
      case 10
      then show ?thesis using length_dec_eq [of v 9] by (simp add: digits10.simps [of v])
    next
      case 11
      then show ?thesis using length_dec_eq [of v 10] by (simp add: digits10.simps [of v])
    next
      case 12
      then show ?thesis using length_dec_eq [of v 11] by (simp add: digits10.simps [of v])
    qed
  next
    case False
    then have "\<not> v < 10" "\<not> v < 100" "\<not> v < 1000" "\<not> v < 1000000000000" by simp_all
    then show ?thesis
      using 1 length_dec_div12 [of v] by (subst digits10.simps) simp
  qed
qed

lemma sdigits10_sdec:
  assumes "in_int64 v" shows "sdigits10 v = length (sdec v)"
  using assms by (auto simp: sdigits10_def sdec_def digits10_dec Let_def)

lemma dec_100: "100 \<le> n \<Longrightarrow>
   dec n = dec (n div 100) @ [fst (digit_pair (n mod 100)), snd (digit_pair (n mod 100))]"
proof -
  assume "100 \<le> n"
  then have "\<not> n < 10" "\<not> n div 10 < 10" by auto
  then have "dec n = (dec (n div 10 div 10) @ [digit (n div 10 mod 10)]) @ [digit (n mod 10)]"
    by (simp add: dec.simps [of n] dec.simps [of "n div 10"])
  moreover have "n div 10 mod 10 = n mod 100 div 10" "n mod 100 mod 10 = n mod 10"
    "n div 10 div 10 = n div 100"
    using mod_mult2_eq [of n 10 10] div_mult2_eq [of n 10 10] by (simp_all add: mod_mod_cancel)
  ultimately show ?thesis by (simp add: digit_pair_def)
qed

lemma dec_10: "10 \<le> n \<Longrightarrow> n < 100 \<Longrightarrow> dec n = [fst (digit_pair n), snd (digit_pair n)]"
  by (simp add: dec.simps [of n] dec.simps [of "n div 10"] digit_pair_def)

lemma drop_two_updates:
  assumes "Suc i < length xs"
  shows "drop i (xs[Suc i := b, i := a]) = a # b # drop (Suc (Suc i)) xs"
proof -
  define ys where "ys = xs[Suc i := b, i := a]"
  have "drop i ys = ys ! i # ys ! Suc i # drop (Suc (Suc i)) ys"
    using assms Cons_nth_drop_Suc [of i ys] Cons_nth_drop_Suc [of "Suc i" ys] by (simp add: ys_def del: drop_update_swap)
  then show ?thesis using assms by (simp add: ys_def)
qed

lemma ull2string_loop_dec:
  assumes "length (dec val) = Suc nxt" "nxt < length dst"
  shows "ull2string_loop dst nxt val = Some (dec val @ drop (Suc nxt) dst)"
  using assms
proof (induction val arbitrary: nxt dst rule: less_induct)
  case (less val)
  consider (a) "100 \<le> val" | (b) "10 \<le> val" "val < 100" | (c) "val < 10" by linarith
  then show ?case
  proof cases
    case a
    define c0 c1 where "c0 = fst (digit_pair (val mod 100))" and "c1 = snd (digit_pair (val mod 100))"
    have d: "dec val = dec (val div 100) @ [c0, c1]" using dec_100 [OF a] by (simp add: c0_def c1_def)
    then have l: "length (dec (val div 100)) = Suc (nxt - 2)" "2 \<le> nxt"
      using less.prems(1) dec_not_Nil [of "val div 100"]
      by (cases "dec (val div 100)"; simp del: dec_not_Nil)+
    define dst' where "dst' = dst[nxt := c1, nxt - 1 := c0]"
    have w: "ull2string_loop dst nxt val = ull2string_loop dst' (nxt - 2) (val div 100)"
      using a l(2) less.prems(2) less_imp_diff_less [OF less.prems(2), of 1] by (subst ull2string_loop.simps)
        (simp add: c0_def c1_def dst'_def put_def put_before_def split_beta Let_def)
    have "ull2string_loop dst' (nxt - 2) (val div 100) =
        Some (dec (val div 100) @ drop (Suc (nxt - 2)) dst')"
      using a l less.prems(2)
      by (intro less.IH) (simp_all add: dst'_def)
    moreover have "drop (Suc (nxt - 2)) dst' = c0 # c1 # drop (Suc nxt) dst"
      using drop_two_updates [of "nxt - 1" dst c1 c0] l(2) less.prems(2)
      by (simp add: dst'_def numeral_2_eq_2 Suc_diff_Suc)
    ultimately show ?thesis using w d by simp
  next
    case b
    then have d: "dec val = [fst (digit_pair val), snd (digit_pair val)]" by (rule dec_10)
    then have n: "nxt = 1" using less.prems(1) by simp
    then have "dst \<noteq> []" "1 < length dst" using less.prems(2) by auto
    then show ?thesis
      using b d n drop_two_updates [of 0 dst "snd (digit_pair val)" "fst (digit_pair val)"]
      by (subst ull2string_loop.simps) (simp add: put_def put_before_def split_beta Let_def)
  next
    case c
    then have "dec val = [digit val]" by (subst dec.simps) simp
    then show ?thesis
      using c less.prems by (subst ull2string_loop.simps) (cases dst; simp add: put_def)
  qed
qed

lemma ull2string_ok:
  "ull2string dst val =
     Some (if length (dec val) < length dst
           then (length (dec val), dec val @ 0 # drop (Suc (length (dec val))) dst)
           else (0, string_err dst))"
proof (cases "length (dec val) < length dst")
  case True
  define n where "n = length (dec val)"
  have n: "n = Suc (n - 1)" by (simp add: n_def)
  have "ull2string_loop (dst[n := 0]) (n - 1) val = Some (dec val @ drop n (dst[n := 0]))"
    using ull2string_loop_dec [of val "n - 1" "dst[n := 0]"] True n by (simp add: n_def [symmetric])
  moreover have "drop n (dst[n := 0]) = 0 # drop (Suc n) dst"
    using True by (simp add: n_def drop_update_swap) (metis Cons_nth_drop_Suc list_update_code(2))
  ultimately show ?thesis
    using True by (simp add: ull2string_def Let_def digits10_dec put_def n_def)
qed (simp add: ull2string_def Let_def digits10_dec)

section \<open>Parsing the decimal representation\<close>

lemma unat_digit: "d < 10 \<Longrightarrow> unat (digit d) = 48 + d"
  unfolding digit_def by (subst unat_of_nat) simp

lemma digit_val_digit [simp]: "d < 10 \<Longrightarrow> digit_val (digit d) = d"
  by (simp add: digit_val_def unat_digit)

lemma is_digit_digit [simp]: "d < 10 \<Longrightarrow> is_digit (digit d)"
  by (simp add: is_digit_def unat_digit)

lemma digit_digit_val [simp]: "is_digit c \<Longrightarrow> digit (digit_val c) = c"
  by (simp add: is_digit_def digit_val_def digit_def del: of_nat_add)

lemma digit_val_less: "is_digit c \<Longrightarrow> digit_val c < 10"
  by (auto simp: is_digit_def digit_val_def)

lemma digits_value_snoc [simp]:
  "digits_value (ds @ [c]) = digits_value ds * 10 + digit_val c"
  by (simp add: digits_value_def)

lemma digits_value_dec [simp]: "digits_value (dec n) = n"
proof (induction n rule: dec.induct)
  case (1 n)
  show ?case
  proof (cases "n < 10")
    case True
    then show ?thesis by (simp add: dec.simps [of n] digits_value_def)
  next
    case False
    then show ?thesis using 1 by (simp add: dec.simps [of n])
  qed
qed

lemma is_digit_dec: "c \<in> set (dec n) \<Longrightarrow> is_digit c"
proof (induction n rule: dec.induct)
  case (1 n)
  then show ?case by (cases "n < 10") (auto simp: dec.simps [of n])
qed

lemma hd_dec: "0 < n \<Longrightarrow> digit_val (hd (dec n)) \<noteq> 0"
proof (induction n rule: dec.induct)
  case (1 n)
  then show ?case by (cases "n < 10") (auto simp: dec.simps [of n])
qed

text \<open>A string of digits that does not start with 0 is the representation of its value.\<close>

lemma dec_digits_value:
  assumes "\<forall>c \<in> set ds. is_digit c" "ds \<noteq> []" "digit_val (hd ds) \<noteq> 0"
  shows "dec (digits_value ds) = ds \<and> 0 < digits_value ds"
  using assms
proof (induction ds rule: rev_induct)
  case (snoc c ds)
  show ?case
  proof (cases "ds = []")
    case True
    then have "digits_value (ds @ [c]) = digit_val c" by (simp add: digits_value_def)
    moreover have "digit_val c < 10" "digit_val c \<noteq> 0" "is_digit c"
      using snoc.prems True digit_val_less by auto
    ultimately show ?thesis using True by (simp add: dec.simps [of "digit_val c"])
  next
    case False
    then have IH: "dec (digits_value ds) = ds" "0 < digits_value ds"
      using snoc by auto
    have c: "digit_val c < 10" "is_digit c" using snoc.prems digit_val_less by auto
    have "dec (digits_value ds * 10 + digit_val c) = ds @ [c]"
      using IH c by (subst dec.simps) simp
    then show ?thesis using IH by simp
  qed
qed simp

lemma foldl_digits:
  "foldl (\<lambda>v c. v * 10 + digit_val c) v ds = v * 10 ^ length ds + digits_value ds"
proof (induction ds rule: rev_induct)
  case (snoc c ds)
  then show ?case by (simp add: digits_value_def algebra_simps)
qed (simp add: digits_value_def)

lemma string2ll_loop_digits:
  assumes "\<forall>c \<in> set ds. is_digit c"
  shows "string2ll_loop v ds =
    (let w = foldl (\<lambda>v c. v * 10 + digit_val c) v ds in if w \<le> ULLONG_MAX \<or> ds = [] then Some (w, []) else None)"
  using assms
proof (induction ds arbitrary: v)
  case (Cons c ds)
  have c: "is_digit c" "digit_val c < 10" using Cons.prems digit_val_less by auto
  have mono: "v * 10 + digit_val c \<le> foldl (\<lambda>v c. v * 10 + digit_val c) (v * 10 + digit_val c) ds"
  proof -
    have "(v * 10 + digit_val c) * 1 \<le> (v * 10 + digit_val c) * 10 ^ length ds"
      by (intro mult_le_mono2) simp
    then show ?thesis unfolding foldl_digits by (simp only: mult_1_right trans_le_add1)
  qed
  show ?case
  proof (cases "v * 10 + digit_val c \<le> ULLONG_MAX")
    case True
    then have "\<not> v > ULLONG_MAX div 10" "\<not> v * 10 > ULLONG_MAX - digit_val c"
      by (auto simp: not_less less_eq_div_iff_mult_less_eq)
    then show ?thesis
      using Cons c True by (auto simp: Let_def)
  next
    case False
    then have "v > ULLONG_MAX div 10 \<or> v * 10 > ULLONG_MAX - digit_val c"
      using c by (auto simp: ULLONG_MAX_def)
    then show ?thesis using c False mono by (auto simp: Let_def)
  qed
qed simp

lemma string2ll_loop_rest:
  "string2ll_loop v p = Some (w, []) \<Longrightarrow> \<forall>c \<in> set p. is_digit c"
  by (induction v p rule: string2ll_loop.induct) (auto split: if_splits)

lemma length_dec_le_power: "n < 10 ^ Suc k \<Longrightarrow> length (dec n) \<le> Suc k"
proof (induction k arbitrary: n)
  case 0
  then show ?case by (subst dec.simps) simp
next
  case (Suc k)
  then have "n div 10 < 10 ^ Suc k" by (simp add: div_less_iff_less_mult mult.commute)
  then show ?case using Suc.IH [of "n div 10"] by (subst dec.simps) simp
qed

lemma length_dec_le: "n < 2 ^ 64 \<Longrightarrow> length (dec n) \<le> 20"
  using length_dec_le_power [of n 19] by simp

lemma is_digit_1_9: "49 \<le> unat c \<and> unat c \<le> 57 \<longleftrightarrow> is_digit c \<and> digit_val c \<noteq> 0"
  by (auto simp: is_digit_def digit_val_def)

lemma not_minus_dec: "hd (dec n) \<noteq> 45"
  using is_digit_dec [of "hd (dec n)" n] by (auto simp: is_digit_def)

lemma dec_0: "dec 0 = [48]"
  by (simp add: dec.simps [of 0] digit_def)

text \<open>The part after the sign.\<close>

lemma string2ll_digits:
  "(\<exists>v. p \<noteq> [] \<and> (49 \<le> unat (hd p) \<and> unat (hd p) \<le> 57) \<and>
      string2ll_loop (digit_val (hd p)) (tl p) = Some (v, []) \<and> v = n) \<longleftrightarrow>
   0 < n \<and> (n \<le> ULLONG_MAX \<or> n < 10) \<and> p = dec n" (is "?L \<longleftrightarrow> ?R")
proof
  assume ?L
  then have p: "p \<noteq> []" "is_digit (hd p)" "digit_val (hd p) \<noteq> 0"
    and l: "string2ll_loop (digit_val (hd p)) (tl p) = Some (n, [])"
    by (simp_all add: is_digit_1_9)
  from string2ll_loop_rest [OF l] have t: "\<forall>c \<in> set (tl p). is_digit c" .
  have eq: "foldl (\<lambda>v c. v * 10 + digit_val c) (digit_val (hd p)) (tl p) = digits_value p"
    using p(1) by (cases p) (simp_all add: digits_value_def)
  have "n = digits_value p" "n \<le> ULLONG_MAX \<or> tl p = []"
    using l string2ll_loop_digits [OF t, of "digit_val (hd p)"] by (auto simp: eq Let_def split: if_splits)
  moreover have "\<forall>c \<in> set p. is_digit c" using p t by (cases p) auto
  then have "dec (digits_value p) = p \<and> 0 < digits_value p"
    using p by (intro dec_digits_value) auto
  moreover have "n < 10" if "tl p = []"
    using that p digit_val_less [OF p(2)] \<open>n = digits_value p\<close> by (cases p) (auto simp: digits_value_def)
  ultimately show ?R by auto
next
  assume R: ?R
  define p' where "p' = dec n"
  have p: "p' \<noteq> []" "\<forall>c \<in> set p'. is_digit c" "digit_val (hd p') \<noteq> 0"
    using R is_digit_dec hd_dec by (auto simp: p'_def)
  have t: "\<forall>c \<in> set (tl p'). is_digit c" using p(1,2) by (cases p') auto
  have eq: "foldl (\<lambda>v c. v * 10 + digit_val c) (digit_val (hd p')) (tl p') = n"
    using p(1) digits_value_dec [of n] unfolding p'_def [symmetric]
    by (cases p') (simp_all add: digits_value_def)
  have "tl p' = [] \<or> n \<le> ULLONG_MAX" using R by (auto simp: p'_def dec.simps [of n])
  then have "string2ll_loop (digit_val (hd p')) (tl p') = Some (n, [])"
    using string2ll_loop_digits [OF t, of "digit_val (hd p')"] by (auto simp: eq Let_def)
  then show ?L using R p by (auto simp: is_digit_1_9 p'_def)
qed

lemma string2ll_positive:
  assumes "0 < n" "n \<le> ULLONG_MAX"
  shows "49 \<le> unat (hd (dec n))" "unat (hd (dec n)) \<le> 57"
    "string2ll_loop (digit_val (hd (dec n))) (tl (dec n)) = Some (n, [])"
  using string2ll_digits [of "dec n" n] assms by auto

lemma length_sdec:
  assumes "in_int64 v" shows "length (sdec v) < LONG_STR_SIZE"
proof (cases "v < 0")
  case True
  then have "nat (- v) < 10 ^ Suc 18" using assms by (simp add: in_int64_def)
  then show ?thesis using True length_dec_le_power [of "nat (- v)" 18] by (simp add: sdec_def LONG_STR_SIZE_def)
next
  case False
  then have "nat v < 2 ^ 64" using assms by (simp add: in_int64_def)
  then show ?thesis using False length_dec_le [of "nat v"] by (simp add: sdec_def LONG_STR_SIZE_def)
qed

lemma string2ll_sdec:
  assumes "in_int64 v"
  shows "string2ll (sdec v) = Some v"
proof -
  have l: "length (sdec v) < LONG_STR_SIZE" by (rule length_sdec [OF assms])
  consider (z) "v = 0" | (p) "0 < v" | (n) "v < 0" by linarith
  then show ?thesis
  proof cases
    case z
    then show ?thesis by (simp add: sdec_def dec_0 string2ll_def LONG_STR_SIZE_def)
  next
    case p
    then have n: "0 < nat v" "nat v \<le> ULLONG_MAX" using assms by (simp_all add: in_int64_def ULLONG_MAX_def)
    have "dec (nat v) \<noteq> [48]" using hd_dec [OF n(1)] by (auto simp: digit_val_def)
    then show ?thesis
      using p l n string2ll_positive [OF n] not_minus_dec [of "nat v"] assms
      by (simp add: sdec_def string2ll_def Let_def in_int64_def)
  next
    case n
    then have m: "0 < nat (- v)" "nat (- v) \<le> ULLONG_MAX" "nat (- v) \<le> nat (- (INT64_MIN + 1)) + 1"
      using assms by (simp_all add: in_int64_def ULLONG_MAX_def)
    then show ?thesis
      using n l string2ll_positive [OF m(1,2)]
      by (simp add: sdec_def string2ll_def Let_def)
  qed
qed

lemma string2ll_sound:
  assumes "string2ll s = Some v"
  shows "in_int64 v \<and> s = sdec v"
proof (cases "s = [48]")
  case True
  then have "v = 0" using assms by (simp add: string2ll_def LONG_STR_SIZE_def)
  then show ?thesis using True by (simp add: in_int64_def sdec_def dec_0)
next
  case False
  have s: "s \<noteq> []" using assms by (auto simp: string2ll_def split: if_splits)
  define p where "p = (if hd s = 45 then tl s else s)"
  obtain n where n: "p \<noteq> []" "49 \<le> unat (hd p)" "unat (hd p) \<le> 57"
    "string2ll_loop (digit_val (hd p)) (tl p) = Some (n, [])"
    and v: "v = (if hd s = 45 then - int n else int n)"
    and b: "if hd s = 45 then n \<le> nat (- (INT64_MIN + 1)) + 1 else int n \<le> INT64_MAX"
    using assms False unfolding string2ll_def Let_def p_def [symmetric]
    by (auto split: if_splits bind_splits)
  then have d: "0 < n" "p = dec n" using string2ll_digits [of p n] by auto
  show ?thesis
  proof (cases "hd s = 45")
    case True
    then have "s = 45 # p" using s by (cases s) (auto simp: p_def)
    then show ?thesis using True v b d by (simp add: in_int64_def sdec_def)
  next
    case F: False
    then show ?thesis using v b d by (simp add: in_int64_def sdec_def p_def)
  qed
qed

text \<open>C18. \<open>string2ll\<close> accepts exactly the canonical decimal representations of the values of
  \<open>long long\<close>: no sign but a leading minus, no leading zeros, no spaces, no overflow.  So a string
  it accepts can be stored as the number and printed back without loss, which is what the integer
  encodings of strings, lists and sets rely on.\<close>

theorem string2ll_canonical:
  "string2ll s = Some v \<longleftrightarrow> in_int64 v \<and> s = sdec v"
  using string2ll_sdec string2ll_sound by blast

lemma ll2string_ok:
  assumes "in_int64 v"
  shows "ll2string dst v =
     Some (if length (sdec v) < length dst
           then (length (sdec v), sdec v @ 0 # drop (Suc (length (sdec v))) dst)
           else (0, if v < 0 \<and> 2 \<le> length dst then 45 # string_err (tl dst) else string_err dst))"
proof (cases "v < 0")
  case True
  define n where "n = nat (- v)"
  have n: "(if v \<noteq> INT64_MIN then nat (- v) else nat INT64_MAX + 1) = n" by (simp add: n_def)
  have s: "sdec v = 45 # dec n" using True by (simp add: sdec_def n_def)
  show ?thesis
  proof (cases "length dst < 2")
    case short: True
    have "length (sdec v) \<ge> 2" using s dec_not_Nil [of n] by (cases "dec n") auto
    then show ?thesis using True short by (simp add: ll2string_def Let_def)
  next
    case False
    then show ?thesis
      using True s ull2string_ok [of "tl dst" n] unfolding ll2string_def n
      by (auto simp: Let_def drop_Suc)
  qed
next
  case False
  then show ?thesis
    using ull2string_ok [of dst "nat v"] by (auto simp: ll2string_def sdec_def)
qed

text \<open>C19. \<open>ll2string\<close> writes the decimal representation of its argument and a NUL at the start of
  the buffer, keeps the rest of the buffer, and returns the length, provided there is room for both;
  else it returns 0.  It never writes outside the buffer, not even for \<open>LLONG_MIN\<close> or for buffers of
  length 0 and 1, and \<open>string2ll\<close> of what it wrote is the number.  (\<open>sdigits10\<close> is the length it will
  need.)\<close>

theorem ll2string_roundtrip:
  assumes "in_int64 v"
  shows "\<exists>len dst'. ll2string dst v = Some (len, dst') \<and> length dst' = length dst \<and>
    (if sdigits10 v < length dst
     then len = sdigits10 v \<and> string2ll (take len dst') = Some v \<and> dst' ! len = 0 \<and>
       drop (Suc len) dst' = drop (Suc len) dst
     else len = 0)"
proof (cases "length (sdec v) < length dst")
  case True
  then show ?thesis
    using ll2string_ok [OF assms, of dst] sdigits10_sdec [OF assms] string2ll_sdec [OF assms]
    by (simp add: nth_append)
next
  case False
  then show ?thesis
    using ll2string_ok [OF assms, of dst] sdigits10_sdec [OF assms]
    by (cases dst; cases "tl dst") (auto simp: string_err_def)
qed

theorem ll2string_roundtrip_witness:
  "in_int64 (- (2 ^ 63)) \<and> (\<exists>len dst'. ll2string (replicate 21 7) (- (2 ^ 63)) = Some (len, dst') \<and>
     len = 20 \<and> string2ll (take len dst') = Some (- (2 ^ 63)))"
proof -
  have i: "in_int64 (- (2 ^ 63))" by (simp add: in_int64_def)
  have "sdigits10 (- (2 ^ 63)) = 20" by (simp add: sdigits10_def digits10.simps)
  then show ?thesis using ll2string_roundtrip [OF i, of "replicate 21 7"] i by auto
qed

section \<open>Amounts of memory\<close>

lemma strcasecmp_hd:
  "strcasecmp_eq u (c # w) \<Longrightarrow> u \<noteq> [] \<and> tolower (uint (hd u)) = tolower (uint c)"
  by (cases u) (auto simp: strcasecmp_eq_def)

lemma memtoull_unit_not_digit:
  assumes "memtoull_unit u = Some mul" "u \<noteq> []" shows "\<not> is_digit (hd u)"
proof
  assume "is_digit (hd u)"
  then have "unat (hd u) \<le> 57" by (simp add: is_digit_def)
  then have "uint (hd u) \<le> 57" using uint_nat [of "hd u"] by linarith
  then have d: "tolower (uint (hd u)) \<le> 57" by (simp add: tolower_def)
  have "\<not> strcasecmp_eq u (c # w)" if "58 \<le> tolower (uint c)" for c w
    using d that strcasecmp_hd [of u c w] by auto
  then have "\<not> strcasecmp_eq u (98 # w)" "\<not> strcasecmp_eq u (107 # w)"
    "\<not> strcasecmp_eq u (109 # w)" "\<not> strcasecmp_eq u (103 # w)" for w
    by (simp_all add: tolower_def)
  then show False using assms by (simp add: memtoull_unit_def)
qed

lemma takeWhile_digits:
  assumes "\<forall>c \<in> set ds. is_digit c" "memtoull_unit u = Some mul"
  shows "takeWhile is_digit (ds @ u) = ds" "dropWhile is_digit (ds @ u) = u"
proof -
  have "takeWhile is_digit u = []" "dropWhile is_digit u = u"
    using memtoull_unit_not_digit [OF assms(2)] by (cases u; simp)+
  then show "takeWhile is_digit (ds @ u) = ds" "dropWhile is_digit (ds @ u) = u"
    using assms(1) by simp_all
qed

lemma strtoull_digits:
  assumes "\<forall>c \<in> set ds. is_digit c" "ds \<noteq> []"
  shows "strtoull ds = (min (digits_value ds) ULLONG_MAX, digits_value ds > ULLONG_MAX, [])"
proof -
  have h: "is_digit (hd ds)" using assms by simp
  then have "\<not> is_space (hd ds)" "hd ds \<noteq> 45" "hd ds \<noteq> 43"
    by (auto simp: is_digit_def is_space_def)
  then have d: "dropWhile is_space ds = ds" using assms(2) by (cases ds) auto
  have tw: "takeWhile is_digit ds = ds" "dropWhile is_digit ds = []"
    using assms(1) by (simp_all add: takeWhile_eq_all_conv)
  show ?thesis
    using \<open>hd ds \<noteq> 45\<close> \<open>hd ds \<noteq> 43\<close> assms(2)
    by (simp add: strtoull_def Let_def min_def d tw)
qed



section \<open>Hexadecimal numbers\<close>

definition hex_val :: "byte \<Rightarrow> nat" where
  "hex_val c = (case base_16_char_type c of None \<Rightarrow> 0 | Some t \<Rightarrow> unat c - ascii_to_dec t)"

definition is_hex :: "byte \<Rightarrow> bool" where
  "is_hex c \<longleftrightarrow> base_16_char_type c \<noteq> None"

definition hex_value :: "nat \<Rightarrow> bytes \<Rightarrow> nat" where
  "hex_value v ds = foldl (\<lambda>v c. v * 16 + hex_val c) v ds"

lemma hex_val_less: "is_hex c \<Longrightarrow> hex_val c < 16"
  by (auto simp: is_hex_def hex_val_def base_16_char_type_def ascii_to_dec_def Let_def split: if_splits)

lemma hex_value_ge: "v \<le> hex_value v ds"
proof (induction ds arbitrary: v)
  case (Cons c ds)
  have "v \<le> v * 16 + hex_val c" by simp
  also have "\<dots> \<le> hex_value (v * 16 + hex_val c) ds" by (rule Cons.IH)
  finally show ?case by (simp add: hex_value_def)
qed (simp add: hex_value_def)

lemma string2ul_base16_loop_hex:
  assumes "\<forall>c \<in> set ds. is_hex c" "src = pre @ ds @ post" "length pre + length ds = slen"
  shows "string2ul_base16_loop src slen (length pre) v =
    (if v \<le> ULLONG_MAX \<and> hex_value v ds > ULLONG_MAX then Hex_overflow
     else if v > ULLONG_MAX \<and> ds \<noteq> [] then Hex_overflow
     else if post = [] then Hex_fault else Hex_ok (hex_value v ds))"
  using assms
proof (induction ds arbitrary: pre v)
  case Nil
  then show ?case
    by (subst string2ul_base16_loop.simps) (auto simp: hex_value_def split: option.splits)
next
  case (Cons c ds)
  obtain t where t: "base_16_char_type c = Some t" using Cons.prems(1) by (auto simp: is_hex_def)
  have hv: "hex_val c = unat c - ascii_to_dec t" "hex_val c < 16"
    using t Cons.prems(1) hex_val_less [of c] by (simp_all add: hex_val_def)
  have ov: "(v > ULLONG_MAX div 16 \<or> v > (ULLONG_MAX - hex_val c) div 16) \<longleftrightarrow>
      v * 16 + hex_val c > ULLONG_MAX"
    using hv(2) by (auto simp: ULLONG_MAX_def less_mult_imp_div_less div_less_iff_less_mult)
  have step: "string2ul_base16_loop src slen (length pre) v =
      (if v * 16 + hex_val c > ULLONG_MAX then Hex_overflow
       else string2ul_base16_loop src slen (length (pre @ [c])) (v * 16 + hex_val c))"
    using Cons.prems(2,3) t ov hv(1)
    by (subst string2ul_base16_loop.simps) (simp add: nth_append Let_def)
  have ge: "v * 16 + hex_val c \<le> hex_value v (c # ds)"
    using hex_value_ge [of "v * 16 + hex_val c" ds] by (simp add: hex_value_def)
  have eq: "hex_value v (c # ds) = hex_value (v * 16 + hex_val c) ds" by (simp add: hex_value_def)
  show ?case
  proof (cases "v * 16 + hex_val c > ULLONG_MAX")
    case True
    then show ?thesis using step ge by auto
  next
    case False
    then have "v \<le> ULLONG_MAX" by simp
    then show ?thesis
      using step False eq Cons.IH [of "pre @ [c]" "v * 16 + hex_val c"] Cons.prems by auto
  qed
qed



end
