(* ===== verification/Util_Glob.thy ===== *)
theory Util_Glob
  imports Util_Numbers
begin

text \<open>
  The glob-style matcher \<open>stringmatchlen\<close> of \<^verbatim>\<open>util.c\<close>, used by \<open>KEYS\<close>, \<open>SCAN MATCH\<close> and
  \<open>PSUBSCRIBE\<close>.  Pattern and string are the bytes from the current pointer on; the pattern is
  followed by a NUL in memory (it is an \<open>sds\<close>), which is what the code reads at its end.
  The reference \<open>glob\<close> is the same language without the search strategy: \<open>*\<close> matches every string,
  the other pattern elements match one character each.
\<close>

section \<open>The model\<close>

definition char_eq :: "bool \<Rightarrow> byte \<Rightarrow> byte \<Rightarrow> bool" where
  "char_eq nocase a b \<longleftrightarrow>
     (if nocase then tolower (sint a) = tolower (sint b) else a = b)"

definition range_match :: "bool \<Rightarrow> byte \<Rightarrow> byte \<Rightarrow> byte \<Rightarrow> bool" where
  "range_match nocase a b ch =
     (let start = min (sint a) (sint b); stop = max (sint a) (sint b); c = sint ch in
      if nocase then tolower start \<le> tolower c \<and> tolower c \<le> tolower stop
      else start \<le> c \<and> c \<le> stop)"

text \<open>The loop over a character class; the result is \<open>match\<close> and the pattern behind the class.\<close>

function class_loop :: "bool \<Rightarrow> byte \<Rightarrow> bytes \<Rightarrow> bool \<Rightarrow> bool \<times> bytes" where
  "class_loop nocase ch p m =
     (if p = [] then (m, [])
      else if hd p = 92 \<and> length p \<ge> 2 then
        class_loop nocase ch (drop 2 p) (m \<or> p ! 1 = ch)
      else if hd p = 93 then (m, tl p)
      else if length p \<ge> 3 \<and> p ! 1 = 45 then
        class_loop nocase ch (drop 3 p) (m \<or> range_match nocase (hd p) (p ! 2) ch)
      else class_loop nocase ch (tl p) (m \<or> char_eq nocase (hd p) ch))"
  by auto
termination by (relation "measure (\<lambda>(_, _, p, _). length p)") auto

declare class_loop.simps [simp del]

text \<open>One pattern element other than \<open>*\<close>: whether it matches the character, and the rest of the
  pattern.\<close>

definition match_one :: "bool \<Rightarrow> bytes \<Rightarrow> byte \<Rightarrow> bool \<times> bytes" where
  "match_one nocase p ch =
     (if hd p = 63 then (True, tl p)
      else if hd p = 91 then
        (let neg = (tl p \<noteq> [] \<and> hd (tl p) = 94);
             (m, rest) = class_loop nocase ch (if neg then drop 2 p else tl p) False
         in (m \<noteq> neg, rest))
      else if hd p = 92 \<and> length p \<ge> 2 then (char_eq nocase (p ! 1) ch, drop 2 p)
      else (char_eq nocase (hd p) ch, tl p))"

definition skip_stars :: "bytes \<Rightarrow> bytes" where
  "skip_stars p = dropWhile (\<lambda>c. c = 42) p"

lemma class_loop_length: "length (snd (class_loop nocase ch p m)) \<le> length p"
proof (induction nocase ch p m rule: class_loop.induct)
  case (1 nocase ch p m)
  then show ?case by (subst class_loop.simps) (auto split: if_splits)
qed

lemma match_one_length:
  assumes "p \<noteq> []"
  shows "length (snd (match_one nocase p ch)) < length p"
proof -
  define q where "q = (if tl p \<noteq> [] \<and> hd (tl p) = 94 then drop 2 p else tl p)"
  have "length q < length p" using assms by (auto simp: q_def)
  then have "length (snd (class_loop nocase ch q False)) < length p"
    using class_loop_length [of nocase ch q False] by simp
  then show ?thesis
    using assms by (auto simp: match_one_def Let_def q_def split_beta)
qed

text \<open>\<open>stringmatchlen_impl\<close> and its loop over the positions a \<open>*\<close> may extend to.  The results are
  the return value and \<open>skipLongerMatches\<close>.\<close>

function stringmatchlen_impl :: "bool \<Rightarrow> bytes \<Rightarrow> bytes \<Rightarrow> bool \<Rightarrow> bool \<times> bool"
  and star_loop :: "bool \<Rightarrow> bytes \<Rightarrow> bytes \<Rightarrow> bool \<Rightarrow> bool \<times> bool" where
  "stringmatchlen_impl nocase p s skip =
     (if p = [] \<or> s = [] then (p = [] \<and> s = [], skip)
      else if hd p = 42 then
        (if skip_stars p = [] then (True, skip) else star_loop nocase (skip_stars p) s skip)
      else let (m, p') = match_one nocase p (hd s) in
        if \<not> m then (False, skip)
        else if tl s = [] then (skip_stars p' = [], skip)
        else stringmatchlen_impl nocase p' (tl s) skip)"
| "star_loop nocase p s skip =
     (if s = [] then (False, True)
      else let (r, skip') = stringmatchlen_impl nocase p s skip in
        if r then (True, skip') else if skip' then (False, skip')
        else star_loop nocase p (tl s) skip')"
  by pat_completeness auto
termination
proof (relation "measure (\<lambda>x. case x of Inl (_, p, s, _) \<Rightarrow> 2 * (length p + length s)
    | Inr (_, p, s, _) \<Rightarrow> 2 * (length p + length s) + 1)", goal_cases)
  case (2 nocase p s skip)
  then have "length (skip_stars p) < length p"
    by (cases p) (auto simp: skip_stars_def intro!: le_imp_less_Suc length_dropWhile_le)
  then show ?case by simp
next
  case (3 nocase p s skip x m p')
  then have "length p' < length p" using match_one_length [of p nocase "hd s"] by (metis snd_conv)
  then show ?case using 3 by (cases s) auto
qed (auto simp: length_greater_0_conv)

declare stringmatchlen_impl.simps [simp del] star_loop.simps [simp del]

definition stringmatchlen :: "bytes \<Rightarrow> bytes \<Rightarrow> bool \<Rightarrow> bool" where
  "stringmatchlen pattern str nocase = fst (stringmatchlen_impl nocase pattern str False)"

definition stringmatch :: "bytes \<Rightarrow> bytes \<Rightarrow> bool \<Rightarrow> bool" where
  "stringmatch pattern str nocase =
     stringmatchlen (takeWhile (\<lambda>c. c \<noteq> 0) pattern) (takeWhile (\<lambda>c. c \<noteq> 0) str) nocase"

section \<open>The language of a pattern\<close>

function glob :: "bool \<Rightarrow> bytes \<Rightarrow> bytes \<Rightarrow> bool" where
  "glob nocase p s =
     (if p = [] then s = []
      else if hd p = 42 then
        (if s = [] then glob nocase (tl p) s else glob nocase (tl p) s \<or> glob nocase p (tl s))
      else if s = [] then False
      else fst (match_one nocase p (hd s)) \<and>
        glob nocase (snd (match_one nocase p (hd s))) (tl s))"
  by auto
termination
proof (relation "measure (\<lambda>(_, p, s). length p + length s)", goal_cases)
  case (5 nocase p s)
  then show ?case using match_one_length [of p nocase "hd s"] by (cases s) auto
qed auto

declare glob.simps [simp del]

lemma glob_star:
  assumes "p \<noteq> []" "hd p = 42"
  shows "glob nocase p s \<longleftrightarrow> (\<exists>k. glob nocase (tl p) (drop k s))"
proof (induction s)
  case Nil
  then show ?case using assms by (subst glob.simps) simp
next
  case (Cons c s)
  have "glob nocase p (c # s) \<longleftrightarrow> glob nocase (tl p) (c # s) \<or> glob nocase p s"
    using assms by (subst glob.simps) simp
  also have "\<dots> \<longleftrightarrow> glob nocase (tl p) (drop 0 (c # s)) \<or> (\<exists>k. glob nocase (tl p) (drop (Suc k) (c # s)))"
    using Cons.IH by simp
  also have "\<dots> \<longleftrightarrow> (\<exists>k. glob nocase (tl p) (drop k (c # s)))" by (metis not0_implies_Suc)
  finally show ?case .
qed

lemma ex_drop_drop: "(\<exists>k j. P (drop j (drop k s))) \<longleftrightarrow> (\<exists>k. P (drop k s))"
proof
  assume "\<exists>k j. P (drop j (drop k s))"
  then show "\<exists>k. P (drop k s)" unfolding drop_drop by blast
next
  assume "\<exists>k. P (drop k s)"
  then obtain k where "P (drop 0 (drop k s))" by auto
  then show "\<exists>k j. P (drop j (drop k s))" by blast
qed

lemma glob_stars:
  assumes "p \<noteq> []" "hd p = 42"
  shows "glob nocase p s \<longleftrightarrow> (\<exists>k. glob nocase (skip_stars p) (drop k s))"
  using assms
proof (induction p arbitrary: s)
  case (Cons c p)
  show ?case
  proof (cases "p \<noteq> [] \<and> hd p = 42")
    case True
    then have "glob nocase p s \<longleftrightarrow> (\<exists>k. glob nocase (skip_stars p) (drop k s))" for s
      using Cons.IH by blast
    moreover have "skip_stars (c # p) = skip_stars p" using Cons.prems by (simp add: skip_stars_def)
    ultimately show ?thesis
      using glob_star [OF Cons.prems, of nocase s] ex_drop_drop [of "glob nocase (skip_stars p)" s]
      by simp
  next
    case False
    then have "skip_stars (c # p) = p" using Cons.prems by (cases p) (auto simp: skip_stars_def)
    then show ?thesis using glob_star [OF Cons.prems] by simp
  qed
qed simp

lemma glob_empty: "glob nocase p [] \<longleftrightarrow> skip_stars p = []"
  by (induction p) (subst glob.simps, simp add: skip_stars_def)+

lemma skip_stars_hd: "skip_stars p \<noteq> [] \<Longrightarrow> hd (skip_stars p) \<noteq> 42"
  unfolding skip_stars_def by (metis (mono_tags) hd_dropWhile)

text \<open>Where a pattern element ends does not depend on the character it is matched with.\<close>

lemma class_loop_rest: "snd (class_loop nocase ch p m) = snd (class_loop nocase ch' p m')"
proof (induction nocase ch p m arbitrary: m' rule: class_loop.induct)
  case (1 nocase ch p m)
  show ?case
    by (subst (1 2) class_loop.simps) (use 1 in \<open>auto split: if_splits\<close>)
qed

lemma match_one_rest: "snd (match_one nocase p ch) = snd (match_one nocase p ch')"
  using class_loop_rest [of nocase ch _ False ch' False]
  by (simp add: match_one_def Let_def split_beta)

lemma stringmatchlen_impl_glob:
  "s \<noteq> [] \<Longrightarrow> \<not> skip \<Longrightarrow>
     fst (stringmatchlen_impl nocase p s skip) = glob nocase p s \<and>
     (\<not> fst (stringmatchlen_impl nocase p s skip) \<and> snd (stringmatchlen_impl nocase p s skip) \<longrightarrow>
        (\<forall>k. \<not> glob nocase p (drop k s)))"
  "p \<noteq> [] \<Longrightarrow> hd p \<noteq> 42 \<Longrightarrow> \<not> skip \<Longrightarrow>
     fst (star_loop nocase p s skip) = (\<exists>k. glob nocase p (drop k s)) \<and>
     (\<not> fst (star_loop nocase p s skip) \<longrightarrow> snd (star_loop nocase p s skip))"
proof (induction nocase p s skip and nocase p s skip rule: stringmatchlen_impl_star_loop.induct)
  case (1 nocase p s skip)
  have sk: "skip = False" using 1 by simp
  consider (nil) "p = []" | (stars) "p \<noteq> []" "hd p = 42" "skip_stars p = []"
    | (star) "p \<noteq> []" "hd p = 42" "skip_stars p \<noteq> []" | (one) "p \<noteq> []" "hd p \<noteq> 42" by blast
  then show ?case
  proof cases
    case nil
    then show ?thesis using 1(3) sk by (subst (1 2 3) stringmatchlen_impl.simps) (simp add: glob.simps)
  next
    case stars
    then have "glob nocase p s"
      using glob_stars [OF stars(1,2)] by (auto simp: glob.simps intro!: exI [of _ "length s"])
    then show ?thesis using stars 1(3) by (simp add: stringmatchlen_impl.simps [of nocase p s skip])
  next
    case star
    have eq: "stringmatchlen_impl nocase p s skip = star_loop nocase (skip_stars p) s skip"
      using star 1(3) by (simp add: stringmatchlen_impl.simps [of nocase p s skip])
    have IH: "fst (star_loop nocase (skip_stars p) s skip) = (\<exists>k. glob nocase (skip_stars p) (drop k s))"
      using 1(1) star 1(3,4) skip_stars_hd by blast
    have "\<not> glob nocase p (drop k s)" if "\<not> (\<exists>k. glob nocase (skip_stars p) (drop k s))" for k
      using that glob_stars [OF star(1,2)] by auto
    then show ?thesis using eq IH glob_stars [OF star(1,2)] by auto
  next
    case one
    define m p' where "m = fst (match_one nocase p (hd s))" and "p' = snd (match_one nocase p (hd s))"
    have mp: "match_one nocase p (hd s) = (m, p')" by (simp add: m_def p'_def)
    have g: "glob nocase p s \<longleftrightarrow> m \<and> glob nocase p' (tl s)"
      using one 1(3) by (subst glob.simps) (simp add: m_def p'_def)
    have eq: "stringmatchlen_impl nocase p s skip =
       (if \<not> m then (False, skip) else if tl s = [] then (skip_stars p' = [], skip)
        else stringmatchlen_impl nocase p' (tl s) skip)"
      using one 1(3) mp by (simp add: stringmatchlen_impl.simps [of nocase p s skip])
    show ?thesis
    proof (cases "m \<and> tl s \<noteq> []")
      case False
      then show ?thesis using eq g sk by (auto simp: glob_empty)
    next
      case True
      have "fst (stringmatchlen_impl nocase p' (tl s) skip) = glob nocase p' (tl s) \<and>
        (\<not> fst (stringmatchlen_impl nocase p' (tl s) skip) \<and> snd (stringmatchlen_impl nocase p' (tl s) skip) \<longrightarrow>
          (\<forall>k. \<not> glob nocase p' (drop k (tl s))))"
        using 1(2) one 1(3,4) mp True by auto
      moreover have "\<not> glob nocase p (drop k s)" if "\<forall>k. \<not> glob nocase p' (drop k (tl s))" for k
      proof -
        have "\<not> glob nocase (snd (match_one nocase p (hd (drop k s)))) (tl (drop k s))"
          using that match_one_rest [of nocase p "hd (drop k s)" "hd s"]
          by (simp add: p'_def tl_drop)
        then show ?thesis using one by (subst glob.simps) simp
      qed
      ultimately show ?thesis using eq g True by auto
    qed
  qed
next
  case (2 nocase p s skip)
  show ?case
  proof (cases "s = []")
    case True
    have "skip_stars p \<noteq> []" using 2(3,4) by (cases p) (auto simp: skip_stars_def)
    then show ?thesis using True by (simp add: star_loop.simps [of nocase p "[]" skip] glob_empty)
  next
    case False
    obtain r sk where i: "stringmatchlen_impl nocase p s skip = (r, sk)" by fastforce
    have IH: "r = glob nocase p s" "\<not> r \<and> sk \<longrightarrow> (\<forall>k. \<not> glob nocase p (drop k s))"
      using 2(1) False 2(5) i by auto
    have eq: "star_loop nocase p s skip =
       (if r then (True, sk) else if sk then (False, sk) else star_loop nocase p (tl s) sk)"
      using False i by (simp add: star_loop.simps [of nocase p s skip])
    show ?thesis
    proof (cases "r \<or> sk")
      case True
      then show ?thesis using eq IH by (auto intro!: exI [of _ 0])
    next
      case go: False
      then have IH2: "fst (star_loop nocase p (tl s) sk) = (\<exists>k. glob nocase p (drop k (tl s)))"
        "\<not> fst (star_loop nocase p (tl s) sk) \<longrightarrow> snd (star_loop nocase p (tl s) sk)"
        using 2(2) [OF False i [symmetric]] 2(3,4) by auto
      have "(\<exists>k. glob nocase p (drop k s)) \<longleftrightarrow> (\<exists>k. glob nocase p (drop k (tl s)))"
      proof
        assume "\<exists>k. glob nocase p (drop k s)"
        then obtain k where "glob nocase p (drop k s)" by blast
        moreover have "k \<noteq> 0" using calculation IH(1) go by (cases k) auto
        ultimately show "\<exists>k. glob nocase p (drop k (tl s))"
          by (cases k) (auto simp: drop_Suc)
      qed (auto simp flip: drop_Suc)
      then show ?thesis using eq go IH2 by simp
    qed
  qed
qed

section \<open>Property\<close>


end
