(* ===== verification/Listpack_Encoding.thy ===== *)
theory Listpack_Encoding
  imports Util_Numbers
begin

text \<open>
  The entry encodings of \<^verbatim>\<open>listpack.c\<close>: integers in one to nine bytes, strings with a length in
  one, two or five bytes, and the length of an entry written backwards behind it (\<open>backlen\<close>), so
  that a listpack can be traversed in both directions.

  A function that takes a pointer into a listpack takes here the bytes from the pointer to the end of
  the allocation; \<open>lpDecodeBacklen\<close>, which moves to lower addresses, takes the bytes from the pointer
  down to the start.  \<^term>\<open>None\<close> is a read outside the allocation.
\<close>

unbundle bit_operations_syntax

section \<open>The model\<close>

definition LP_EOF :: byte where "LP_EOF = 0xFF"
definition UINT64_MAX_nat :: nat where "UINT64_MAX_nat = 2 ^ 64 - 1"

definition LP_ENCODING_IS_7BIT_UINT :: "byte \<Rightarrow> bool" where
  "LP_ENCODING_IS_7BIT_UINT b \<longleftrightarrow> b AND 0x80 = 0"
definition LP_ENCODING_IS_6BIT_STR :: "byte \<Rightarrow> bool" where
  "LP_ENCODING_IS_6BIT_STR b \<longleftrightarrow> b AND 0xC0 = 0x80"
definition LP_ENCODING_IS_13BIT_INT :: "byte \<Rightarrow> bool" where
  "LP_ENCODING_IS_13BIT_INT b \<longleftrightarrow> b AND 0xE0 = 0xC0"
definition LP_ENCODING_IS_12BIT_STR :: "byte \<Rightarrow> bool" where
  "LP_ENCODING_IS_12BIT_STR b \<longleftrightarrow> b AND 0xF0 = 0xE0"

text \<open>The loop of \<open>lpStringToInt64\<close> is that of \<open>string2ll\<close>.\<close>

definition lpStringToInt64 :: "bytes \<Rightarrow> int option" where
  "lpStringToInt64 s =
     (if length s = 0 \<or> length s \<ge> LONG_STR_SIZE then None
      else if s = [48] then Some 0
      else let negative = (hd s = 45); p = (if negative then tl s else s) in
        if p = [] then None
        else if \<not> (49 \<le> unat (hd p) \<and> unat (hd p) \<le> 57) then None
        else do {
          (v, rest) \<leftarrow> string2ll_loop (digit_val (hd p)) (tl p);
          if rest \<noteq> [] then None
          else if negative then
            (if v > nat (- (INT64_MIN + 1)) + 1 then None else Some (- int v))
          else (if int v > INT64_MAX then None else Some (int v))
        })"

text \<open>The bytes stored in \<open>intenc\<close>; their number is \<open>enclen\<close>.\<close>

definition lpEncodeIntegerGetType :: "int \<Rightarrow> bytes" where
  "lpEncodeIntegerGetType v =
     (if 0 \<le> v \<and> v \<le> 127 then [word_of_int v]
      else if -4096 \<le> v \<and> v \<le> 4095 then
        (let u = (if v < 0 then 2 ^ 13 + v else v)
         in [word_of_int (u div 256) OR 0xC0, word_of_int u])
      else if -32768 \<le> v \<and> v \<le> 32767 then
        0xF1 # le_bytes 2 (if v < 0 then 2 ^ 16 + v else v)
      else if -8388608 \<le> v \<and> v \<le> 8388607 then
        0xF2 # le_bytes 3 (if v < 0 then 2 ^ 24 + v else v)
      else if -2147483648 \<le> v \<and> v \<le> 2147483647 then
        0xF3 # le_bytes 4 (if v < 0 then 2 ^ 32 + v else v)
      else 0xF4 # le_bytes 8 (v mod 2 ^ 64))"

text \<open>\<open>Inl\<close>: encoded as an integer, \<open>Inr\<close>: as a string; with \<open>enclen\<close>.\<close>

definition lpEncodeGetType :: "bytes \<Rightarrow> bytes + nat" where
  "lpEncodeGetType ele =
     (case lpStringToInt64 ele of
        Some v \<Rightarrow> Inl (lpEncodeIntegerGetType v)
      | None \<Rightarrow>
          Inr (if length ele < 64 then 1 + length ele
               else if length ele < 4096 then 2 + length ele else 5 + length ele))"

definition lpEncodeBacklen :: "nat \<Rightarrow> bytes" where
  "lpEncodeBacklen l =
     (if l \<le> 127 then [of_nat l]
      else if l < 16383 then
        [of_nat (l div 2 ^ 7), of_nat (l mod 128) OR 128]
      else if l < 2097151 then
        [of_nat (l div 2 ^ 14), of_nat (l div 2 ^ 7 mod 128) OR 128, of_nat (l mod 128) OR 128]
      else if l < 268435455 then
        [of_nat (l div 2 ^ 21), of_nat (l div 2 ^ 14 mod 128) OR 128,
         of_nat (l div 2 ^ 7 mod 128) OR 128, of_nat (l mod 128) OR 128]
      else
        [of_nat (l div 2 ^ 28), of_nat (l div 2 ^ 21 mod 128) OR 128,
         of_nat (l div 2 ^ 14 mod 128) OR 128, of_nat (l div 2 ^ 7 mod 128) OR 128,
         of_nat (l mod 128) OR 128])"

fun lpDecodeBacklen_loop :: "bytes \<Rightarrow> nat \<Rightarrow> nat \<Rightarrow> nat option" where
  "lpDecodeBacklen_loop [] val shift = None"
| "lpDecodeBacklen_loop (b # p) val shift =
     (let val = val + unat (b AND 127) * 2 ^ shift in
      if b AND 128 = 0 then Some val
      else if shift + 7 > 28 then Some UINT64_MAX_nat
      else lpDecodeBacklen_loop p val (shift + 7))"

definition lpDecodeBacklen :: "bytes \<Rightarrow> nat option" where
  "lpDecodeBacklen p = lpDecodeBacklen_loop p 0 0"

definition lpEncodeString :: "bytes \<Rightarrow> bytes" where
  "lpEncodeString s =
     (let len = length s in
      if len < 64 then (of_nat len OR 0x80) # s
      else if len < 4096 then (of_nat (len div 256) OR 0xE0) # of_nat len # s
      else 0xF0 # le_bytes 4 (int len) @ s)"

definition rd :: "bytes \<Rightarrow> nat \<Rightarrow> byte option" where
  "rd p i = (if i < length p then Some (p ! i) else None)"

definition LP_ENCODING_6BIT_STR_LEN :: "byte \<Rightarrow> nat" where
  "LP_ENCODING_6BIT_STR_LEN b = unat (b AND 0x3F)"

definition LP_ENCODING_12BIT_STR_LEN :: "bytes \<Rightarrow> nat option" where
  "LP_ENCODING_12BIT_STR_LEN p = do {
     b0 \<leftarrow> rd p 0; b1 \<leftarrow> rd p 1;
     Some (unat (b0 AND 0xF) * 256 + unat b1)
   }"

definition LP_ENCODING_32BIT_STR_LEN :: "bytes \<Rightarrow> nat option" where
  "LP_ENCODING_32BIT_STR_LEN p = map_option (nat \<circ> le_uint) (mem_read p 1 4)"

definition lpCurrentEncodedSizeUnsafe :: "bytes \<Rightarrow> nat option" where
  "lpCurrentEncodedSizeUnsafe p = do {
     b \<leftarrow> rd p 0;
     if LP_ENCODING_IS_7BIT_UINT b then Some 1
     else if LP_ENCODING_IS_6BIT_STR b then Some (1 + LP_ENCODING_6BIT_STR_LEN b)
     else if LP_ENCODING_IS_13BIT_INT b then Some 2
     else if b = 0xF1 then Some 3
     else if b = 0xF2 then Some 4
     else if b = 0xF3 then Some 5
     else if b = 0xF4 then Some 9
     else if LP_ENCODING_IS_12BIT_STR b then map_option (\<lambda>n. 2 + n) (LP_ENCODING_12BIT_STR_LEN p)
     else if b = 0xF0 then map_option (\<lambda>n. (5 + n) mod 2 ^ 32) (LP_ENCODING_32BIT_STR_LEN p)
     else if b = LP_EOF then Some 1
     else Some 0
   }"

definition lpCurrentEncodedSizeBytes :: "bytes \<Rightarrow> nat option" where
  "lpCurrentEncodedSizeBytes p = do {
     b \<leftarrow> rd p 0;
     if LP_ENCODING_IS_7BIT_UINT b then Some 1
     else if LP_ENCODING_IS_6BIT_STR b then Some 1
     else if LP_ENCODING_IS_13BIT_INT b then Some 1
     else if b = 0xF1 then Some 1
     else if b = 0xF2 then Some 1
     else if b = 0xF3 then Some 1
     else if b = 0xF4 then Some 1
     else if LP_ENCODING_IS_12BIT_STR b then Some 2
     else if b = 0xF0 then Some 5
     else if b = LP_EOF then Some 1
     else Some 0
   }"

text \<open>What \<open>lpGet\<close> returns: a string inside the listpack, as the offset from the pointer and the
  length, or an integer.\<close>

datatype lpval = LpStr nat nat | LpInt int

text \<open>Two's complement, with the comparison of the code: \<open>uval >= negstart\<close>.\<close>

definition lp_signed :: "int \<Rightarrow> int \<Rightarrow> int \<Rightarrow> int" where
  "lp_signed uval negstart negmax =
     (if uval \<ge> negstart then - ((negmax - uval) mod 2 ^ 64) - 1 else uval)"

text \<open>The value, and \<open>*entry_size\<close> where the code sets it.\<close>

definition lpGetWithSize :: "bytes \<Rightarrow> (lpval \<times> nat option) option" where
  "lpGetWithSize p = do {
     b \<leftarrow> rd p 0;
     if LP_ENCODING_IS_7BIT_UINT b then Some (LpInt (uint (b AND 0x7F)), Some 2)
     else if LP_ENCODING_IS_6BIT_STR b then
       (let n = LP_ENCODING_6BIT_STR_LEN b
        in Some (LpStr 1 n, Some (1 + n + length (lpEncodeBacklen (n + 1)))))
     else if LP_ENCODING_IS_13BIT_INT b then do {
       b1 \<leftarrow> rd p 1;
       Some (LpInt (lp_signed (uint (b AND 0x1F) * 256 + uint b1) (2 ^ 12) 8191), Some 3)
     }
     else if b = 0xF1 then do {
       u \<leftarrow> mem_read p 1 2; Some (LpInt (lp_signed (le_uint u) (2 ^ 15) (2 ^ 16 - 1)), Some 4)
     }
     else if b = 0xF2 then do {
       u \<leftarrow> mem_read p 1 3; Some (LpInt (lp_signed (le_uint u) (2 ^ 23) (2 ^ 24 - 1)), Some 5)
     }
     else if b = 0xF3 then do {
       u \<leftarrow> mem_read p 1 4; Some (LpInt (lp_signed (le_uint u) (2 ^ 31) (2 ^ 32 - 1)), Some 6)
     }
     else if b = 0xF4 then do {
       u \<leftarrow> mem_read p 1 8; Some (LpInt (lp_signed (le_uint u) (2 ^ 63) (2 ^ 64 - 1)), Some 10)
     }
     else if LP_ENCODING_IS_12BIT_STR b then do {
       n \<leftarrow> LP_ENCODING_12BIT_STR_LEN p;
       Some (LpStr 2 n, Some (2 + n + length (lpEncodeBacklen (n + 2))))
     }
     else if b = 0xF0 then do {
       n \<leftarrow> LP_ENCODING_32BIT_STR_LEN p;
       Some (LpStr 5 n, Some (5 + n + length (lpEncodeBacklen (n + 5))))
     }
     else Some (LpInt (12345678900000000 + uint b), None)
   }"

definition lpGet :: "bytes \<Rightarrow> lpval option" where
  "lpGet p = map_option fst (lpGetWithSize p)"

text \<open>The form with a buffer, which always yields a string.\<close>

definition LP_INTBUF_SIZE :: nat where "LP_INTBUF_SIZE = 21"

definition lpGet_intbuf :: "bytes \<Rightarrow> bytes \<Rightarrow> bytes option" where
  "lpGet_intbuf p intbuf = do {
     v \<leftarrow> lpGet p;
     (case v of
        LpStr off n \<Rightarrow> mem_read p off n
      | LpInt i \<Rightarrow> do { (n, buf) \<leftarrow> ll2string intbuf i; Some (take n buf) })
   }"

definition lpGetIntegerValue :: "bytes \<Rightarrow> int option option" where
  "lpGetIntegerValue p = do {
     v \<leftarrow> lpGet p;
     Some (case v of LpInt i \<Rightarrow> Some i | LpStr _ _ \<Rightarrow> None)
   }"

definition lpSkip :: "bytes \<Rightarrow> nat option" where
  "lpSkip p = do {
     entrylen \<leftarrow> lpCurrentEncodedSizeUnsafe p;
     Some (entrylen + length (lpEncodeBacklen entrylen))
   }"

text \<open>Whether the entry equals the string \<open>s\<close>.\<close>

definition lpCompare :: "bytes \<Rightarrow> bytes \<Rightarrow> bool option" where
  "lpCompare p s = do {
     b \<leftarrow> rd p 0;
     if b = LP_EOF then Some False
     else do {
       v \<leftarrow> lpGet p;
       (case v of
          LpStr off n \<Rightarrow>
            if length s = n then do { t \<leftarrow> mem_read p off n; Some (t = s) } else Some False
        | LpInt sz \<Rightarrow> Some (lpStringToInt64 s = Some sz))
     }
   }"

definition lpEntrySizeInteger :: "int \<Rightarrow> nat" where
  "lpEntrySizeInteger lval =
     (let enclen = length (lpEncodeIntegerGetType lval) in enclen + length (lpEncodeBacklen enclen))"

definition lpEstimateBytesRepeatedInteger :: "int \<Rightarrow> nat \<Rightarrow> nat" where
  "lpEstimateBytesRepeatedInteger lval rep = 6 + lpEntrySizeInteger lval * rep + 1"

section \<open>Bytes\<close>

lemma lpStringToInt64_eq: "lpStringToInt64 s = string2ll s"
  by (simp add: lpStringToInt64_def string2ll_def)

lemma unat_byte_less: "unat (b :: byte) < 256"
  using unsigned_less [of b] by simp

lemma and_high:
  assumes "k \<le> 8" shows "(b :: byte) AND push_bit k (mask (8 - k)) = push_bit k (drop_bit k b)"
  using assms by (intro bit_eqI) (auto simp: bit_simps)

lemma unat_and_high:
  assumes "k \<le> 8" shows "unat ((b :: byte) AND push_bit k (mask (8 - k))) = unat b div 2 ^ k * 2 ^ k"
proof -
  have "unat b div 2 ^ k * 2 ^ k \<le> unat b" by simp
  then have "unat b div 2 ^ k * 2 ^ k < 256" using unat_byte_less [of b] by (rule le_less_trans)
  then have "unat (push_bit k (drop_bit k b)) = unat b div 2 ^ k * 2 ^ k"
    by (simp add: unsigned_push_bit_eq unat_drop_bit_eq push_bit_eq_mult [where ?'a = nat]
        drop_bit_eq_div [where ?'a = nat] take_bit_eq_mod)
  then show ?thesis using assms by (simp add: and_high)
qed

lemma byte_class:
  "LP_ENCODING_IS_7BIT_UINT b \<longleftrightarrow> unat b < 128"
  "LP_ENCODING_IS_6BIT_STR b \<longleftrightarrow> unat b div 64 = 2"
  "LP_ENCODING_IS_13BIT_INT b \<longleftrightarrow> unat b div 32 = 6"
  "LP_ENCODING_IS_12BIT_STR b \<longleftrightarrow> unat b div 16 = 14"
  unfolding LP_ENCODING_IS_7BIT_UINT_def LP_ENCODING_IS_6BIT_STR_def
    LP_ENCODING_IS_13BIT_INT_def LP_ENCODING_IS_12BIT_STR_def word_unat_eq_iff
  using unat_and_high [of 7 b] unat_and_high [of 6 b] unat_and_high [of 5 b] unat_and_high [of 4 b]
  by (simp_all add: mask_eq_exp_minus_1 push_bit_eq_mult div_eq_0_iff)

lemma unat_and_low: "unat ((b :: byte) AND mask k) = unat b mod 2 ^ k"
  by (simp add: take_bit_eq_mask [symmetric] unsigned_take_bit_eq take_bit_eq_mod [where ?'a = nat])

lemma byte_low:
  "unat ((b :: byte) AND 0x7F) = unat b mod 128" "unat (b AND 0x3F) = unat b mod 64"
  "unat (b AND 0x1F) = unat b mod 32" "unat (b AND 0xF) = unat b mod 16"
  using unat_and_low [of b 7] unat_and_low [of b 6] unat_and_low [of b 5] unat_and_low [of b 4]
  by (simp_all add: mask_eq_exp_minus_1)

lemma byte_bit7: "(b :: byte) AND 128 = 0 \<longleftrightarrow> unat b < 128"
  using byte_class(1) [of b] by (simp add: LP_ENCODING_IS_7BIT_UINT_def)

lemma unat_or_high:
  assumes "x < 2 ^ k" "c < 2 ^ (8 - k)" "k \<le> 8"
  shows "unat ((of_nat x :: byte) OR push_bit k (of_nat c)) = x + c * 2 ^ k"
proof -
  have x: "x < 256" and "c * 2 ^ k + x < 256"
  proof -
    have "x + c * 2 ^ k < (c + 1) * 2 ^ k" using assms(1) by simp
    also have "\<dots> \<le> 2 ^ (8 - k) * 2 ^ k" using assms(2) by (intro mult_le_mono1) simp
    also have "\<dots> = 256" using assms(3) by (simp flip: power_add)
    finally show "c * 2 ^ k + x < 256" "x < 256" by simp_all
  qed
  have "(of_nat x :: byte) = take_bit k (of_nat x)"
    using assms(1) by (simp add: of_nat_take_bit [symmetric] take_bit_nat_eq_self)
  then have "bit (of_nat x :: byte) i \<Longrightarrow> i < k" for i
    by (metis bit_take_bit_iff)
  then have "(of_nat x :: byte) AND push_bit k (of_nat c) = 0"
    by (intro bit_eqI) (force simp: bit_simps)
  then have "(of_nat x :: byte) OR push_bit k (of_nat c) = of_nat x + push_bit k (of_nat c)"
    by (rule disjunctive_add_eq_or [symmetric])
  also have "\<dots> = of_nat (x + c * 2 ^ k)" by (simp add: push_bit_eq_mult)
  finally show ?thesis using \<open>c * 2 ^ k + x < 256\<close> by (simp add: unat_of_nat del: of_nat_add of_nat_mult)
qed

lemma byte_or:
  "x < 128 \<Longrightarrow> unat ((of_nat x :: byte) OR 128) = x + 128"
  "x < 64 \<Longrightarrow> unat ((of_nat x :: byte) OR 0x80) = x + 128"
  "x < 32 \<Longrightarrow> unat ((of_nat x :: byte) OR 0xC0) = x + 192"
  "x < 16 \<Longrightarrow> unat ((of_nat x :: byte) OR 0xE0) = x + 224"
  using unat_or_high [of x 7 1] unat_or_high [of x 5 6] unat_or_high [of x 4 14]
  by (simp_all add: push_bit_eq_mult)

lemma rd_simps [simp]: "rd (b # p) 0 = Some b" "rd (b # p) (Suc i) = rd p i" "rd [] i = None"
  by (simp_all add: rd_def)

lemma rd_append: "i < length p \<Longrightarrow> rd (p @ q) i = Some (p ! i)"
  by (simp add: rd_def nth_append)

lemma word_of_int_nat: "0 \<le> v \<Longrightarrow> (word_of_int v :: byte) = of_nat (nat v)"
  by simp

lemma lp_signed_roundtrip:
  assumes "- m \<le> v" "v < m" "m \<le> 2 ^ 63" "0 < m"
  shows "lp_signed (if v < 0 then 2 * m + v else v) m (2 * m - 1) = v"
proof (cases "v < 0")
  case True
  then have "(- 1 - v) mod 2 ^ 64 = - 1 - v" using assms by (intro mod_pos_pos_trivial) auto
  then show ?thesis using True assms by (simp add: lp_signed_def)
qed (use assms in \<open>simp add: lp_signed_def\<close>)

lemma mem_read_Cons_0: "mem_read (b # p) (Suc off) n = mem_read p off n"
  by (simp add: mem_read_def)

lemma mem_read_0_append: "length x = n \<Longrightarrow> mem_read (x @ y) 0 n = Some x"
  by (simp add: mem_read_def)

lemma le_uint_le_bytes_id: "0 \<le> v \<Longrightarrow> v < 256 ^ n \<Longrightarrow> le_uint (le_bytes n v) = v"
  by (simp add: le_uint_le_bytes)

lemma classes_F:
  "unat (0xF1 :: byte) = 241" "unat (0xF2 :: byte) = 242" "unat (0xF3 :: byte) = 243"
  "unat (0xF4 :: byte) = 244" "unat (0xF0 :: byte) = 240" "unat (0xFF :: byte) = 255"
  by simp_all

lemma byte_neq: "unat b < 240 \<Longrightarrow> b \<noteq> 0xF0 \<and> b \<noteq> 0xF1 \<and> b \<noteq> 0xF2 \<and> b \<noteq> 0xF3 \<and> b \<noteq> 0xF4 \<and> b \<noteq> (0xFF :: byte)"
  by auto

lemma lp_13bit:
  assumes "-4096 \<le> v" "v \<le> 4095"
  defines "u \<equiv> (if v < 0 then 2 ^ 13 + v else v)"
  defines "b \<equiv> (word_of_int (u div 256) OR 0xC0 :: byte)"
  shows "unat b div 32 = 6" "unat b < 240" "128 \<le> unat b" "unat b div 64 = 3"
    "lp_signed (uint (b AND 0x1F) * 256 + uint (word_of_int u :: byte)) (2 ^ 12) 8191 = v"
proof -
  have u: "0 \<le> u" "u < 8192" using assms(1,2) by (auto simp: u_def)
  define n where "n = nat (u div 256)"
  have n: "n < 32" "u div 256 = int n" using u by (auto simp: n_def)
  have b: "unat b = n + 192" using byte_or(3) [OF n(1)] by (simp add: b_def n(2))
  then show "unat b div 32 = 6" "unat b < 240" "128 \<le> unat b" "unat b div 64 = 3" using n(1) by auto
  have "unat (b AND 0x1F) = n" using byte_low(3) [of b] b n(1) mod_mult_self1 [of n 6 32] by simp
  then have "uint (b AND 0x1F) = u div 256" using n(2) by (metis int_eq_iff uint_nat)
  moreover have "uint (word_of_int u :: byte) = u mod 256" by (simp add: uint_word_of_int)
  moreover have "lp_signed u (2 ^ 12) 8191 = v"
    using lp_signed_roundtrip [of "2 ^ 12" v] assms(1,2) by (simp add: u_def split: if_splits)
  ultimately show "lp_signed (uint (b AND 0x1F) * 256 + uint (word_of_int u :: byte)) (2 ^ 12) 8191 = v"
    by simp
qed

lemma lp_7bit:
  assumes "0 \<le> v" "v \<le> 127"
  defines "b \<equiv> (word_of_int v :: byte)"
  shows "unat b < 128" "uint (b AND 0x7F) = v"
proof -
  have b: "unat b = nat v" using assms(1,2) by (simp add: b_def unat_eq_nat_uint uint_word_of_int)
  then show "unat b < 128" using assms by simp
  then have "unat (b AND 0x7F) = nat v" using byte_low(1) [of b] b by simp
  then show "uint (b AND 0x7F) = v" using assms by (metis int_nat_eq uint_nat)
qed

lemma lpGet_integer:
  assumes "in_int64 v"
  defines "e \<equiv> lpEncodeIntegerGetType v"
  shows "lpGetWithSize (e @ r) = Some (LpInt v, Some (length e + length (lpEncodeBacklen (length e))))"
proof -
  note F = byte_class classes_F lpGetWithSize_def mem_read_Cons_0 mem_read_0_append le_uint_le_bytes_id lpEncodeBacklen_def
  consider (a) "0 \<le> v" "v \<le> 127" | (b) "\<not> (0 \<le> v \<and> v \<le> 127)" "-4096 \<le> v" "v \<le> 4095"
    | (c) "\<not> (-4096 \<le> v \<and> v \<le> 4095)" "-32768 \<le> v" "v \<le> 32767"
    | (d) "\<not> (-32768 \<le> v \<and> v \<le> 32767)" "-8388608 \<le> v" "v \<le> 8388607"
    | (f) "\<not> (-8388608 \<le> v \<and> v \<le> 8388607)" "-2147483648 \<le> v" "v \<le> 2147483647"
    | (g) "\<not> (-2147483648 \<le> v \<and> v \<le> 2147483647)" by argo
  then show ?thesis
  proof cases
    case a
    then have "e = [word_of_int v]" by (simp add: e_def lpEncodeIntegerGetType_def)
    then obtain b where "e = [b]" "unat b < 128" "uint (b AND 0x7F) = v" using lp_7bit [OF a] by blast
    then show ?thesis by (simp add: F)
  next
    case b
    define u where "u = (if v < 0 then 2 ^ 13 + v else v)"
    have "e = [word_of_int (u div 256) OR 0xC0, word_of_int u]"
      using b by (auto simp: e_def lpEncodeIntegerGetType_def u_def Let_def)
    then obtain c d where "e = [c, d]" "unat c div 32 = 6" "unat c < 240" "128 \<le> unat c" "unat c div 64 = 3"
      "lp_signed (uint (c AND 0x1F) * 256 + uint d) (2 ^ 12) 8191 = v"
      using lp_13bit [OF b(2,3)] unfolding u_def [symmetric] by blast
    then show ?thesis using byte_neq [of c] by (simp add: F)
  next
    case c
    then have "e = 0xF1 # le_bytes 2 (if v < 0 then 2 ^ 16 + v else v)" by (auto simp: e_def lpEncodeIntegerGetType_def)
    then show ?thesis using c lp_signed_roundtrip [of "2 ^ 15" v] by (simp add: F split: if_splits)
  next
    case d
    then have "e = 0xF2 # le_bytes 3 (if v < 0 then 2 ^ 24 + v else v)" by (auto simp: e_def lpEncodeIntegerGetType_def)
    then show ?thesis using d lp_signed_roundtrip [of "2 ^ 23" v] by (simp add: F split: if_splits)
  next
    case f
    then have "e = 0xF3 # le_bytes 4 (if v < 0 then 2 ^ 32 + v else v)" by (auto simp: e_def lpEncodeIntegerGetType_def)
    then show ?thesis using f lp_signed_roundtrip [of "2 ^ 31" v] by (simp add: F split: if_splits)
  next
    case g
    have "v mod 2 ^ 64 = (if v < 0 then 2 ^ 64 + v else v)"
    proof (cases "v < 0")
      case True
      then have "(v + 2 ^ 64) mod 2 ^ 64 = v + 2 ^ 64" using assms(1) by (intro mod_pos_pos_trivial) (auto simp: in_int64_def)
      then show ?thesis using True by simp
    qed (use assms(1) in \<open>simp add: in_int64_def\<close>)
    moreover have "e = 0xF4 # le_bytes 8 (v mod 2 ^ 64)" using g by (auto simp: e_def lpEncodeIntegerGetType_def)
    ultimately show ?thesis using g assms(1) lp_signed_roundtrip [of "2 ^ 63" v] by (simp add: F in_int64_def split: if_splits)
  qed
qed

datatype lpele = LInt int | LStr bytes

fun lp_enc :: "lpele \<Rightarrow> bytes" where
  "lp_enc (LInt v) = lpEncodeIntegerGetType v"
| "lp_enc (LStr s) = lpEncodeString s"

fun lpele_ok :: "lpele \<Rightarrow> bool" where
  "lpele_ok (LInt v) \<longleftrightarrow> in_int64 v"
| "lpele_ok (LStr s) \<longleftrightarrow> length s + 5 < 2 ^ 32"

lemma int_shape:
  "\<exists>b t. lpEncodeIntegerGetType v = b # t \<and>
     (unat b < 128 \<and> length t = 0 \<or> unat b div 32 = 6 \<and> length t = 1 \<or> b = 0xF1 \<and> length t = 2 \<or>
      b = 0xF2 \<and> length t = 3 \<or> b = 0xF3 \<and> length t = 4 \<or> b = 0xF4 \<and> length t = 8)"
proof -
  consider "0 \<le> v \<and> v \<le> 127" | "\<not> (0 \<le> v \<and> v \<le> 127)" "-4096 \<le> v \<and> v \<le> 4095"
    | "\<not> (-4096 \<le> v \<and> v \<le> 4095)" by argo
  then show ?thesis
  proof cases
    case 1
    then show ?thesis using lp_7bit(1) [of v] by (simp add: lpEncodeIntegerGetType_def)
  next
    case 2
    define u where "u = (if v < 0 then 2 ^ 13 + v else v)"
    have "lpEncodeIntegerGetType v = [word_of_int (u div 256) OR 0xC0, word_of_int u]"
      using 2 by (auto simp: lpEncodeIntegerGetType_def u_def Let_def)
    moreover have "unat (word_of_int (u div 256) OR 0xC0 :: byte) div 32 = 6"
      using lp_13bit(1) [of v] 2(2) unfolding u_def [symmetric] by blast
    ultimately show ?thesis by simp
  next
    case 3
    then show ?thesis by (auto simp: lpEncodeIntegerGetType_def)
  qed
qed

lemma str_shape:
  assumes "length s + 5 < 2 ^ 32"
  shows "\<exists>b h. lpEncodeString s = b # h @ s \<and>
     (length s < 64 \<and> unat b div 64 = 2 \<and> unat b mod 64 = length s \<and> h = [] \<or>
      64 \<le> length s \<and> length s < 4096 \<and> unat b div 16 = 14 \<and> (\<exists>c. h = [c] \<and> unat b mod 16 * 256 + unat c = length s) \<or>
      4096 \<le> length s \<and> b = 0xF0 \<and> h = le_bytes 4 (int (length s)))"
proof -
  define n where "n = length s"
  consider (a) "n < 64" | (b) "64 \<le> n" "n < 4096" | (c) "4096 \<le> n" by linarith
  then show ?thesis
  proof cases
    case a
    have "unat (of_nat n OR 0x80 :: byte) = n + 128" using byte_or(2) [OF a] .
    moreover have "(n + 128) div 64 = 2" "(n + 128) mod 64 = n" using a mod_mult_self1 [of n 2 64] by simp_all
    ultimately show ?thesis using a by (simp add: lpEncodeString_def n_def Let_def)
  next
    case b
    then have d: "n div 256 < 16" by (simp add: div_less_iff_less_mult)
    have "unat (of_nat (n div 256) OR 0xE0 :: byte) = n div 256 + 224" using byte_or(4) [OF d] .
    moreover have "(n div 256 + 224) div 16 = 14" "(n div 256 + 224) mod 16 = n div 256"
      using d mod_mult_self1 [of "n div 256" 14 16] by simp_all
    moreover have "unat (of_nat n :: byte) = n mod 256" by (simp add: unat_of_nat)
    ultimately show ?thesis using b by (simp add: lpEncodeString_def n_def Let_def)
  next
    case c
    then show ?thesis by (simp add: lpEncodeString_def n_def Let_def)
  qed
qed

lemma div_class:
  "(x :: nat) div 32 = 6 \<longleftrightarrow> 192 \<le> x \<and> x < 224"
  "x div 64 = 2 \<longleftrightarrow> 128 \<le> x \<and> x < 192"
  "x div 16 = 14 \<longleftrightarrow> 224 \<le> x \<and> x < 240"
  by linarith+

lemma class_excl:
  "unat (b :: byte) div 32 = 6 \<Longrightarrow> 128 \<le> unat b \<and> unat b < 240 \<and> unat b div 64 \<noteq> 2"
  "unat b div 64 = 2 \<Longrightarrow> 128 \<le> unat b \<and> unat b < 240"
  "unat b div 16 = 14 \<Longrightarrow> 128 \<le> unat b \<and> unat b < 240 \<and> unat b div 64 \<noteq> 2 \<and> unat b div 32 \<noteq> 6"
  unfolding div_class by simp_all

lemmas class_simps = byte_class classes_F LP_ENCODING_6BIT_STR_LEN_def LP_ENCODING_12BIT_STR_LEN_def
  LP_ENCODING_32BIT_STR_LEN_def byte_low mem_read_Cons_0 mem_read_0_append LP_EOF_def

lemma lp_enc_size:
  assumes "lpele_ok e"
  shows "lpCurrentEncodedSizeUnsafe (lp_enc e @ r) = Some (length (lp_enc e))"
    and "\<exists>k. lpCurrentEncodedSizeBytes (lp_enc e @ r) = Some k \<and> 0 < k \<and> k \<le> length (lp_enc e)"
    and "hd (lp_enc e) \<noteq> LP_EOF" and "lp_enc e \<noteq> []"
proof -
  have "lpCurrentEncodedSizeUnsafe (lp_enc e @ r) = Some (length (lp_enc e)) \<and>
     (\<exists>k. lpCurrentEncodedSizeBytes (lp_enc e @ r) = Some k \<and> 0 < k \<and> k \<le> length (lp_enc e)) \<and>
     hd (lp_enc e) \<noteq> LP_EOF \<and> lp_enc e \<noteq> []"
  proof (cases e)
    case (LInt v)
    obtain b t where e: "lpEncodeIntegerGetType v = b # t" and
      c: "unat b < 128 \<and> length t = 0 \<or> unat b div 32 = 6 \<and> length t = 1 \<or> b = 0xF1 \<and> length t = 2 \<or>
      b = 0xF2 \<and> length t = 3 \<or> b = 0xF3 \<and> length t = 4 \<or> b = 0xF4 \<and> length t = 8"
      using int_shape by blast
    from c show ?thesis
      using class_excl [of b] byte_neq [of b]
      by (elim disjE conjE)
        (simp_all add: LInt e lpCurrentEncodedSizeUnsafe_def lpCurrentEncodedSizeBytes_def class_simps)
  next
    case (LStr s)
    then have l: "length s + 5 < 2 ^ 32" using assms by simp
    obtain b h where e: "lpEncodeString s = b # h @ s" and
      c: "length s < 64 \<and> unat b div 64 = 2 \<and> unat b mod 64 = length s \<and> h = [] \<or>
      64 \<le> length s \<and> length s < 4096 \<and> unat b div 16 = 14 \<and> (\<exists>c. h = [c] \<and> unat b mod 16 * 256 + unat c = length s) \<or>
      4096 \<le> length s \<and> b = 0xF0 \<and> h = le_bytes 4 (int (length s))"
      using str_shape [OF l] by blast
    have le: "le_uint (le_bytes 4 (int (length s))) = int (length s)"
      using l by (intro le_uint_le_bytes_id) simp_all
    from c show ?thesis
      using class_excl [of b] byte_neq [of b] l
      by (elim disjE conjE exE)
        (simp_all add: LStr e le lpCurrentEncodedSizeUnsafe_def lpCurrentEncodedSizeBytes_def class_simps)
  qed
  then show "lpCurrentEncodedSizeUnsafe (lp_enc e @ r) = Some (length (lp_enc e))"
    "\<exists>k. lpCurrentEncodedSizeBytes (lp_enc e @ r) = Some k \<and> 0 < k \<and> k \<le> length (lp_enc e)"
    "hd (lp_enc e) \<noteq> LP_EOF" "lp_enc e \<noteq> []" by blast+
qed

lemma lpGet_string:
  assumes "length s + 5 < 2 ^ 32"
  defines "e \<equiv> lpEncodeString s"
  shows "\<exists>off. lpGetWithSize (e @ r) = Some (LpStr off (length s), Some (length e + length (lpEncodeBacklen (length e)))) \<and>
    mem_read (e @ r) off (length s) = Some s"
proof -
  obtain b h where e: "e = b # h @ s" and
      c: "length s < 64 \<and> unat b div 64 = 2 \<and> unat b mod 64 = length s \<and> h = [] \<or>
      64 \<le> length s \<and> length s < 4096 \<and> unat b div 16 = 14 \<and> (\<exists>c. h = [c] \<and> unat b mod 16 * 256 + unat c = length s) \<or>
      4096 \<le> length s \<and> b = 0xF0 \<and> h = le_bytes 4 (int (length s))"
    using str_shape [OF assms(1)] unfolding e_def by blast
  have le: "le_uint (le_bytes 4 (int (length s))) = int (length s)"
    using assms(1) by (intro le_uint_le_bytes_id) simp_all
  have m: "mem_read (e @ r) (Suc (length h)) (length s) = Some s"
    by (simp add: e mem_read_def)
  from c have "lpGetWithSize (e @ r) = Some (LpStr (Suc (length h)) (length s), Some (length e + length (lpEncodeBacklen (length e))))"
    using class_excl [of b] byte_neq [of b]
    by (elim disjE conjE exE)
      (simp_all add: e le lpGetWithSize_def class_simps Let_def add.commute [of 5 "length s"])
  with m show ?thesis by blast
qed

lemma backlen_step:
  assumes "x < 128"
  shows "lpDecodeBacklen_loop ((of_nat x OR 128) # p) val shift =
     (if shift + 7 > 28 then Some UINT64_MAX_nat else lpDecodeBacklen_loop p (val + x * 2 ^ shift) (shift + 7))"
    and "lpDecodeBacklen_loop (of_nat x # p) val shift = Some (val + x * 2 ^ shift)"
proof -
  let ?b = "of_nat x OR 128 :: byte" and ?c = "of_nat x :: byte"
  have b: "unat ?b = x + 128" by (rule byte_or(1) [OF assms])
  have c: "unat ?c = x" using assms by (simp add: unat_of_nat)
  have "unat (?b AND 127) = x" using byte_low(1) [of ?b] b assms mod_mult_self1 [of x 1 128] by simp
  then show "lpDecodeBacklen_loop (?b # p) val shift =
     (if shift + 7 > 28 then Some UINT64_MAX_nat else lpDecodeBacklen_loop p (val + x * 2 ^ shift) (shift + 7))"
    using b byte_bit7 [of ?b] by (simp add: Let_def)
  have "unat (?c AND 127) = x" using byte_low(1) [of ?c] c assms by simp
  then show "lpDecodeBacklen_loop (?c # p) val shift = Some (val + x * 2 ^ shift)"
    using c byte_bit7 [of ?c] assms by (simp add: Let_def)
qed

lemma div_128_power: "(l :: nat) div 2 ^ a * 2 ^ a = l div 2 ^ a mod 128 * 2 ^ a + l div 2 ^ (a + 7) * 2 ^ (a + 7)"
proof -
  have "l div 2 ^ (a + 7) = l div 2 ^ a div 128" by (simp add: power_add div_mult2_eq)
  then have "l div 2 ^ a = l div 2 ^ a mod 128 + l div 2 ^ (a + 7) * 128"
    using div_mult_mod_eq [of "l div 2 ^ a" 128] by simp
  then have "l div 2 ^ a * 2 ^ a = (l div 2 ^ a mod 128 + l div 2 ^ (a + 7) * 128) * 2 ^ a" by (rule arg_cong)
  then show ?thesis by (simp only: add_mult_distrib power_add) (simp add: ac_simps)
qed

lemma lpDecodeBacklen_encode:
  assumes "l < 2 ^ 35"
  shows "lpDecodeBacklen (rev (lpEncodeBacklen l) @ r) = Some l"
proof -
  have d: "l mod 128 + l div 2 ^ 7 * 2 ^ 7 = l"
    "l div 2 ^ 7 mod 128 * 2 ^ 7 + l div 2 ^ 14 * 2 ^ 14 = l div 2 ^ 7 * 2 ^ 7"
    "l div 2 ^ 14 mod 128 * 2 ^ 14 + l div 2 ^ 21 * 2 ^ 21 = l div 2 ^ 14 * 2 ^ 14"
    "l div 2 ^ 21 mod 128 * 2 ^ 21 + l div 2 ^ 28 * 2 ^ 28 = l div 2 ^ 21 * 2 ^ 21"
    using div_128_power [of l 7] div_128_power [of l 14] div_128_power [of l 21] mod_div_mult_eq [of l 128] by simp_all
  have k: "l < 2 ^ (7 + n) \<Longrightarrow> l div 2 ^ n < 128" for n
    by (simp add: div_less_iff_less_mult power_add)
  consider "l \<le> 127" | "\<not> l \<le> 127" "l < 16383" | "\<not> l < 16383" "l < 2097151" | "\<not> l < 2097151" "l < 268435455"
    | "\<not> l < 268435455" by argo
  then show ?thesis
  proof cases
    case 1
    then show ?thesis by (simp add: lpDecodeBacklen_def lpEncodeBacklen_def backlen_step del: lpDecodeBacklen_loop.simps)
  next
    case 2
    then have "l div 2 ^ 7 < 128" by (intro k) simp
    then have "lpDecodeBacklen (rev (lpEncodeBacklen l) @ r) = Some (l mod 128 + (l div 2 ^ 7) * 2 ^ 7)"
      using 2 by (simp add: lpDecodeBacklen_def lpEncodeBacklen_def backlen_step del: of_nat_mod of_nat_div lpDecodeBacklen_loop.simps)
    then show ?thesis by (simp only: add.assoc d)
  next
    case 3
    then have "l div 2 ^ 14 < 128" by (intro k) simp
    then have "lpDecodeBacklen (rev (lpEncodeBacklen l) @ r) =
      Some (l mod 128 + (l div 2 ^ 7 mod 128) * 2 ^ 7 + (l div 2 ^ 14) * 2 ^ 14)"
      using 3 by (simp add: lpDecodeBacklen_def lpEncodeBacklen_def backlen_step del: of_nat_mod of_nat_div lpDecodeBacklen_loop.simps)
    then show ?thesis by (simp only: add.assoc d)
  next
    case 4
    then have "l div 2 ^ 21 < 128" by (intro k) simp
    then have "lpDecodeBacklen (rev (lpEncodeBacklen l) @ r) =
      Some (l mod 128 + (l div 2 ^ 7 mod 128) * 2 ^ 7 + (l div 2 ^ 14 mod 128) * 2 ^ 14 + (l div 2 ^ 21) * 2 ^ 21)"
      using 4 by (simp add: lpDecodeBacklen_def lpEncodeBacklen_def backlen_step del: of_nat_mod of_nat_div lpDecodeBacklen_loop.simps)
    then show ?thesis by (simp only: add.assoc d)
  next
    case 5
    then have "l div 2 ^ 28 < 128" using assms by (intro k) simp
    then have "lpDecodeBacklen (rev (lpEncodeBacklen l) @ r) =
      Some (l mod 128 + (l div 2 ^ 7 mod 128) * 2 ^ 7 + (l div 2 ^ 14 mod 128) * 2 ^ 14 +
        (l div 2 ^ 21 mod 128) * 2 ^ 21 + (l div 2 ^ 28) * 2 ^ 28)"
      using 5 by (simp add: lpDecodeBacklen_def lpEncodeBacklen_def backlen_step del: of_nat_mod of_nat_div lpDecodeBacklen_loop.simps)
    then show ?thesis by (simp only: add.assoc d)
  qed
qed

lemma length_lpEncodeBacklen: "1 \<le> length (lpEncodeBacklen l) \<and> length (lpEncodeBacklen l) \<le> 5"
  by (simp add: lpEncodeBacklen_def)

fun lpele_str :: "lpele \<Rightarrow> bytes" where
  "lpele_str (LInt v) = sdec v"
| "lpele_str (LStr s) = s"

definition lp_entry :: "lpele \<Rightarrow> bytes" where
  "lp_entry e = lp_enc e @ lpEncodeBacklen (length (lp_enc e))"

lemma lpGetWithSize_entry:
  assumes "lpele_ok e"
  shows "\<exists>x. lpGetWithSize (lp_entry e @ r) = Some (x, Some (length (lp_entry e))) \<and>
    (case e of LInt v \<Rightarrow> x = LpInt v
     | LStr s \<Rightarrow> \<exists>off. x = LpStr off (length s) \<and> mem_read (lp_entry e @ r) off (length s) = Some s)"
proof (cases e)
  case (LInt v)
  then show ?thesis using lpGet_integer [of v] assms by (simp add: lp_entry_def)
next
  case (LStr s)
  then show ?thesis using lpGet_string [of s "lpEncodeBacklen (length (lpEncodeString s)) @ r"] assms
    by (auto simp: lp_entry_def)
qed

lemma lpSkip_entry: "lpele_ok e \<Longrightarrow> lpSkip (lp_entry e @ r) = Some (length (lp_entry e))"
  by (simp add: lpSkip_def lp_entry_def lp_enc_size)

lemma rd_entry:
  assumes "lpele_ok e" shows "\<exists>b. rd (lp_entry e @ r) 0 = Some b \<and> b \<noteq> LP_EOF"
  using lp_enc_size(3,4) [OF assms] by (cases "lp_enc e") (auto simp: lp_entry_def)

lemma lpCompare_entry:
  assumes "lpele_ok e"
  shows "lpCompare (lp_entry e @ r) s = Some (lpele_str e = s)"
proof -
  obtain b where b: "rd (lp_entry e @ r) 0 = Some b" "b \<noteq> LP_EOF" using rd_entry [OF assms] by blast
  show ?thesis
  proof (cases e)
    case (LInt v)
    then have "lpGet (lp_entry e @ r) = Some (LpInt v)"
      using lpGetWithSize_entry [OF assms, of r] by (auto simp: lpGet_def)
    moreover have "lpStringToInt64 s = Some v \<longleftrightarrow> sdec v = s"
      using assms LInt string2ll_sdec string2ll_sound unfolding lpStringToInt64_eq by fastforce
    ultimately show ?thesis using b LInt by (simp add: lpCompare_def)
  next
    case (LStr t)
    then obtain off where "lpGet (lp_entry e @ r) = Some (LpStr off (length t))"
      "mem_read (lp_entry e @ r) off (length t) = Some t"
      using lpGetWithSize_entry [OF assms, of r] by (auto simp: lpGet_def)
    then show ?thesis using b LStr by (auto simp: lpCompare_def)
  qed
qed

lemma lpGet_intbuf_entry:
  assumes "lpele_ok e" "length buf = LP_INTBUF_SIZE"
  shows "lpGet_intbuf (lp_entry e @ r) buf = Some (lpele_str e)"
proof (cases e)
  case (LInt v)
  then have "lpGet (lp_entry e @ r) = Some (LpInt v)" and v: "in_int64 v"
    using lpGetWithSize_entry [OF assms(1), of r] assms(1) by (auto simp: lpGet_def)
  moreover have "length (sdec v) < length buf"
    using length_sdec [OF v] assms(2) by (simp add: LONG_STR_SIZE_def LP_INTBUF_SIZE_def)
  ultimately show ?thesis using LInt ll2string_ok [OF v, of buf] by (simp add: lpGet_intbuf_def)
next
  case (LStr t)
  then show ?thesis using lpGetWithSize_entry [OF assms(1), of r] by (auto simp: lpGet_def lpGet_intbuf_def)
qed

lemma lpEncodeGetType_ele:
  "lpEncodeGetType s = (case string2ll s of Some v \<Rightarrow> Inl (lp_enc (LInt v)) | None \<Rightarrow> Inr (length (lp_enc (LStr s))))"
  by (simp add: lpEncodeGetType_def lpStringToInt64_eq lpEncodeString_def Let_def split: option.split)

lemma le_bytes_2: "le_bytes 2 v = [word_of_int v, word_of_int (v div 256)]"
  by (simp add: numeral_2_eq_2)

lemma length_lp_enc:
  assumes "lpele_ok e" shows "length (lp_enc e) < 2 ^ 32"
proof (cases e)
  case (LInt v)
  then show ?thesis using int_shape [of v] by auto
next
  case (LStr s)
  then show ?thesis using assms by (simp add: lpEncodeString_def Let_def)
qed

text \<open>C23. An entry written by the encoders is read back by every reader: its length forwards
  and backwards, its value as a string and as an integer, and the comparison with a string.\<close>

theorem lp_entry_roundtrip:
  assumes "lpele_ok e" and "length buf = LP_INTBUF_SIZE"
  shows "lpSkip (lp_entry e @ r) = Some (length (lp_entry e)) \<and>
    lpDecodeBacklen (rev (lp_entry e) @ q) = Some (length (lp_enc e)) \<and>
    lpGet_intbuf (lp_entry e @ r) buf = Some (lpele_str e) \<and>
    lpGetIntegerValue (lp_entry e @ r) = Some (case e of LInt v \<Rightarrow> Some v | LStr s \<Rightarrow> None) \<and>
    lpCompare (lp_entry e @ r) s = Some (lpele_str e = s)"
proof (intro conjI)
  show "lpSkip (lp_entry e @ r) = Some (length (lp_entry e))" by (rule lpSkip_entry [OF assms(1)])
  show "lpDecodeBacklen (rev (lp_entry e) @ q) = Some (length (lp_enc e))"
    using length_lp_enc [OF assms(1)] by (simp add: lp_entry_def lpDecodeBacklen_encode)
  show "lpGet_intbuf (lp_entry e @ r) buf = Some (lpele_str e)" by (rule lpGet_intbuf_entry [OF assms])
  show "lpGetIntegerValue (lp_entry e @ r) = Some (case e of LInt v \<Rightarrow> Some v | LStr s \<Rightarrow> None)"
    using lpGetWithSize_entry [OF assms(1), of r]
    by (auto simp: lpGetIntegerValue_def lpGet_def split: lpele.splits)
  show "lpCompare (lp_entry e @ r) s = Some (lpele_str e = s)" by (rule lpCompare_entry [OF assms(1)])
qed

theorem lp_entry_roundtrip_witness:
  "lpele_ok (LInt (- 4097)) \<and> lp_entry (LInt (- 4097)) = [0xF1, 0xFF, 0xEF, 3] \<and>
   lpGet_intbuf [0xF1, 0xFF, 0xEF, 3] (replicate 21 0) = Some [45, 52, 48, 57, 55]"
proof -
  have ok: "lpele_ok (LInt (- 4097))" by (simp add: in_int64_def)
  have e: "lp_entry (LInt (- 4097)) = [0xF1, 0xFF, 0xEF, 3]"
    by (simp add: lp_entry_def lpEncodeIntegerGetType_def lpEncodeBacklen_def le_bytes_2)
  have "lpele_str (LInt (- 4097)) = [45, 52, 48, 57, 55]"
    by (simp add: sdec_def dec.simps digit_def)
  then show ?thesis
    using lp_entry_roundtrip [OF ok, of "replicate 21 0" "[]"] ok e by (simp add: LP_INTBUF_SIZE_def)
qed

end
