(* ===== verification/Listpack.thy ===== *)
theory Listpack
  imports Listpack_Encoding
begin

text \<open>
  The listpack container of \<^verbatim>\<open>listpack.c\<close>.  A listpack is one allocation: a header with the total
  number of bytes (4 bytes) and of elements (2 bytes, \<open>LP_HDR_NUMELE_UNKNOWN\<close> when there are too
  many), the entries, and the byte \<open>LP_EOF\<close>.  The model keeps the bytes of the whole allocation (so
  \<open>lp_malloc_size\<close> is its length), a pointer into it is an offset, \<^term>\<open>None\<close> in place of the result
  is an access outside the allocation or a failed assertion, and \<open>Some None\<close> is a \<open>NULL\<close> result.
\<close>

section \<open>The model\<close>

definition LP_HDR_SIZE :: nat where "LP_HDR_SIZE = 6"
definition LP_HDR_NUMELE_UNKNOWN :: nat where "LP_HDR_NUMELE_UNKNOWN = 65535"
definition LISTPACK_MAX_SAFETY_SIZE :: nat where "LISTPACK_MAX_SAFETY_SIZE = 2 ^ 30"
definition LP_UINT32_MAX :: nat where "LP_UINT32_MAX = 2 ^ 32 - 1"

text \<open>The allocator: the content of fresh memory, and the size of the block it hands out for a
  request.\<close>

record lp_allocator =
  la_fill :: "nat \<Rightarrow> byte"
  la_usable :: "nat \<Rightarrow> nat"

definition lp_realloc :: "lp_allocator \<Rightarrow> nat \<Rightarrow> bytes \<Rightarrow> bytes" where
  "lp_realloc A n lp = mem_resize (la_fill A) (la_usable A n) lp"

text \<open>A difference of sizes that is then used as a length: when it is negative, the unsigned value
  is larger than any block.\<close>

definition size_sub :: "nat \<Rightarrow> nat \<Rightarrow> nat option" where
  "size_sub a b = (if b \<le> a then Some (a - b) else None)"

definition c_assert :: "bool \<Rightarrow> unit option" where
  "c_assert b = (if b then Some () else None)"

definition lpGetTotalBytes :: "bytes \<Rightarrow> nat option" where
  "lpGetTotalBytes lp = map_option (nat \<circ> le_uint) (mem_read lp 0 4)"

definition lpGetNumElements :: "bytes \<Rightarrow> nat option" where
  "lpGetNumElements lp = map_option (nat \<circ> le_uint) (mem_read lp 4 2)"

definition lpSetTotalBytes :: "bytes \<Rightarrow> nat \<Rightarrow> bytes option" where
  "lpSetTotalBytes lp v = mem_write lp 0 (le_bytes 4 (int v))"

definition lpSetNumElements :: "bytes \<Rightarrow> int \<Rightarrow> bytes option" where
  "lpSetNumElements lp v = mem_write lp 4 (le_bytes 2 v)"

definition lpBytes :: "bytes \<Rightarrow> nat option" where
  "lpBytes lp = lpGetTotalBytes lp"

definition lpSafeToAdd :: "bytes option \<Rightarrow> nat \<Rightarrow> bool option" where
  "lpSafeToAdd lp add = do {
     len \<leftarrow> (case lp of Some lp \<Rightarrow> lpGetTotalBytes lp | None \<Rightarrow> Some 0);
     Some (\<not> len + add > LISTPACK_MAX_SAFETY_SIZE)
   }"

definition lpNew :: "lp_allocator \<Rightarrow> nat \<Rightarrow> bytes option" where
  "lpNew A capacity = do {
     let lp = lp_realloc A (if capacity > LP_HDR_SIZE + 1 then capacity else LP_HDR_SIZE + 1) [];
     lp \<leftarrow> lpSetTotalBytes lp (LP_HDR_SIZE + 1);
     lp \<leftarrow> lpSetNumElements lp 0;
     mem_write lp LP_HDR_SIZE [LP_EOF]
   }"

definition lpShrinkToFit :: "lp_allocator \<Rightarrow> bytes \<Rightarrow> bytes option" where
  "lpShrinkToFit A lp = do {
     sz \<leftarrow> lpGetTotalBytes lp;
     Some (if sz < length lp then lp_realloc A sz lp else lp)
   }"

subsection \<open>Validation and traversal\<close>

definition lp_out_of_range :: "nat \<Rightarrow> nat \<Rightarrow> bool" where
  "lp_out_of_range lpbytes p \<longleftrightarrow> p < LP_HDR_SIZE \<or> p + 1 > lpbytes"

definition lpValidateFirst :: "bytes \<Rightarrow> nat option option" where
  "lpValidateFirst lp = do {
     b \<leftarrow> rd lp LP_HDR_SIZE;
     Some (if b = LP_EOF then None else Some LP_HDR_SIZE)
   }"

text \<open>\<open>Some None\<close>: invalid (0 is returned); otherwise \<open>*pp\<close> on exit.\<close>

definition lpValidateNext :: "bytes \<Rightarrow> nat option \<Rightarrow> nat \<Rightarrow> nat option option option" where
  "lpValidateNext lp pp lpbytes =
     (case pp of
        None \<Rightarrow> Some None
      | Some p \<Rightarrow>
          if lp_out_of_range lpbytes p then Some None
          else do {
            b \<leftarrow> rd lp p;
            if b = LP_EOF then Some (Some None)
            else do {
              lenbytes \<leftarrow> lpCurrentEncodedSizeBytes (drop p lp);
              if lenbytes = 0 then Some None
              else if lp_out_of_range lpbytes (p + lenbytes) then Some None
              else do {
                entrylen \<leftarrow> lpCurrentEncodedSizeUnsafe (drop p lp);
                let encodedBacklen = length (lpEncodeBacklen entrylen);
                let entrylen = entrylen + encodedBacklen;
                if lp_out_of_range lpbytes (p + entrylen) then Some None
                else do {
                  prevlen \<leftarrow> (if p + entrylen - 1 < length lp
                              then lpDecodeBacklen (rev (take (p + entrylen) lp)) else None);
                  if (prevlen + encodedBacklen) mod 2 ^ 64 \<noteq> entrylen then Some None
                  else Some (Some (Some (p + entrylen)))
                }
              }
            }
          })"

definition lpAssertValidEntry :: "bytes \<Rightarrow> nat \<Rightarrow> nat \<Rightarrow> unit option" where
  "lpAssertValidEntry lp lpbytes p = do {
     r \<leftarrow> lpValidateNext lp (Some p) lpbytes;
     c_assert (r \<noteq> None)
   }"

definition lpNext :: "bytes \<Rightarrow> nat \<Rightarrow> nat option option" where
  "lpNext lp p = do {
     n \<leftarrow> lpSkip (drop p lp);
     let p = p + n;
     b \<leftarrow> rd lp p;
     if b = LP_EOF then Some None
     else do {
       bytes \<leftarrow> lpBytes lp;
       _ \<leftarrow> lpAssertValidEntry lp bytes p;
       Some (Some p)
     }
   }"

text \<open>A pointer below the listpack fails the assertion.\<close>

definition lpPrev :: "bytes \<Rightarrow> nat \<Rightarrow> nat option option" where
  "lpPrev lp p =
     (if p = LP_HDR_SIZE then Some None
      else if p = 0 \<or> p > length lp then None
      else do {
        prevlen \<leftarrow> lpDecodeBacklen (rev (take p lp));
        let prevlen = (prevlen + length (lpEncodeBacklen prevlen)) mod 2 ^ 64;
        p \<leftarrow> size_sub p prevlen;
        bytes \<leftarrow> lpBytes lp;
        _ \<leftarrow> lpAssertValidEntry lp bytes p;
        Some (Some p)
      })"

definition lpFirst :: "bytes \<Rightarrow> nat option option" where
  "lpFirst lp = do {
     b \<leftarrow> rd lp LP_HDR_SIZE;
     if b = LP_EOF then Some None
     else do {
       bytes \<leftarrow> lpBytes lp;
       _ \<leftarrow> lpAssertValidEntry lp bytes LP_HDR_SIZE;
       Some (Some LP_HDR_SIZE)
     }
   }"

definition lpLast :: "bytes \<Rightarrow> nat option option" where
  "lpLast lp = do {
     n \<leftarrow> lpGetTotalBytes lp;
     p \<leftarrow> size_sub n 1;
     lpPrev lp p
   }"

lemma lpSkip_pos: "lpSkip p = Some n \<Longrightarrow> 0 < n"
  using length_lpEncodeBacklen by (auto simp: lpSkip_def bind_eq_Some_conv Suc_le_eq)

lemma lpNext_greater: "lpNext lp p = Some (Some q) \<Longrightarrow> p < q \<and> q < length lp"
  by (auto simp: lpNext_def rd_def Let_def bind_eq_Some_conv dest!: lpSkip_pos split: if_splits)

function lpLength_loop :: "bytes \<Rightarrow> nat option \<Rightarrow> nat \<Rightarrow> nat option" where
  "lpLength_loop lp None count = Some count"
| "lpLength_loop lp (Some p) count = do {
     q \<leftarrow> lpNext lp p;
     lpLength_loop lp q ((count + 1) mod 2 ^ 32)
   }"
  by pat_completeness auto
termination
  by (relation "measure (\<lambda>(lp, p, _). case p of None \<Rightarrow> 0 | Some p \<Rightarrow> Suc (length lp - p))")
    (auto split: option.split dest!: lpNext_greater)

text \<open>The length, and the listpack with its header brought up to date.\<close>

definition lpLength :: "bytes \<Rightarrow> (nat \<times> bytes) option" where
  "lpLength lp = do {
     numele \<leftarrow> lpGetNumElements lp;
     if numele \<noteq> LP_HDR_NUMELE_UNKNOWN then Some (numele, lp)
     else do {
       p \<leftarrow> lpFirst lp;
       count \<leftarrow> lpLength_loop lp p 0;
       lp \<leftarrow> (if count < LP_HDR_NUMELE_UNKNOWN then lpSetNumElements lp (int count) else Some lp);
       Some (count, lp)
     }
   }"

text \<open>The two loops of \<open>lpSeek\<close>, on the number of steps to take.\<close>

fun lpSeek_forward :: "bytes \<Rightarrow> nat \<Rightarrow> nat option \<Rightarrow> nat option option" where
  "lpSeek_forward lp 0 ele = Some ele"
| "lpSeek_forward lp (Suc index) None = Some None"
| "lpSeek_forward lp (Suc index) (Some p) = do { ele \<leftarrow> lpNext lp p; lpSeek_forward lp index ele }"

fun lpSeek_backward :: "bytes \<Rightarrow> nat \<Rightarrow> nat option \<Rightarrow> nat option option" where
  "lpSeek_backward lp 0 ele = Some ele"
| "lpSeek_backward lp (Suc index) None = Some None"
| "lpSeek_backward lp (Suc index) (Some p) = do { ele \<leftarrow> lpPrev lp p; lpSeek_backward lp index ele }"

definition lpSeek :: "bytes \<Rightarrow> int \<Rightarrow> nat option option" where
  "lpSeek lp index = do {
     numele \<leftarrow> lpGetNumElements lp;
     let known = numele \<noteq> LP_HDR_NUMELE_UNKNOWN;
     let index = (if known \<and> index < 0 then int numele + index else index);
     if known \<and> (index < 0 \<or> index \<ge> int numele) then Some None
     else do {
       let forward = (if known then \<not> index > int numele div 2 else \<not> index < 0);
       let index = (if known \<and> \<not> forward then index - int numele else index);
       if forward then do { ele \<leftarrow> lpFirst lp; lpSeek_forward lp (nat index) ele }
       else do { ele \<leftarrow> lpLast lp; lpSeek_backward lp (nat (- 1 - index)) ele }
     }
   }"

subsection \<open>Searching\<close>

text \<open>\<open>cmp\<close> is the comparator with its user data: whether the entry is a hit, and the user data after
  the call.\<close>

partial_function (option) lpFindCb_loop ::
  "(bytes \<Rightarrow> nat \<Rightarrow> 'u \<Rightarrow> lpval \<Rightarrow> (bool \<times> 'u) option) \<Rightarrow> bytes \<Rightarrow> nat \<Rightarrow> nat \<Rightarrow>
    'u \<Rightarrow> nat \<Rightarrow> nat \<Rightarrow> nat \<Rightarrow> nat option option" where
  "lpFindCb_loop cmp lp lp_bytes skip user skipcnt entry_size p = do {
     (hit, user, entry_size, skipcnt, q) \<leftarrow>
       (if skipcnt = 0 then do {
          (v, es) \<leftarrow> lpGetWithSize (drop p lp);
          let entry_size = (case es of Some n \<Rightarrow> n | None \<Rightarrow> entry_size);
          _ \<leftarrow> (case v of LpStr off n \<Rightarrow> c_assert (LP_HDR_SIZE \<le> p \<and> p + entry_size < lp_bytes)
              | LpInt i \<Rightarrow> Some ());
          (hit, user) \<leftarrow> cmp lp p user v;
          Some (hit, user, entry_size, skip, p + entry_size)
        }
        else do {
          n \<leftarrow> lpSkip (drop p lp);
          Some (False, user, entry_size, skipcnt - 1, p + n)
        });
     if hit then Some (Some p)
     else do {
       _ \<leftarrow> (if q + 8 \<ge> lp_bytes then lpAssertValidEntry lp lp_bytes q
           else c_assert (LP_HDR_SIZE \<le> q \<and> q < lp_bytes));
       b \<leftarrow> rd lp q;
       if b = LP_EOF then Some None
       else lpFindCb_loop cmp lp lp_bytes skip user skipcnt entry_size q
     }
   }"

declare lpFindCb_loop.simps [code]

definition lpFindCb :: "bytes \<Rightarrow> nat option \<Rightarrow> 'u \<Rightarrow>
    (bytes \<Rightarrow> nat \<Rightarrow> 'u \<Rightarrow> lpval \<Rightarrow> (bool \<times> 'u) option) \<Rightarrow> nat \<Rightarrow> nat option option" where
  "lpFindCb lp p user cmp skip = do {
     lp_bytes \<leftarrow> lpBytes lp;
     p \<leftarrow> (case p of None \<Rightarrow> lpFirst lp | Some p \<Rightarrow> Some (Some p));
     (case p of
        None \<Rightarrow> Some None
      | Some p \<Rightarrow> lpFindCb_loop cmp lp lp_bytes skip user 0 123456789 p)
   }"

record lpFindArg =
  fa_s :: bytes
  fa_vencoding :: nat
  fa_vll :: int

definition UCHAR_MAX :: nat where "UCHAR_MAX = 255"

definition lpFindCmp :: "bytes \<Rightarrow> nat \<Rightarrow> lpFindArg \<Rightarrow> lpval \<Rightarrow> (bool \<times> lpFindArg) option" where
  "lpFindCmp lp p arg v =
     (case v of
        LpStr off slen \<Rightarrow>
          if slen = length (fa_s arg)
          then do { t \<leftarrow> mem_read (drop p lp) off slen; Some (t = fa_s arg, arg) }
          else Some (False, arg)
      | LpInt ll \<Rightarrow>
          let arg = (if fa_vencoding arg = 0 then
                       (if length (fa_s arg) \<ge> 32 \<or> length (fa_s arg) = 0
                        then arg\<lparr>fa_vencoding := UCHAR_MAX\<rparr>
                        else case lpStringToInt64 (fa_s arg) of
                               None \<Rightarrow> arg\<lparr>fa_vencoding := UCHAR_MAX\<rparr>
                             | Some vll \<Rightarrow> arg\<lparr>fa_vll := vll, fa_vencoding := 1\<rparr>)
                     else arg)
          in Some (fa_vencoding arg \<noteq> UCHAR_MAX \<and> ll = fa_vll arg, arg))"

definition lpFind :: "bytes \<Rightarrow> nat option \<Rightarrow> bytes \<Rightarrow> nat \<Rightarrow> nat option option" where
  "lpFind lp p s skip =
     lpFindCb lp p \<lparr>fa_s = s, fa_vencoding = 0, fa_vll = 0\<rparr> lpFindCmp skip"

subsection \<open>Insertion, replacement and deletion\<close>

datatype lp_where = LP_BEFORE | LP_AFTER | LP_REPLACE

text \<open>The arguments \<open>elestr\<close>, \<open>eleint\<close> and \<open>size\<close>: a string, the encoding of an integer, or neither
  (deletion).\<close>

datatype lp_arg = EleStr bytes | EleInt bytes | EleNone

text \<open>The bytes in \<open>intenc\<close> when the element is encoded as an integer, and \<open>enclen\<close>.\<close>

definition lp_encoding :: "lp_arg \<Rightarrow> bytes option \<times> nat" where
  "lp_encoding ele =
     (case ele of
        EleStr s \<Rightarrow>
          (case lpEncodeGetType s of Inl intenc \<Rightarrow> (Some intenc, length intenc) | Inr enclen \<Rightarrow> (None, enclen))
      | EleInt intenc \<Rightarrow> (Some intenc, length intenc)
      | EleNone \<Rightarrow> (None, 0))"

definition lp_store :: "bytes \<Rightarrow> nat \<Rightarrow> lp_arg \<Rightarrow> bytes option" where
  "lp_store lp dst ele = do {
     let (intenc, enclen) = lp_encoding ele;
     lp \<leftarrow> (case intenc of
             Some e \<Rightarrow> mem_write lp dst e
           | None \<Rightarrow> (case ele of EleStr s \<Rightarrow> mem_write lp dst (lpEncodeString s) | _ \<Rightarrow> None));
     mem_write lp (dst + enclen) (lpEncodeBacklen enclen)
   }"

text \<open>\<open>NULL\<close>, or the listpack and \<open>*newp\<close>.\<close>

definition lpInsert ::
    "lp_allocator \<Rightarrow> bytes \<Rightarrow> lp_arg \<Rightarrow> nat \<Rightarrow> lp_where \<Rightarrow> (bytes \<times> nat option) option option" where
  "lpInsert A lp ele p whr = do {
     let delete = (ele = EleNone);
     let whr = (if delete then LP_REPLACE else whr);
     (p, whr) \<leftarrow>
       (if whr = LP_AFTER then do {
          n \<leftarrow> lpSkip (drop p lp);
          total \<leftarrow> lpGetTotalBytes lp;
          _ \<leftarrow> c_assert (LP_HDR_SIZE \<le> p + n \<and> p + n < total);
          Some (p + n, LP_BEFORE)
        }
        else Some (p, whr));
     let enclen = snd (lp_encoding ele);
     let backlen_size = (if \<not> delete then length (lpEncodeBacklen enclen) else 0);
     old_listpack_bytes \<leftarrow> lpGetTotalBytes lp;
     replaced_len \<leftarrow>
       (if whr = LP_REPLACE then do {
          n \<leftarrow> lpCurrentEncodedSizeUnsafe (drop p lp);
          let n = (n + length (lpEncodeBacklen n)) mod 2 ^ 32;
          _ \<leftarrow> c_assert (LP_HDR_SIZE \<le> p \<and> p + n < old_listpack_bytes);
          Some n
        }
        else Some 0);
     let new_listpack_bytes = old_listpack_bytes + enclen + backlen_size - replaced_len;
     if new_listpack_bytes > LP_UINT32_MAX then Some None
     else do {
       let lp = (if new_listpack_bytes > old_listpack_bytes \<and> new_listpack_bytes > length lp
                 then lp_realloc A new_listpack_bytes lp else lp);
       len \<leftarrow> size_sub old_listpack_bytes (p + replaced_len);
       lp \<leftarrow> mem_move lp (p + enclen + backlen_size) (p + replaced_len) len;
       let lp = (if new_listpack_bytes < old_listpack_bytes
                 then lp_realloc A new_listpack_bytes lp else lp);
       newp \<leftarrow> (if delete then do { b \<leftarrow> rd lp p; Some (if b = LP_EOF then None else Some p) }
                else Some (Some p));
       lp \<leftarrow> (if \<not> delete then lp_store lp p ele else Some lp);
       lp \<leftarrow> (if whr \<noteq> LP_REPLACE \<or> delete then do {
                num_elements \<leftarrow> lpGetNumElements lp;
                if num_elements \<noteq> LP_HDR_NUMELE_UNKNOWN
                then lpSetNumElements lp (if \<not> delete then int num_elements + 1 else int num_elements - 1)
                else Some lp
              }
              else Some lp);
       lp \<leftarrow> lpSetTotalBytes lp new_listpack_bytes;
       Some (Some (lp, newp))
     }
   }"

definition lpInsertString ::
    "lp_allocator \<Rightarrow> bytes \<Rightarrow> bytes \<Rightarrow> nat \<Rightarrow> lp_where \<Rightarrow> (bytes \<times> nat option) option option" where
  "lpInsertString A lp s p whr = lpInsert A lp (EleStr s) p whr"

definition lpInsertInteger ::
    "lp_allocator \<Rightarrow> bytes \<Rightarrow> int \<Rightarrow> nat \<Rightarrow> lp_where \<Rightarrow> (bytes \<times> nat option) option option" where
  "lpInsertInteger A lp lval p whr = lpInsert A lp (EleInt (lpEncodeIntegerGetType lval)) p whr"

definition lpAppend :: "lp_allocator \<Rightarrow> bytes \<Rightarrow> bytes \<Rightarrow> (bytes \<times> nat option) option option" where
  "lpAppend A lp ele = do {
     listpack_bytes \<leftarrow> lpGetTotalBytes lp;
     eofptr \<leftarrow> size_sub listpack_bytes 1;
     lpInsert A lp (EleStr ele) eofptr LP_BEFORE
   }"

definition lpAppendInteger :: "lp_allocator \<Rightarrow> bytes \<Rightarrow> int \<Rightarrow> (bytes \<times> nat option) option option" where
  "lpAppendInteger A lp lval = do {
     listpack_bytes \<leftarrow> lpGetTotalBytes lp;
     eofptr \<leftarrow> size_sub listpack_bytes 1;
     lpInsertInteger A lp lval eofptr LP_BEFORE
   }"

definition lpPrepend :: "lp_allocator \<Rightarrow> bytes \<Rightarrow> bytes \<Rightarrow> (bytes \<times> nat option) option option" where
  "lpPrepend A lp s = do {
     p \<leftarrow> lpFirst lp;
     (case p of None \<Rightarrow> lpAppend A lp s | Some p \<Rightarrow> lpInsert A lp (EleStr s) p LP_BEFORE)
   }"

definition lpPrependInteger :: "lp_allocator \<Rightarrow> bytes \<Rightarrow> int \<Rightarrow> (bytes \<times> nat option) option option" where
  "lpPrependInteger A lp lval = do {
     p \<leftarrow> lpFirst lp;
     (case p of None \<Rightarrow> lpAppendInteger A lp lval | Some p \<Rightarrow> lpInsertInteger A lp lval p LP_BEFORE)
   }"

definition lpReplace :: "lp_allocator \<Rightarrow> bytes \<Rightarrow> nat \<Rightarrow> bytes \<Rightarrow> (bytes \<times> nat option) option option" where
  "lpReplace A lp p s = lpInsert A lp (EleStr s) p LP_REPLACE"

definition lpReplaceInteger :: "lp_allocator \<Rightarrow> bytes \<Rightarrow> nat \<Rightarrow> int \<Rightarrow> (bytes \<times> nat option) option option" where
  "lpReplaceInteger A lp p lval = lpInsertInteger A lp lval p LP_REPLACE"

definition lpDelete :: "lp_allocator \<Rightarrow> bytes \<Rightarrow> nat \<Rightarrow> (bytes \<times> nat option) option option" where
  "lpDelete A lp p = lpInsert A lp EleNone p LP_REPLACE"

subsection \<open>Operations on several entries\<close>

text \<open>\<open>listpackEntry\<close>: \<open>sval\<close> is not \<open>NULL\<close>, or \<open>lval\<close> is used.\<close>

datatype listpackEntry = LpeSval bytes | LpeLval int

definition lpe_arg :: "listpackEntry \<Rightarrow> lp_arg" where
  "lpe_arg e = (case e of LpeSval s \<Rightarrow> EleStr s | LpeLval v \<Rightarrow> EleInt (lpEncodeIntegerGetType v))"

fun lpBatchInsert_len :: "listpackEntry list \<Rightarrow> nat \<Rightarrow> nat" where
  "lpBatchInsert_len [] addedlen = addedlen"
| "lpBatchInsert_len (e # es) addedlen =
     (let enclen = snd (lp_encoding (lpe_arg e))
      in lpBatchInsert_len es (addedlen + enclen + length (lpEncodeBacklen enclen)))"

fun lpBatchInsert_store :: "bytes \<Rightarrow> listpackEntry list \<Rightarrow> nat \<Rightarrow> nat option \<Rightarrow> (bytes \<times> nat option) option" where
  "lpBatchInsert_store lp [] dst newp = Some (lp, newp)"
| "lpBatchInsert_store lp (e # es) dst newp = do {
     lp \<leftarrow> lp_store lp dst (lpe_arg e);
     let enclen = snd (lp_encoding (lpe_arg e));
     lpBatchInsert_store lp es (dst + enclen + length (lpEncodeBacklen enclen)) (Some dst)
   }"

definition lpBatchInsert :: "lp_allocator \<Rightarrow> bytes \<Rightarrow> nat \<Rightarrow> lp_where \<Rightarrow> listpackEntry list \<Rightarrow>
    (bytes \<times> nat option) option option" where
  "lpBatchInsert A lp p whr entries = do {
     _ \<leftarrow> c_assert (whr = LP_BEFORE \<or> whr = LP_AFTER);
     _ \<leftarrow> c_assert (entries \<noteq> []);
     p \<leftarrow> (if whr = LP_AFTER then do {
             n \<leftarrow> lpSkip (drop p lp);
             total \<leftarrow> lpGetTotalBytes lp;
             _ \<leftarrow> c_assert (LP_HDR_SIZE \<le> p + n \<and> p + n < total);
             Some (p + n)
           }
           else Some p);
     let addedlen = lpBatchInsert_len entries 0;
     old_listpack_bytes \<leftarrow> lpGetTotalBytes lp;
     let new_listpack_bytes = old_listpack_bytes + addedlen;
     if new_listpack_bytes > LP_UINT32_MAX then Some None
     else do {
       let lp = (if new_listpack_bytes > old_listpack_bytes \<and> new_listpack_bytes > length lp
                 then lp_realloc A new_listpack_bytes lp else lp);
       len \<leftarrow> size_sub old_listpack_bytes p;
       lp \<leftarrow> mem_move lp (p + addedlen) p len;
       (lp, newp) \<leftarrow> lpBatchInsert_store lp entries p None;
       num_elements \<leftarrow> lpGetNumElements lp;
       lp \<leftarrow> (if num_elements \<noteq> LP_HDR_NUMELE_UNKNOWN then
                (if int (length entries) > int LP_HDR_NUMELE_UNKNOWN - int num_elements
                 then lpSetNumElements lp (int LP_HDR_NUMELE_UNKNOWN)
                 else lpSetNumElements lp (int num_elements + int (length entries)))
              else Some lp);
       lp \<leftarrow> lpSetTotalBytes lp new_listpack_bytes;
       Some (Some (lp, newp))
     }
   }"

definition lpBatchAppend :: "lp_allocator \<Rightarrow> bytes \<Rightarrow> listpackEntry list \<Rightarrow> (bytes \<times> nat option) option option" where
  "lpBatchAppend A lp entries = do {
     listpack_bytes \<leftarrow> lpGetTotalBytes lp;
     eofptr \<leftarrow> size_sub listpack_bytes 1;
     lpBatchInsert A lp eofptr LP_BEFORE entries
   }"

fun lpDeleteRange_tail :: "bytes \<Rightarrow> nat \<Rightarrow> nat \<Rightarrow> nat \<Rightarrow> nat \<Rightarrow> (nat \<times> nat) option" where
  "lpDeleteRange_tail lp bytes 0 tail deleted = Some (tail, deleted)"
| "lpDeleteRange_tail lp bytes (Suc num) tail deleted = do {
     n \<leftarrow> lpSkip (drop tail lp);
     b \<leftarrow> rd lp (tail + n);
     if b = LP_EOF then Some (tail + n, deleted + 1)
     else do {
       _ \<leftarrow> lpAssertValidEntry lp bytes (tail + n);
       lpDeleteRange_tail lp bytes num (tail + n) (deleted + 1)
     }
   }"

text \<open>The listpack and \<open>*p\<close>.\<close>

definition lpDeleteRangeWithEntry :: "lp_allocator \<Rightarrow> bytes \<Rightarrow> nat \<Rightarrow> nat \<Rightarrow> (bytes \<times> nat option) option" where
  "lpDeleteRangeWithEntry A lp first num = do {
     bytes \<leftarrow> lpBytes lp;
     if num = 0 then Some (lp, Some first)
     else do {
       (tail, deleted) \<leftarrow> lpDeleteRange_tail lp bytes num first 0;
       len \<leftarrow> size_sub bytes tail;
       lp \<leftarrow> mem_move lp first tail len;
       lp \<leftarrow> lpSetTotalBytes lp (bytes - (tail - first));
       numele \<leftarrow> lpGetNumElements lp;
       lp \<leftarrow> (if numele \<noteq> LP_HDR_NUMELE_UNKNOWN
              then lpSetNumElements lp (int numele - int deleted) else Some lp);
       lp \<leftarrow> lpShrinkToFit A lp;
       b \<leftarrow> rd lp first;
       Some (lp, if b = LP_EOF then None else Some first)
     }
   }"

definition lpDeleteRange :: "lp_allocator \<Rightarrow> bytes \<Rightarrow> int \<Rightarrow> nat \<Rightarrow> bytes option" where
  "lpDeleteRange A lp index num = do {
     numele \<leftarrow> lpGetNumElements lp;
     if num = 0 then Some lp
     else do {
       p \<leftarrow> lpSeek lp index;
       (case p of
          None \<Rightarrow> Some lp
        | Some p \<Rightarrow> do {
            let known = numele \<noteq> LP_HDR_NUMELE_UNKNOWN;
            let index = (if known \<and> index < 0 then int numele + index else index);
            if known \<and> (int numele - index) mod 2 ^ 64 \<le> int num then do {
              lp \<leftarrow> mem_write lp p [LP_EOF];
              lp \<leftarrow> lpSetTotalBytes lp (p + 1);
              lp \<leftarrow> lpSetNumElements lp index;
              lpShrinkToFit A lp
            }
            else map_option fst (lpDeleteRangeWithEntry A lp p num)
          })
     }
   }"

fun lpBatchDelete_loop :: "bytes \<Rightarrow> nat \<Rightarrow> nat list \<Rightarrow> nat \<Rightarrow> (bytes \<times> nat) option" where
  "lpBatchDelete_loop lp lp_end [] dst = Some (lp, dst)"
| "lpBatchDelete_loop lp lp_end (skip # ps) dst = do {
     b \<leftarrow> rd lp skip;
     _ \<leftarrow> c_assert (b \<noteq> LP_EOF);
     n \<leftarrow> lpSkip (drop skip lp);
     let keep_start = skip + n;
     let keep_end = (case ps of q # _ \<Rightarrow> q | [] \<Rightarrow> lp_end);
     if ps \<noteq> [] \<and> keep_start = keep_end then lpBatchDelete_loop lp lp_end ps dst
     else do {
       _ \<leftarrow> c_assert (keep_end > keep_start);
       let bytes_to_keep = keep_end - keep_start;
       lp \<leftarrow> mem_move lp dst keep_start bytes_to_keep;
       lpBatchDelete_loop lp lp_end ps (dst + bytes_to_keep)
     }
   }"

definition lpBatchDelete :: "lp_allocator \<Rightarrow> bytes \<Rightarrow> nat list \<Rightarrow> bytes option" where
  "lpBatchDelete A lp ps =
     (if ps = [] then Some lp
      else do {
        total_bytes \<leftarrow> lpGetTotalBytes lp;
        let lp_end = total_bytes;
        b \<leftarrow> (if 0 < lp_end then rd lp (lp_end - 1) else None);
        _ \<leftarrow> c_assert (b = LP_EOF);
        (lp, dst) \<leftarrow> lpBatchDelete_loop lp lp_end ps (hd ps);
        deleted_bytes \<leftarrow> size_sub lp_end dst;
        let total_bytes = total_bytes - deleted_bytes;
        b \<leftarrow> (if 0 < total_bytes then rd lp (total_bytes - 1) else None);
        _ \<leftarrow> c_assert (b = LP_EOF);
        lp \<leftarrow> lpSetTotalBytes lp total_bytes;
        numele \<leftarrow> lpGetNumElements lp;
        lp \<leftarrow> (if numele \<noteq> LP_HDR_NUMELE_UNKNOWN
               then lpSetNumElements lp (int numele - int (length ps)) else Some lp);
        lpShrinkToFit A lp
      })"

text \<open>\<open>same\<close>: the two arguments are the same pointer.  The result is the merged listpack and whether
  it is returned in \<open>*first\<close> (the other one is freed).\<close>

definition lpMerge :: "lp_allocator \<Rightarrow> bytes option \<Rightarrow> bytes option \<Rightarrow> bool \<Rightarrow> (bytes \<times> bool) option option" where
  "lpMerge A fst_lp snd_lp same =
     (case (fst_lp, snd_lp) of
        (Some first, Some second) \<Rightarrow>
          if same then Some None
          else do {
            first_bytes \<leftarrow> lpBytes first;
            (first_len, first) \<leftarrow> lpLength first;
            second_bytes \<leftarrow> lpBytes second;
            (second_len, second) \<leftarrow> lpLength second;
            let append = (first_bytes \<ge> second_bytes);
            let (target, target_bytes, source, source_bytes) =
              (if append then (first, first_bytes, second, second_bytes)
               else (second, second_bytes, first, first_bytes));
            lpbytes \<leftarrow> size_sub (first_bytes + second_bytes) (LP_HDR_SIZE + 1);
            _ \<leftarrow> c_assert (lpbytes < LP_UINT32_MAX);
            let lplength = (if first_len + second_len < 65535 then first_len + second_len else 65535);
            let target = lp_realloc A lpbytes target;
            target \<leftarrow>
              (if append then do {
                 len \<leftarrow> size_sub source_bytes LP_HDR_SIZE;
                 xs \<leftarrow> mem_read source LP_HDR_SIZE len;
                 dst \<leftarrow> size_sub target_bytes 1;
                 mem_write target dst xs
               }
               else do {
                 len \<leftarrow> size_sub target_bytes LP_HDR_SIZE;
                 dst \<leftarrow> size_sub source_bytes 1;
                 target \<leftarrow> mem_move target dst LP_HDR_SIZE len;
                 xs \<leftarrow> mem_read source 0 dst;
                 mem_write target 0 xs
               });
            target \<leftarrow> lpSetNumElements target (int lplength);
            target \<leftarrow> lpSetTotalBytes target lpbytes;
            Some (Some (target, append))
          }
      | _ \<Rightarrow> Some None)"

definition lpDup :: "lp_allocator \<Rightarrow> bytes \<Rightarrow> bytes option" where
  "lpDup A lp = do {
     lpbytes \<leftarrow> lpBytes lp;
     xs \<leftarrow> mem_read lp 0 lpbytes;
     mem_write (lp_realloc A lpbytes []) 0 xs
   }"

subsection \<open>Validation of a whole listpack\<close>

text \<open>\<open>Some None\<close>: \<open>return 0\<close> inside the loop; otherwise \<open>p\<close> and \<open>count\<close> after it.\<close>

partial_function (option) lpValidate_loop ::
  "(bytes \<Rightarrow> nat \<Rightarrow> nat \<Rightarrow> 'c \<Rightarrow> bool \<times> 'c) option \<Rightarrow> bytes \<Rightarrow> nat \<Rightarrow> nat \<Rightarrow> 'c \<Rightarrow> nat option \<Rightarrow> nat \<Rightarrow>
    (nat option \<times> nat) option option" where
  "lpValidate_loop entry_cb lp bytes numele userdata pp count =
     (case pp of
        None \<Rightarrow> Some (Some (None, count))
      | Some p \<Rightarrow> do {
          b \<leftarrow> rd lp p;
          if b = LP_EOF then Some (Some (Some p, count))
          else do {
            r \<leftarrow> lpValidateNext lp (Some p) bytes;
            (case r of
               None \<Rightarrow> Some None
             | Some q \<Rightarrow>
                 let (ok, userdata) = (case entry_cb of None \<Rightarrow> (True, userdata) | Some cb \<Rightarrow> cb lp p numele userdata)
                 in if \<not> ok then Some None
                    else lpValidate_loop entry_cb lp bytes numele userdata q ((count + 1) mod 2 ^ 32))
          }
        })"

declare lpValidate_loop.simps [code]

definition lpValidateIntegrity :: "bytes \<Rightarrow> nat \<Rightarrow> bool \<Rightarrow>
    (bytes \<Rightarrow> nat \<Rightarrow> nat \<Rightarrow> 'c \<Rightarrow> bool \<times> 'c) option \<Rightarrow> 'c \<Rightarrow> bool option" where
  "lpValidateIntegrity lp sz deep entry_cb cb_userdata =
     (if sz < LP_HDR_SIZE + 1 then Some False
      else do {
        bytes \<leftarrow> lpGetTotalBytes lp;
        if bytes \<noteq> sz then Some False
        else do {
          b \<leftarrow> rd lp (sz - 1);
          if b \<noteq> LP_EOF then Some False
          else if \<not> deep then Some True
          else do {
            numele \<leftarrow> lpGetNumElements lp;
            r \<leftarrow> lpValidate_loop entry_cb lp bytes numele cb_userdata (Some LP_HDR_SIZE) 0;
            (case r of
               None \<Rightarrow> Some False
             | Some (p, count) \<Rightarrow>
                 Some (p = Some (sz - 1) \<and> \<not> (numele \<noteq> LP_HDR_NUMELE_UNKNOWN \<and> numele \<noteq> count)))
          }
        }
      })"

end
