(* ===== verification/Listpack_Rep.thy ===== *)
theory Listpack_Rep
  imports Listpack
begin

text \<open>
  A listpack represents a list of elements: \<open>lp_rep lp es\<close> says that the bytes are the header, the
  encodings of the elements and the terminator.  The lemmas show that the traversal functions visit
  the elements of the list, and that insertion, replacement and deletion are the list operations.
\<close>

section \<open>The bytes of a listpack\<close>

definition lp_entries :: "lpele list \<Rightarrow> bytes" where
  "lp_entries es = concat (map lp_entry es)"

definition lp_total :: "lpele list \<Rightarrow> nat" where
  "lp_total es = 7 + length (lp_entries es)"

definition lp_off :: "lpele list \<Rightarrow> nat \<Rightarrow> nat" where
  "lp_off es i = 6 + length (lp_entries (take i es))"

definition lp_header :: "nat \<Rightarrow> nat \<Rightarrow> bytes" where
  "lp_header t num = le_bytes 4 (int t) @ le_bytes 2 (int num)"

definition lp_rep :: "bytes \<Rightarrow> lpele list \<Rightarrow> bool" where
  "lp_rep lp es \<longleftrightarrow> (\<exists>num slack. lp = lp_header (lp_total es) num @ lp_entries es @ LP_EOF # slack \<and>
     (num = length es \<and> num < 65535 \<or> num = 65535)) \<and>
     lp_total es < 2 ^ 32 \<and> list_all lpele_ok es"

lemma lp_entries_simps [simp]:
  "lp_entries [] = []" "lp_entries (e # es) = lp_entry e @ lp_entries es"
  "lp_entries (es @ es') = lp_entries es @ lp_entries es'"
  by (simp_all add: lp_entries_def)

lemma length_lp_header [simp]: "length (lp_header t n) = 6"
  by (simp add: lp_header_def)

lemma lp_header_get:
  assumes "t < 2 ^ 32" "n < 65536"
  shows "lpGetTotalBytes (lp_header t n @ r) = Some t" "lpGetNumElements (lp_header t n @ r) = Some n"
proof -
  have "le_uint (le_bytes 4 (int t)) = int t" "le_uint (le_bytes 2 (int n)) = int n"
    using assms by (intro le_uint_le_bytes_id; simp)+
  then show "lpGetTotalBytes (lp_header t n @ r) = Some t" "lpGetNumElements (lp_header t n @ r) = Some n"
    by (simp_all add: lpGetTotalBytes_def lpGetNumElements_def lp_header_def mem_read_def)
qed

lemma lp_header_set:
  "lpSetTotalBytes (lp_header t n @ r) t' = Some (lp_header t' n @ r)"
  "lpSetNumElements (lp_header t n @ r) v = Some (lp_header t (nat (v mod 65536)) @ r)"
proof -
  show "lpSetTotalBytes (lp_header t n @ r) t' = Some (lp_header t' n @ r)"
    by (simp add: lpSetTotalBytes_def lp_header_def mem_write_def)
  have "le_bytes 2 v = le_bytes 2 (le_uint (le_bytes 2 v))" by (rule le_bytes_le_uint [symmetric]) simp
  then have "le_bytes 2 v = le_bytes 2 (v mod 65536)" by (simp add: le_uint_le_bytes)
  then show "lpSetNumElements (lp_header t n @ r) v = Some (lp_header t (nat (v mod 65536)) @ r)"
    by (simp add: lpSetNumElements_def lp_header_def mem_write_def)
qed

lemma lp_entries_split:
  "i \<le> length es \<Longrightarrow> lp_entries es = lp_entries (take i es) @ lp_entries (drop i es)"
  by (metis append_take_drop_id lp_entries_simps(3))

lemma lp_off_drop:
  assumes "i \<le> length es"
  shows "drop (lp_off es i) (lp_header t n @ lp_entries es @ r) = lp_entries (drop i es) @ r"
    "take (lp_off es i) (lp_header t n @ lp_entries es @ r) = lp_header t n @ lp_entries (take i es)"
  using lp_entries_split [OF assms] by (simp_all add: lp_off_def)

lemma lp_off_Suc: "i < length es \<Longrightarrow> lp_off es (Suc i) = lp_off es i + length (lp_entry (es ! i))"
  by (simp add: lp_off_def take_Suc_conv_app_nth)

lemma lp_off_0 [simp]: "lp_off es 0 = 6" and lp_off_length: "lp_off es (length es) = lp_total es - 1"
  by (simp_all add: lp_off_def lp_total_def)

lemma lp_off_bounds:
  assumes "i \<le> length es" shows "6 \<le> lp_off es i" "lp_off es i < lp_total es"
  using arg_cong [OF lp_entries_split [OF assms], of length] by (simp_all add: lp_off_def lp_total_def)

lemma length_lp_entry: "lpele_ok e \<Longrightarrow> 2 \<le> length (lp_entry e)"
  using lp_enc_size(4) [of e] length_lpEncodeBacklen [of "length (lp_enc e)"]
  by (cases "lp_enc e") (auto simp: lp_entry_def)

lemma lp_off_mono: "i \<le> j \<Longrightarrow> j \<le> length es \<Longrightarrow> lp_off es i \<le> lp_off es j"
proof (induction j)
  case (Suc j)
  then show ?case by (cases "i = Suc j") (auto simp: lp_off_Suc)
qed simp

lemma lp_off_strict:
  assumes "list_all lpele_ok es" "i < j" "j \<le> length es" shows "lp_off es i < lp_off es j"
proof -
  have "lp_off es i < lp_off es (Suc i)"
    using assms length_lp_entry [of "es ! i"] by (auto simp: lp_off_Suc list_all_length)
  also have "\<dots> \<le> lp_off es j" using assms by (intro lp_off_mono) auto
  finally show ?thesis .
qed

lemma lp_repE:
  assumes "lp_rep lp es"
  obtains num slack where "lp = lp_header (lp_total es) num @ lp_entries es @ LP_EOF # slack"
    "num = length es \<and> num < 65535 \<or> num = 65535" "lp_total es < 2 ^ 32" "list_all lpele_ok es"
  using assms by (auto simp: lp_rep_def)

lemma lp_repI:
  assumes "lp = lp_header (lp_total es) num @ lp_entries es @ LP_EOF # slack"
    "num = length es \<and> num < 65535 \<or> num = 65535" "lp_total es < 2 ^ 32" "list_all lpele_ok es"
  shows "lp_rep lp es"
  using assms by (auto simp: lp_rep_def)

lemma lp_rep_total: "lp_rep lp es \<Longrightarrow> lpGetTotalBytes lp = Some (lp_total es)"
  by (elim lp_repE) (auto simp: lp_header_get)

lemma lp_rep_num:
  assumes "lp_rep lp es"
  shows "\<exists>num. lpGetNumElements lp = Some num \<and> (num = length es \<and> num < 65535 \<or> num = 65535)"
  using assms by (elim lp_repE) (auto simp: lp_header_get)

lemma lp_rep_ok: "lp_rep lp es \<Longrightarrow> i < length es \<Longrightarrow> lpele_ok (es ! i)"
  by (auto simp: lp_rep_def list_all_length)

lemma lp_rep_drop:
  assumes "lp_rep lp es" "i < length es"
  shows "\<exists>r. drop (lp_off es i) lp = lp_entry (es ! i) @ r"
  using assms(1)
proof (elim lp_repE)
  fix num slack assume "lp = lp_header (lp_total es) num @ lp_entries es @ LP_EOF # slack"
  then have "drop (lp_off es i) lp = lp_entries (drop i es) @ LP_EOF # slack"
    using assms(2) lp_off_drop(1) [of i es _ _ "LP_EOF # slack"] by simp
  also have "drop i es = es ! i # drop (Suc i) es" using assms(2) by (rule Cons_nth_drop_Suc [symmetric])
  finally show ?thesis by simp
qed

lemma lp_rep_eof: "lp_rep lp es \<Longrightarrow> \<exists>r. drop (lp_off es (length es)) lp = LP_EOF # r"
  by (elim lp_repE) (auto simp: lp_off_def)

lemma rd_drop: "rd lp p = rd (drop p lp) 0"
  by (auto simp: rd_def)

lemma lp_rep_rd:
  assumes "lp_rep lp es" "i \<le> length es"
  shows "\<exists>b. rd lp (lp_off es i) = Some b \<and> (b = LP_EOF \<longleftrightarrow> i = length es)"
proof (cases "i = length es")
  case True
  then show ?thesis using lp_rep_eof [OF assms(1)] by (subst rd_drop) auto
next
  case False
  then have i: "i < length es" using assms(2) by simp
  from lp_rep_drop [OF assms(1) i] lp_rep_ok [OF assms(1) i]
  obtain r where "drop (lp_off es i) lp = lp_entry (es ! i) @ r" "lpele_ok (es ! i)" by blast
  then show ?thesis using rd_entry [of "es ! i" r] False by (subst rd_drop) auto
qed

lemma lp_rep_rev_take:
  assumes "lp_rep lp es" "i < length es"
  shows "\<exists>r. rev (take (lp_off es (Suc i)) lp) = rev (lpEncodeBacklen (length (lp_enc (es ! i)))) @ r"
  using assms(1)
proof (elim lp_repE)
  fix num slack assume "lp = lp_header (lp_total es) num @ lp_entries es @ LP_EOF # slack"
  then have "take (lp_off es (Suc i)) lp = lp_header (lp_total es) num @ lp_entries (take (Suc i) es)"
    using assms(2) lp_off_drop(2) [of "Suc i" es _ _ "LP_EOF # slack"] by simp
  then show ?thesis using assms(2) by (simp add: take_Suc_conv_app_nth lp_entry_def)
qed

lemma lp_rep_length: "lp_rep lp es \<Longrightarrow> lp_total es \<le> length lp"
  by (elim lp_repE) (simp add: lp_total_def)

section \<open>Validation and traversal of a well-formed listpack\<close>

lemma lpValidateNext_entry:
  assumes rep: "lp_rep lp es" and i: "i < length es"
  shows "lpValidateNext lp (Some (lp_off es i)) (lp_total es) = Some (Some (Some (lp_off es (Suc i))))"
proof -
  let ?e = "es ! i" and ?p = "lp_off es i"
  let ?n = "length (lp_enc ?e)"
  have ok: "lpele_ok ?e" by (rule lp_rep_ok [OF rep i])
  obtain r where r: "drop ?p lp = lp_entry ?e @ r" using lp_rep_drop [OF rep i] by blast
  obtain b where b: "rd lp ?p = Some b" "b \<noteq> LP_EOF" using lp_rep_rd [OF rep, of i] i by auto
  have d: "drop ?p lp = lp_enc ?e @ lpEncodeBacklen ?n @ r" by (simp add: r lp_entry_def)
  obtain k where k: "lpCurrentEncodedSizeBytes (drop ?p lp) = Some k" "0 < k" "k \<le> ?n"
    using lp_enc_size(2) [OF ok] d by metis
  have sz: "lpCurrentEncodedSizeUnsafe (drop ?p lp) = Some ?n" by (simp add: d lp_enc_size(1) [OF ok])
  have Suc: "lp_off es (Suc i) = ?p + (?n + length (lpEncodeBacklen ?n))"
    by (simp add: lp_off_Suc [OF i] lp_entry_def)
  have lt: "6 \<le> ?p" "lp_off es (Suc i) < lp_total es"
    using lp_off_bounds [of i es] lp_off_bounds [of "Suc i" es] i by auto
  have t: "lp_total es < 2 ^ 32" "lp_total es \<le> length lp"
    using rep lp_rep_length [OF rep] by (auto simp: lp_rep_def)
  obtain q where "rev (take (lp_off es (Suc i)) lp) = rev (lpEncodeBacklen ?n) @ q"
    using lp_rep_rev_take [OF rep i] by blast
  then have "lpDecodeBacklen (rev (take (lp_off es (Suc i)) lp)) = Some ?n"
    using Suc lt t by (simp add: lpDecodeBacklen_encode)
  then show ?thesis using b k sz Suc lt t
    by (simp add: lpValidateNext_def lp_out_of_range_def LP_HDR_SIZE_def Let_def)
qed

lemma lpValidateNext_eof:
  assumes rep: "lp_rep lp es"
  shows "lpValidateNext lp (Some (lp_off es (length es))) (lp_total es) = Some (Some None)"
  using lp_rep_rd [OF rep, of "length es"] lp_off_bounds [of "length es" es]
  by (auto simp: lpValidateNext_def lp_out_of_range_def LP_HDR_SIZE_def)

lemma lpAssertValidEntry_ok:
  assumes rep: "lp_rep lp es" and i: "i \<le> length es"
  shows "lpAssertValidEntry lp (lp_total es) (lp_off es i) = Some ()"
  using lpValidateNext_entry [OF rep, of i] lpValidateNext_eof [OF rep] i
  by (cases "i = length es") (auto simp: lpAssertValidEntry_def c_assert_def)

lemma lpSkip_rep:
  assumes rep: "lp_rep lp es" and i: "i < length es"
  shows "lpSkip (drop (lp_off es i) lp) = Some (length (lp_entry (es ! i)))"
  using lp_rep_drop [OF rep i] lpSkip_entry [OF lp_rep_ok [OF rep i]] by auto

definition lp_ptr :: "lpele list \<Rightarrow> nat \<Rightarrow> nat option" where
  "lp_ptr es i = (if i < length es then Some (lp_off es i) else None)"

lemma lpNext_rep:
  assumes rep: "lp_rep lp es" and i: "i < length es"
  shows "lpNext lp (lp_off es i) = Some (lp_ptr es (Suc i))"
proof -
  obtain b where b: "rd lp (lp_off es (Suc i)) = Some b" "b = LP_EOF \<longleftrightarrow> Suc i = length es"
    using lp_rep_rd [OF rep, of "Suc i"] i by auto
  then show ?thesis
    using lpSkip_rep [OF rep i] lpAssertValidEntry_ok [OF rep, of "Suc i"] lp_rep_total [OF rep] i
    by (auto simp: lpNext_def lpBytes_def lp_off_Suc lp_ptr_def Let_def)
qed

lemma lpFirst_rep:
  assumes rep: "lp_rep lp es" shows "lpFirst lp = Some (lp_ptr es 0)"
proof -
  obtain b where b: "rd lp 6 = Some b" "b = LP_EOF \<longleftrightarrow> es = []"
    using lp_rep_rd [OF rep, of 0] by auto
  then show ?thesis
    using lpAssertValidEntry_ok [OF rep, of 0] lp_rep_total [OF rep]
    by (auto simp: lpFirst_def lpBytes_def LP_HDR_SIZE_def lp_ptr_def)
qed

lemma lpPrev_rep:
  assumes rep: "lp_rep lp es" and i: "i \<le> length es"
  shows "lpPrev lp (lp_off es i) = Some (if i = 0 then None else Some (lp_off es (i - 1)))"
proof (cases i)
  case 0
  then show ?thesis by (simp add: lpPrev_def LP_HDR_SIZE_def)
next
  case (Suc j)
  then have j: "j < length es" using i by simp
  let ?n = "length (lp_enc (es ! j))"
  have ok: "list_all lpele_ok es" and t: "lp_total es < 2 ^ 32" using rep by (auto simp: lp_rep_def)
  have S: "lp_off es (Suc j) = lp_off es j + (?n + length (lpEncodeBacklen ?n))"
    by (simp add: lp_off_Suc [OF j] lp_entry_def)
  have lt: "6 < lp_off es (Suc j)" "lp_off es (Suc j) < lp_total es"
    using lp_off_strict [OF ok, of 0 "Suc j"] lp_off_bounds [of "Suc j" es] j by auto
  obtain q where "rev (take (lp_off es (Suc j)) lp) = rev (lpEncodeBacklen ?n) @ q"
    using lp_rep_rev_take [OF rep j] by blast
  then have "lpDecodeBacklen (rev (take (lp_off es (Suc j)) lp)) = Some ?n"
    using S lt t by (simp add: lpDecodeBacklen_encode)
  moreover have "size_sub (lp_off es (Suc j)) ((?n + length (lpEncodeBacklen ?n)) mod 2 ^ 64) = Some (lp_off es j)"
    using S lt t by (simp add: size_sub_def)
  ultimately show ?thesis
    using Suc lt t lp_rep_length [OF rep] lpAssertValidEntry_ok [OF rep, of j] lp_rep_total [OF rep] j
    by (simp add: lpPrev_def LP_HDR_SIZE_def lpBytes_def Let_def)
qed

lemma lpLast_rep:
  assumes rep: "lp_rep lp es"
  shows "lpLast lp = Some (if es = [] then None else Some (lp_off es (length es - 1)))"
  using lpPrev_rep [OF rep, of "length es"] lp_rep_total [OF rep]
  by (auto simp: lpLast_def size_sub_def lp_off_length lp_total_def)

lemma length_es_bound:
  assumes "lp_rep lp es" shows "2 * length es + 7 \<le> lp_total es" "length es < 2 ^ 31"
proof -
  have "list_all lpele_ok es \<Longrightarrow> 2 * length es \<le> length (lp_entries es)" for es
  proof (induction es)
    case (Cons e es)
    then show ?case using length_lp_entry [of e] by simp
  qed simp
  then show "2 * length es + 7 \<le> lp_total es" using assms by (auto simp: lp_rep_def lp_total_def)
  then show "length es < 2 ^ 31" using assms by (auto simp: lp_rep_def)
qed

lemma lpLength_loop_rep:
  assumes rep: "lp_rep lp es"
  shows "i \<le> length es \<Longrightarrow> lpLength_loop lp (lp_ptr es i) i = Some (length es)"
proof (induction "length es - i" arbitrary: i)
  case 0
  then show ?case by (simp add: lp_ptr_def)
next
  case (Suc k)
  then have i: "i < length es" by simp
  have "Suc i < 2 ^ 32" using i length_es_bound(2) [OF rep] by simp
  then have "(i + 1) mod 2 ^ 32 = Suc i" by simp
  then have "lpLength_loop lp (Some (lp_off es i)) i = lpLength_loop lp (lp_ptr es (Suc i)) (Suc i)"
    using lpNext_rep [OF rep i] by simp
  also have "\<dots> = Some (length es)" using Suc i by (intro Suc.hyps) auto
  finally show ?case using i by (simp add: lp_ptr_def)
qed

lemma lpLength_rep:
  assumes rep: "lp_rep lp es"
  shows "\<exists>lp'. lpLength lp = Some (length es, lp') \<and> lp_rep lp' es \<and> length lp' = length lp \<and>
     drop 6 lp' = drop 6 lp"
proof -
  obtain num slack where lp: "lp = lp_header (lp_total es) num @ lp_entries es @ LP_EOF # slack"
    and num: "num = length es \<and> num < 65535 \<or> num = 65535"
    and t: "lp_total es < 2 ^ 32" "list_all lpele_ok es" using rep by (rule lp_repE)
  have g: "lpGetNumElements lp = Some num" using num t unfolding lp by (intro lp_header_get) auto
  show ?thesis
  proof (cases "num = 65535")
    case False
    then show ?thesis using g num rep by (auto simp: lpLength_def LP_HDR_NUMELE_UNKNOWN_def)
  next
    case True
    have l: "lpLength_loop lp (lp_ptr es 0) 0 = Some (length es)" by (rule lpLength_loop_rep [OF rep]) simp
    show ?thesis
    proof (cases "length es < 65535")
      case False
      then show ?thesis using g True l lpFirst_rep [OF rep] rep
        by (simp add: lpLength_def LP_HDR_NUMELE_UNKNOWN_def)
    next
      case s: True
      let ?lp' = "lp_header (lp_total es) (length es) @ lp_entries es @ LP_EOF # slack"
      have "lpSetNumElements lp (int (length es)) = Some ?lp'"
        using lp_header_set(2) [of "lp_total es" num _ "int (length es)"] s by (simp add: lp)
      moreover have "lp_rep ?lp' es" using s t by (intro lp_repI) auto
      ultimately show ?thesis using g True l lpFirst_rep [OF rep] s lp
        by (simp add: lpLength_def LP_HDR_NUMELE_UNKNOWN_def)
    qed
  qed
qed

lemma lpSeek_forward_rep:
  assumes rep: "lp_rep lp es"
  shows "lpSeek_forward lp k (lp_ptr es i) = Some (lp_ptr es (i + k))"
proof (induction k arbitrary: i)
  case (Suc k)
  show ?case
  proof (cases "i < length es")
    case True
    then show ?thesis using Suc [of "Suc i"] lpNext_rep [OF rep True] by (simp add: lp_ptr_def)
  next
    case False
    then show ?thesis by (simp add: lp_ptr_def)
  qed
qed simp

lemma lpSeek_backward_rep:
  assumes rep: "lp_rep lp es"
  shows "i < length es \<Longrightarrow> lpSeek_backward lp k (Some (lp_off es i)) = Some (if k \<le> i then Some (lp_off es (i - k)) else None)"
proof (induction k arbitrary: i)
  case (Suc k)
  have "lpSeek_backward lp k None = Some None" if "0 < k" using that by (cases k) auto
  then show ?case using Suc.IH [of "i - 1"] Suc.prems lpPrev_rep [OF rep, of i] by (cases "k = 0") auto
qed simp

text \<open>The index of the element that \<open>lpSeek\<close> looks for.\<close>

definition seek_index :: "lpele list \<Rightarrow> int \<Rightarrow> nat option" where
  "seek_index es index =
     (let j = (if index < 0 then int (length es) + index else index)
      in if 0 \<le> j \<and> j < int (length es) then Some (nat j) else None)"

lemma lpSeek_rep:
  assumes rep: "lp_rep lp es"
  shows "lpSeek lp index = Some (map_option (lp_off es) (seek_index es index))"
proof -
  obtain num where num: "lpGetNumElements lp = Some num" "num = length es \<and> num < 65535 \<or> num = 65535"
    using lp_rep_num [OF rep] by blast
  have fw: "do { ele \<leftarrow> lpFirst lp; lpSeek_forward lp k ele } = Some (lp_ptr es k)" for k
    using lpSeek_forward_rep [OF rep, of k 0] lpFirst_rep [OF rep] by simp
  have bw: "do { ele \<leftarrow> lpLast lp; lpSeek_backward lp k ele } =
      Some (if k < length es then Some (lp_off es (length es - 1 - k)) else None)" for k
  proof (cases "es = []")
    case True
    then show ?thesis using lpLast_rep [OF rep] by (cases k) auto
  next
    case False
    then have "k \<le> length es - 1 \<longleftrightarrow> k < length es" by (cases es) auto
    then show ?thesis using False lpSeek_backward_rep [OF rep, of "length es - 1" k] lpLast_rep [OF rep]
      by simp
  qed
  show ?thesis
  proof (cases "num = 65535")
    case True
    show ?thesis
    proof (cases "index < 0")
      case neg: True
      have "nat (- 1 - index) < length es \<longleftrightarrow> - index \<le> int (length es)" using neg by auto
      moreover have "- index \<le> int (length es) \<Longrightarrow> length es - 1 - nat (- 1 - index) = nat (int (length es) + index)"
        using neg by auto
      ultimately show ?thesis using True neg num bw [of "nat (- 1 - index)"]
        by (auto simp: lpSeek_def LP_HDR_NUMELE_UNKNOWN_def Let_def seek_index_def)
    next
      case False
      then show ?thesis using True num fw [of "nat index"]
        by (auto simp: lpSeek_def LP_HDR_NUMELE_UNKNOWN_def Let_def seek_index_def lp_ptr_def)
    qed
  next
    case False
    then have n: "num = length es" "num < 65535" using num(2) by auto
    define j where "j = (if index < 0 then int (length es) + index else index)"
    consider (out) "j < 0 \<or> int (length es) \<le> j" | (f) "0 \<le> j" "j < int (length es)" "j \<le> int (length es) div 2"
      | (b) "0 \<le> j" "j < int (length es)" "\<not> j \<le> int (length es) div 2" by linarith
    then show ?thesis
    proof cases
      case out
      then show ?thesis using num(1) n
        by (auto simp: lpSeek_def LP_HDR_NUMELE_UNKNOWN_def Let_def seek_index_def j_def)
    next
      case f
      have "lpSeek lp index = do { ele \<leftarrow> lpFirst lp; lpSeek_forward lp (nat j) ele }"
        using num(1) n f by (simp add: lpSeek_def LP_HDR_NUMELE_UNKNOWN_def Let_def j_def [symmetric])
      moreover have "seek_index es index = Some (nat j)" using f by (simp add: seek_index_def j_def [symmetric] Let_def)
      ultimately show ?thesis using fw [of "nat j"] f by (simp add: lp_ptr_def)
    next
      case b
      have "lpSeek lp index = do { ele \<leftarrow> lpLast lp; lpSeek_backward lp (nat (- 1 - (j - int (length es)))) ele }"
        using num(1) n b by (simp add: lpSeek_def LP_HDR_NUMELE_UNKNOWN_def Let_def j_def [symmetric])
      moreover have "seek_index es index = Some (nat j)" using b by (simp add: seek_index_def j_def [symmetric] Let_def)
      moreover have "nat (- 1 - (j - int (length es))) < length es"
        "length es - 1 - nat (- 1 - (j - int (length es))) = nat j" using b by auto
      ultimately show ?thesis using bw [of "nat (- 1 - (j - int (length es)))"] by simp
    qed
  qed
qed

section \<open>Insertion, replacement and deletion\<close>

text \<open>The element a caller asks to store.\<close>

definition str_ele :: "bytes \<Rightarrow> lpele" where
  "str_ele s = (case string2ll s of Some v \<Rightarrow> LInt v | None \<Rightarrow> LStr s)"

definition lpe_ele :: "listpackEntry \<Rightarrow> lpele" where
  "lpe_ele e = (case e of LpeSval s \<Rightarrow> str_ele s | LpeLval v \<Rightarrow> LInt v)"

definition lp_allocator_ok :: "lp_allocator \<Rightarrow> bool" where
  "lp_allocator_ok A \<longleftrightarrow> (\<forall>n. n \<le> la_usable A n)"

definition lpe_ok :: "listpackEntry \<Rightarrow> bool" where
  "lpe_ok e = (case e of LpeSval s \<Rightarrow> length s + 5 < 2 ^ 32 | LpeLval v \<Rightarrow> in_int64 v)"

lemma lpe_ele_ok: "lpe_ok e \<Longrightarrow> lpele_ok (lpe_ele e)"
  using string2ll_sound
  by (auto simp: lpe_ok_def lpe_ele_def str_ele_def split: listpackEntry.splits option.splits)

lemma snd_lp_encoding: "snd (lp_encoding (lpe_arg e)) = length (lp_enc (lpe_ele e))"
  by (auto simp: lp_encoding_def lpe_arg_def lpe_ele_def str_ele_def lpEncodeGetType_ele
      split: listpackEntry.split option.split)

lemma lpe_arg_not_none [simp]: "lpe_arg e \<noteq> EleNone"
  by (simp add: lpe_arg_def split: listpackEntry.split)

lemma lp_store_eq:
  assumes "length X = length (lp_entry (lpe_ele e))"
  shows "lp_store (P @ X @ Q) (length P) (lpe_arg e) = Some (P @ lp_entry (lpe_ele e) @ Q)"
proof -
  let ?c = "lp_enc (lpe_ele e)" and ?b = "lpEncodeBacklen (length (lp_enc (lpe_ele e)))"
  obtain X1 X2 where X: "X = X1 @ X2" "length X1 = length ?c" "length X2 = length ?b"
    using assms that [of "take (length ?c) X" "drop (length ?c) X"] by (simp add: lp_entry_def)
  have w: "(case fst (lp_encoding (lpe_arg e)) of
             Some b \<Rightarrow> mem_write lp d b
           | None \<Rightarrow> (case lpe_arg e of EleStr s \<Rightarrow> mem_write lp d (lpEncodeString s) | _ \<Rightarrow> None)) =
       mem_write lp d ?c" for lp d
    by (auto simp: lp_encoding_def lpe_arg_def lpe_ele_def str_ele_def lpEncodeGetType_ele
      split: listpackEntry.split option.split)
  have "mem_write (P @ X @ Q) (length P) ?c = Some (P @ ?c @ X2 @ Q)"
    using X mem_write_mid [of X1 ?c P "X2 @ Q"] by simp
  moreover have "mem_write (P @ ?c @ X2 @ Q) (length P + length ?c) ?b = Some (P @ ?c @ ?b @ Q)"
    using X mem_write_mid [of X2 ?b "P @ ?c" Q] by simp
  ultimately show ?thesis
    by (simp add: lp_store_def w snd_lp_encoding lp_entry_def case_prod_beta)
qed

lemma lp_realloc_grow:
  assumes "lp_allocator_ok A" "length lp \<le> n"
  shows "\<exists>J. n \<le> length lp + length J \<and> lp_realloc A n lp = lp @ J"
proof -
  have le: "n \<le> la_usable A n" using assms(1) by (simp add: lp_allocator_ok_def)
  then have "length lp \<le> la_usable A n" using assms(2) by simp
  from mem_resize_grow [OF this, of "la_fill A"] show ?thesis
    using le by (auto simp: lp_realloc_def)
qed

lemma lp_realloc_prefix:
  assumes "lp_allocator_ok A" "length P = n" 
  shows "\<exists>J. lp_realloc A n (P @ J') = P @ J"
proof -
  have le: "n \<le> la_usable A n" using assms(1) by (simp add: lp_allocator_ok_def)
  show ?thesis using assms(2) le by (auto simp: lp_realloc_def mem_resize_def)
qed

text \<open>Making room for \<open>n\<close> bytes in place of \<open>R\<close>.\<close>

lemma lp_replace_gap:
  assumes "lp_allocator_ok A"
    and new: "new = length P + n + length Q" and old: "old = length P + length R + length Q"
    and lp_def: "lp = P @ R @ Q @ slack"
  shows "\<exists>lp' X slack'. 
    mem_move (if new > old \<and> new > length lp then lp_realloc A new lp else lp)
       (length P + n) (length P + length R) (length Q) = Some lp' \<and>
    (if new < old then lp_realloc A new lp' else lp') = P @ X @ Q @ slack' \<and> length X = n"
proof -
  obtain J where J: "(if new > old \<and> new > length lp then lp_realloc A new lp else lp) = P @ R @ Q @ J"
    and len: "new \<le> length P + length R + length Q + length J"
  proof (cases "new > old \<and> new > length lp")
    case True
    then obtain J where "new \<le> length lp + length J" "lp_realloc A new lp = lp @ J"
      using lp_realloc_grow [OF assms(1), of lp new] by auto
    then show ?thesis using that [of "slack @ J"] True by (simp add: lp_def)
  next
    case False
    then show ?thesis using that [of slack] new old by (auto simp: lp_def)
  qed
  let ?lp = "P @ R @ Q @ J"
  define M where "M = take n (R @ Q @ J)"
  define S where "S = drop (n + length Q) (R @ Q @ J)"
  have "mem_move ?lp (length P + n) (length P + length R) (length Q) = Some (P @ M @ Q @ S)"
    using len new by (simp add: mem_move_def mem_read_def mem_write_def M_def S_def add.assoc)
  moreover have "length M = n" using len new by (simp add: M_def)
  moreover have "\<exists>slack'. (if new < old then lp_realloc A new (P @ M @ Q @ S) else P @ M @ Q @ S) = P @ M @ Q @ slack'"
    using lp_realloc_prefix [OF assms(1), of "P @ M @ Q" new S] new \<open>length M = n\<close> by auto
  ultimately show ?thesis unfolding J by blast
qed

lemma take_drop_entries:
  "i \<le> length es \<Longrightarrow> length (lp_entries es) = length (lp_entries (take i es)) + length (lp_entries (drop i es))"
  by (metis length_append lp_entries_split)

definition lp_splice :: "lp_allocator \<Rightarrow> bytes \<Rightarrow> nat \<Rightarrow> nat \<Rightarrow> nat \<Rightarrow> nat \<Rightarrow> (bytes \<Rightarrow> nat option option) \<Rightarrow>
    (bytes \<Rightarrow> bytes option) \<Rightarrow> (bytes \<Rightarrow> bytes option) \<Rightarrow> (bytes \<times> nat option) option option" where
  "lp_splice A lp old p n r np st cnt =
     (let new = old + n - r in
      if new > LP_UINT32_MAX then Some None
      else do {
        let lp = (if new > old \<and> new > length lp then lp_realloc A new lp else lp);
        len \<leftarrow> size_sub old (p + r);
        lp \<leftarrow> mem_move lp (p + n) (p + r) len;
        let lp = (if new < old then lp_realloc A new lp else lp);
        newp \<leftarrow> np lp;
        lp \<leftarrow> st lp;
        lp \<leftarrow> cnt lp;
        lp \<leftarrow> lpSetTotalBytes lp new;
        Some (Some (lp, newp))
      })"

definition lp_count :: "int \<Rightarrow> bytes \<Rightarrow> bytes option" where
  "lp_count v lp = do {
     num_elements \<leftarrow> lpGetNumElements lp;
     if num_elements \<noteq> LP_HDR_NUMELE_UNKNOWN then lpSetNumElements lp (int num_elements + v) else Some lp
   }"

lemma lp_count_step:
  assumes "num = n \<and> num < 65535 \<or> num = (65535 :: nat)" and "v = int n' - int n"
    and n': "n' \<le> n + 1" and "t < 2 ^ 32"
  shows "\<exists>num'. (num' = n' \<and> num' < 65535 \<or> num' = 65535) \<and>
    lp_count v (lp_header t num @ r) = Some (lp_header t num' @ r)"
proof (cases "num = 65535")
  case True
  then show ?thesis using lp_header_get(2) [of t num r] assms(4)
    by (auto simp: lp_count_def LP_HDR_NUMELE_UNKNOWN_def)
next
  case False
  then have num: "num = n" "num < 65535" using assms(1) by auto
  then have "int num + v = int n'" "n' < 65536" using assms(2,3) by auto
  then have "lpSetNumElements (lp_header t num @ r) (int num + v) = Some (lp_header t n' @ r)"
    using lp_header_set(2) [of t num r "int n'"] by simp
  moreover have "n' < 65535 \<or> n' = 65535" using \<open>n' < 65536\<close> by auto
  ultimately show ?thesis using num lp_header_get(2) [of t num r] assms(4)
    by (auto simp: lp_count_def LP_HDR_NUMELE_UNKNOWN_def)
qed

lemma lpInsert_splice:
  assumes "lpGetTotalBytes lp = Some old"
  shows "lpInsert A lp (lpe_arg e) p LP_BEFORE =
      lp_splice A lp old p (length (lp_entry (lpe_ele e))) 0 (\<lambda>_. Some (Some p)) (\<lambda>lp. lp_store lp p (lpe_arg e)) (lp_count 1)"
    and "lpCurrentEncodedSizeUnsafe (drop p lp) = Some k \<Longrightarrow> k + length (lpEncodeBacklen k) = r \<Longrightarrow>
       6 \<le> p \<Longrightarrow> p + r < old \<Longrightarrow> r < 2 ^ 32 \<Longrightarrow>
       lpInsert A lp (lpe_arg e) p LP_REPLACE =
      lp_splice A lp old p (length (lp_entry (lpe_ele e))) r (\<lambda>_. Some (Some p)) (\<lambda>lp. lp_store lp p (lpe_arg e)) Some"
    and "lpCurrentEncodedSizeUnsafe (drop p lp) = Some k \<Longrightarrow> k + length (lpEncodeBacklen k) = r \<Longrightarrow>
       6 \<le> p \<Longrightarrow> p + r < old \<Longrightarrow> r < 2 ^ 32 \<Longrightarrow>
       lpInsert A lp EleNone p whr =
      lp_splice A lp old p 0 r (\<lambda>lp. do { b \<leftarrow> rd lp p; Some (if b = LP_EOF then None else Some p) }) Some (lp_count (- 1))"
  using assms
  by (simp_all add: lpInsert_def lp_splice_def snd_lp_encoding lp_entry_def lp_count_def Let_def add.assoc
      c_assert_def LP_HDR_SIZE_def lp_encoding_def [of EleNone] cong: if_cong)

lemma lp_splice_eq:
  assumes A: "lp_allocator_ok A"
    and lp: "lp = P @ R @ Q @ slack" and p: "p = length P" and n: "length E = n" and r: "length R = r"
    and old: "old = length P + r + length Q" and new: "new = length P + n + length Q" "new < 2 ^ 32"
    and np: "\<And>X S. length X = n \<Longrightarrow> np (P @ X @ Q @ S) = Some newp"
    and st: "\<And>X S. length X = n \<Longrightarrow> st (P @ X @ Q @ S) = Some (P @ E @ Q @ S)"
  shows "\<exists>S. lp_splice A lp old p n r np st cnt =
    do { lp \<leftarrow> cnt (P @ E @ Q @ S); lp \<leftarrow> lpSetTotalBytes lp new; Some (Some (lp, newp)) }"
proof -
  have o: "old = length P + length R + length Q" using old r by simp
  obtain lp1 X S where m: "mem_move (if new > old \<and> new > length lp then lp_realloc A new lp else lp)
       (p + n) (p + r) (length Q) = Some lp1"
      and l2: "(if new < old then lp_realloc A new lp1 else lp1) = P @ X @ Q @ S" and X: "length X = n"
    using lp_replace_gap [OF A new(1) o lp] p r by auto
  have "old + n - r = new" "size_sub old (p + r) = Some (length Q)" "\<not> new > LP_UINT32_MAX"
    using old new p by (simp_all add: size_sub_def LP_UINT32_MAX_def)
  then show ?thesis using m l2 np [OF X] st [OF X] by (intro exI [of _ S]) (simp add: lp_splice_def Let_def)
qed

lemma lp_splice_null:
  assumes "old + n - r \<ge> 2 ^ 32" shows "lp_splice A lp old p n r np st cnt = Some None"
  using assms by (simp add: lp_splice_def LP_UINT32_MAX_def)

text \<open>Replacing the entries from \<open>i\<close> to \<open>j\<close> by \<open>new\<close>.\<close>

lemma lp_splice_rep:
  assumes A: "lp_allocator_ok A" and rep: "lp_rep lp es" and ij: "i \<le> j" "j \<le> length es" "length new \<le> 1 + (j - i)"
    and ok: "list_all lpele_ok new"
    and es': "es' = take i es @ new @ drop j es" and small: "lp_total es' < 2 ^ 32"
    and r: "r = lp_off es j - lp_off es i"
    and np: "\<And>P X S. length P = lp_off es i \<Longrightarrow> length X = length (lp_entries new) \<Longrightarrow>
        np (P @ X @ lp_entries (drop j es) @ LP_EOF # S) = Some newp"
    and st: "\<And>P X Q. length P = lp_off es i \<Longrightarrow> length X = length (lp_entries new) \<Longrightarrow> st (P @ X @ Q) = Some (P @ lp_entries new @ Q)"
    and cnt: "cnt = lp_count (int (length es') - int (length es)) \<or> cnt = Some \<and> length es' = length es"
  shows "\<exists>lp'. lp_splice A lp (lp_total es) (lp_off es i) (length (lp_entries new)) r np st cnt = Some (Some (lp', newp)) \<and>
     lp_rep lp' es'"
proof -
  obtain num slack where lp: "lp = lp_header (lp_total es) num @ lp_entries es @ LP_EOF # slack"
    and num: "num = length es \<and> num < 65535 \<or> num = 65535"
    and t: "lp_total es < 2 ^ 32" "list_all lpele_ok es" using rep by (rule lp_repE)
  define P where "P = lp_header (lp_total es) num @ lp_entries (take i es)"
  define R where "R = lp_entries (take (j - i) (drop i es))"
  define Q where "Q = lp_entries (drop j es) @ [LP_EOF]"
  have split: "es = take i es @ take (j - i) (drop i es) @ drop j es"
    using ij by (metis append_take_drop_id drop_drop le_add_diff_inverse2)
  have E: "lp_entries es = lp_entries (take i es) @ R @ lp_entries (drop j es)"
    unfolding R_def using arg_cong [OF split, of lp_entries] by simp
  have tj: "take j es = take i es @ take (j - i) (drop i es)"
    using ij by (metis le_add_diff_inverse take_add)
  have lenP: "length P = lp_off es i" by (simp add: P_def lp_off_def)
  have lenR: "length R = r" using r by (simp add: lp_off_def tj R_def)
  have lens: "lp_total es = length P + r + length Q" "lp_total es' = length P + length (lp_entries new) + length Q"
    using E lenR by (simp_all add: P_def Q_def lp_total_def es')
  have lpPQ: "lp = P @ R @ Q @ slack" using E by (simp add: lp P_def Q_def)
  obtain S where S: "lp_splice A lp (lp_total es) (lp_off es i) (length (lp_entries new)) r np st cnt =
    do { lp \<leftarrow> cnt (P @ lp_entries new @ Q @ S); lp \<leftarrow> lpSetTotalBytes lp (lp_total es'); Some (Some (lp, newp)) }"
    using lp_splice_eq [OF A lpPQ lenP [symmetric] refl lenR lens small, of np newp st cnt] np st lenP
    by (auto simp: Q_def)
  have PQ: "P @ lp_entries new @ Q @ S = lp_header (lp_total es) num @ lp_entries es' @ LP_EOF # S"
    by (simp add: P_def Q_def es')
  have l: "length es' \<le> length es + 1" using ij by (auto simp: es')
  obtain num' where num': "num' = length es' \<and> num' < 65535 \<or> num' = 65535" and
      c: "cnt (P @ lp_entries new @ Q @ S) = Some (lp_header (lp_total es) num' @ lp_entries es' @ LP_EOF # S)"
    using cnt lp_count_step [OF num refl l t(1)] num unfolding PQ by fastforce
  have "lp_rep (lp_header (lp_total es') num' @ lp_entries es' @ LP_EOF # S) es'"
    using num' small ok t(2) by (intro lp_repI) (auto simp: es' list_all_iff dest: in_set_takeD in_set_dropD)
  then show ?thesis by (simp add: S c lp_header_set)
qed

lemma lp_total_splice:
  assumes "i \<le> j" "j \<le> length es"
  shows "lp_total (take i es @ new @ drop j es) = lp_total es + length (lp_entries new) - (lp_off es j - lp_off es i)"
    "lp_off es j - lp_off es i \<le> lp_total es"
proof -
  have "lp_off es i \<le> lp_off es j" using lp_off_mono [OF assms] .
  moreover have "length (lp_entries es) = length (lp_entries (take j es)) + length (lp_entries (drop j es))"
    using take_drop_entries [OF assms(2)] .
  ultimately show "lp_total (take i es @ new @ drop j es) = lp_total es + length (lp_entries new) - (lp_off es j - lp_off es i)"
    "lp_off es j - lp_off es i \<le> lp_total es"
    by (simp_all add: lp_total_def lp_off_def)
qed

lemma store_entries:
  "length P = p \<Longrightarrow> length X = length (lp_entries [lpe_ele e]) \<Longrightarrow>
     lp_store (P @ X @ Q) p (lpe_arg e) = Some (P @ lp_entries [lpe_ele e] @ Q)"
  using lp_store_eq [of X e P Q] by simp

lemma lpInsert_before:
  assumes A: "lp_allocator_ok A" and rep: "lp_rep lp es" and i: "i \<le> length es" and e: "lpe_ok e"
  defines "es' \<equiv> take i es @ lpe_ele e # drop i es"
  shows "if lp_total es' < 2 ^ 32
     then \<exists>lp'. lpInsert A lp (lpe_arg e) (lp_off es i) LP_BEFORE = Some (Some (lp', Some (lp_off es i))) \<and> lp_rep lp' es'
     else lpInsert A lp (lpe_arg e) (lp_off es i) LP_BEFORE = Some None"
proof -
  have es': "es' = take i es @ [lpe_ele e] @ drop i es" by (simp add: es'_def)
  have ok: "list_all lpele_ok [lpe_ele e]" using lpe_ele_ok [OF e] by simp
  note I = lpInsert_splice(1) [OF lp_rep_total [OF rep], of A e "lp_off es i"]
  show ?thesis
  proof (cases "lp_total es' < 2 ^ 32")
    case True
    have "\<exists>lp'. lp_splice A lp (lp_total es) (lp_off es i) (length (lp_entries [lpe_ele e])) 0
       (\<lambda>_. Some (Some (lp_off es i))) (\<lambda>lp. lp_store lp (lp_off es i) (lpe_arg e)) (lp_count 1) =
       Some (Some (lp', Some (lp_off es i))) \<and> lp_rep lp' es'"
      by (rule lp_splice_rep [OF A rep _ i _ ok es' True]) (use i in \<open>simp_all add: store_entries es'\<close>)
    then show ?thesis using True I by simp
  next
    case False
    then have "lp_total es + length (lp_entry (lpe_ele e)) - 0 \<ge> 2 ^ 32"
      using lp_total_splice(1) [OF le_refl i, of "[lpe_ele e]"] unfolding es' by simp
    from lp_splice_null [OF this] show ?thesis using False I by simp
  qed
qed

lemma lp_entry_range:
  assumes rep: "lp_rep lp es" and i: "i < length es"
  defines "k \<equiv> length (lp_enc (es ! i))"
  shows "lpCurrentEncodedSizeUnsafe (drop (lp_off es i) lp) = Some k"
    and "k + length (lpEncodeBacklen k) = lp_off es (Suc i) - lp_off es i"
    and "6 \<le> lp_off es i" and "lp_off es i + (lp_off es (Suc i) - lp_off es i) < lp_total es"
    and "lp_off es (Suc i) - lp_off es i < 2 ^ 32"
proof -
  obtain r where "drop (lp_off es i) lp = lp_entry (es ! i) @ r" using lp_rep_drop [OF rep i] by blast
  then show "lpCurrentEncodedSizeUnsafe (drop (lp_off es i) lp) = Some k"
    using lp_enc_size(1) [OF lp_rep_ok [OF rep i]] by (simp add: lp_entry_def k_def)
  show "k + length (lpEncodeBacklen k) = lp_off es (Suc i) - lp_off es i"
    by (simp add: lp_off_Suc [OF i] lp_entry_def k_def)
  have b: "6 \<le> lp_off es i" "lp_off es (Suc i) < lp_total es" "lp_off es i \<le> lp_off es (Suc i)" "lp_total es < 2 ^ 32"
    using lp_off_bounds [of i es] lp_off_bounds [of "Suc i" es] i rep by (auto simp: lp_off_Suc lp_rep_def)
  then show "6 \<le> lp_off es i" "lp_off es i + (lp_off es (Suc i) - lp_off es i) < lp_total es"
    "lp_off es (Suc i) - lp_off es i < 2 ^ 32" by auto
qed

lemma lpInsert_replace:
  assumes A: "lp_allocator_ok A" and rep: "lp_rep lp es" and i: "i < length es" and e: "lpe_ok e"
  defines "es' \<equiv> es[i := lpe_ele e]"
  shows "if lp_total es' < 2 ^ 32
     then \<exists>lp'. lpInsert A lp (lpe_arg e) (lp_off es i) LP_REPLACE = Some (Some (lp', Some (lp_off es i))) \<and> lp_rep lp' es'
     else lpInsert A lp (lpe_arg e) (lp_off es i) LP_REPLACE = Some None"
proof -
  have es': "es' = take i es @ [lpe_ele e] @ drop (Suc i) es" using i by (simp add: es'_def upd_conv_take_nth_drop)
  have ok: "list_all lpele_ok [lpe_ele e]" using lpe_ele_ok [OF e] by simp
  note I = lpInsert_splice(2) [OF lp_rep_total [OF rep] lp_entry_range [OF rep i], of A e]
  show ?thesis
  proof (cases "lp_total es' < 2 ^ 32")
    case True
    have "\<exists>lp'. lp_splice A lp (lp_total es) (lp_off es i) (length (lp_entries [lpe_ele e])) (lp_off es (Suc i) - lp_off es i)
       (\<lambda>_. Some (Some (lp_off es i))) (\<lambda>lp. lp_store lp (lp_off es i) (lpe_arg e)) Some =
       Some (Some (lp', Some (lp_off es i))) \<and> lp_rep lp' es'"
      by (rule lp_splice_rep [OF A rep _ _ _ ok es' True]) (use i in \<open>auto simp: store_entries es'\<close>)
    then show ?thesis using True I by simp
  next
    case False
    then have "lp_total es + length (lp_entry (lpe_ele e)) - (lp_off es (Suc i) - lp_off es i) \<ge> 2 ^ 32"
      using lp_total_splice(1) [of i "Suc i" es "[lpe_ele e]"] i unfolding es' by simp
    from lp_splice_null [OF this] show ?thesis using False I by simp
  qed
qed

lemma rd_append_length: "length P = p \<Longrightarrow> rd (P @ Q) p = rd Q 0"
  by (auto simp: rd_def nth_append)

lemma lpDelete_rep:
  assumes A: "lp_allocator_ok A" and rep: "lp_rep lp es" and i: "i < length es"
  defines "es' \<equiv> take i es @ drop (Suc i) es"
  shows "\<exists>lp'. lpDelete A lp (lp_off es i) = Some (Some (lp', lp_ptr es' i)) \<and> lp_rep lp' es'"
proof -
  have es': "es' = take i es @ [] @ drop (Suc i) es" by (simp add: es'_def)
  note I = lpInsert_splice(3) [OF lp_rep_total [OF rep] lp_entry_range [OF rep i], of A]
  have le: "lp_total es' \<le> lp_total es"
    using lp_total_splice(1) [of i "Suc i" es "[]"] i by (simp add: es'_def)
  then have small: "lp_total es' < 2 ^ 32" using rep by (simp add: lp_rep_def)
  have off: "lp_off es' i = lp_off es i" using i by (simp add: lp_off_def es'_def)
  have np: "do { b \<leftarrow> rd (P @ lp_entries (drop (Suc i) es) @ LP_EOF # S) (lp_off es i);
      Some (if b = LP_EOF then None else Some (lp_off es i)) } = Some (lp_ptr es' i)"
    if "length P = lp_off es i" for P S
  proof (cases "Suc i < length es")
    case True
    then have "drop (Suc i) es = es ! Suc i # drop (Suc (Suc i)) es" by (rule Cons_nth_drop_Suc [symmetric])
    then show ?thesis
      using True rd_append_length [OF that] off rd_entry [OF lp_rep_ok [OF rep True], of "lp_entries (drop (Suc (Suc i)) es) @ LP_EOF # S"]
      by (auto simp: lp_ptr_def es'_def)
  next
    case False
    then show ?thesis using i rd_append_length [OF that] by (simp add: lp_ptr_def es'_def)
  qed
  have "\<exists>lp'. lp_splice A lp (lp_total es) (lp_off es i) (length (lp_entries [])) (lp_off es (Suc i) - lp_off es i)
     (\<lambda>lp. do { b \<leftarrow> rd lp (lp_off es i); Some (if b = LP_EOF then None else Some (lp_off es i)) }) Some (lp_count (- 1)) =
     Some (Some (lp', lp_ptr es' i)) \<and> lp_rep lp' es'"
    by (rule lp_splice_rep [OF A rep _ _ _ _ es' small]) (use i np in \<open>simp_all add: es'\<close>)
  then show ?thesis using I by (simp add: lpDelete_def)
qed

lemma lpInsert_after:
  assumes rep: "lp_rep lp es" and i: "i < length es" 
  shows "lpInsert A lp (lpe_arg e) (lp_off es i) LP_AFTER = lpInsert A lp (lpe_arg e) (lp_off es (Suc i)) LP_BEFORE"
  using lpSkip_rep [OF rep i] lp_rep_total [OF rep] lp_off_bounds [of "Suc i" es] i
  by (simp add: lpInsert_def lp_off_Suc [OF i] c_assert_def LP_HDR_SIZE_def)

text \<open>The position before which an insertion takes place.\<close>

definition where_index :: "lp_where \<Rightarrow> nat \<Rightarrow> nat" where
  "where_index whr i = (if whr = LP_AFTER then Suc i else i)"

lemma EleStr_arg: "EleStr s = lpe_arg (LpeSval s)" "EleInt (lpEncodeIntegerGetType v) = lpe_arg (LpeLval v)"
  by (simp_all add: lpe_arg_def)

lemma lpAppend_prepend_eq:
  assumes rep: "lp_rep lp es"
  shows "lpAppend A lp s = lpInsert A lp (lpe_arg (LpeSval s)) (lp_off es (length es)) LP_BEFORE"
    "lpAppendInteger A lp v = lpInsert A lp (lpe_arg (LpeLval v)) (lp_off es (length es)) LP_BEFORE"
    "lpPrepend A lp s = lpInsert A lp (lpe_arg (LpeSval s)) (lp_off es 0) LP_BEFORE"
    "lpPrependInteger A lp v = lpInsert A lp (lpe_arg (LpeLval v)) (lp_off es 0) LP_BEFORE"
proof -
  have e: "lpGetTotalBytes lp = Some (lp_total es)" "size_sub (lp_total es) 1 = Some (lp_off es (length es))"
    using lp_rep_total [OF rep] by (simp_all add: size_sub_def lp_off_length lp_total_def)
  then show a: "lpAppend A lp s = lpInsert A lp (lpe_arg (LpeSval s)) (lp_off es (length es)) LP_BEFORE"
    "lpAppendInteger A lp v = lpInsert A lp (lpe_arg (LpeLval v)) (lp_off es (length es)) LP_BEFORE"
    by (simp_all add: lpAppend_def lpAppendInteger_def lpInsertInteger_def EleStr_arg)
  show "lpPrepend A lp s = lpInsert A lp (lpe_arg (LpeSval s)) (lp_off es 0) LP_BEFORE"
    "lpPrependInteger A lp v = lpInsert A lp (lpe_arg (LpeLval v)) (lp_off es 0) LP_BEFORE"
    using a lpFirst_rep [OF rep]
    by (cases es; simp add: lpPrepend_def lpPrependInteger_def lpInsertInteger_def EleStr_arg lp_ptr_def)+
qed

section \<open>Properties\<close>

lemma lpGet_intbuf_rep:
  assumes rep: "lp_rep lp es" and i: "i < length es" and "length buf = LP_INTBUF_SIZE"
  shows "lpGet_intbuf (drop (lp_off es i) lp) buf = Some (lpele_str (es ! i))"
  using lp_rep_drop [OF rep i] lpGet_intbuf_entry [OF lp_rep_ok [OF rep i] assms(3)] by auto

text \<open>A listpack with two elements, and an allocator that hands out exactly what it is asked for.\<close>

definition lp_example :: bytes where
  "lp_example = [13, 0, 0, 0, 2, 0, 5, 1, 0x82, 97, 98, 3, 0xFF]"

definition lp_exact :: lp_allocator where
  "lp_exact = \<lparr>la_fill = (\<lambda>_. 0), la_usable = (\<lambda>n. n)\<rparr>"

lemma lp_exact_ok: "lp_allocator_ok lp_exact"
  by (simp add: lp_allocator_ok_def lp_exact_def)

lemma le_bytes_4: "le_bytes 4 v =
  [word_of_int v, word_of_int (v div 256), word_of_int (v div 65536), word_of_int (v div 16777216)]"
proof -
  have "v div 65536 = v div 256 div 256" using zdiv_zmult2_eq [of 256 v 256] by simp
  moreover have "v div 16777216 = v div 65536 div 256" using zdiv_zmult2_eq [of 256 v 65536] by simp
  ultimately show ?thesis by (simp add: numeral_eq_Suc)
qed

lemma lp_example_entries:
  "lp_entry (LInt 5) = [5, 1]" "lp_entry (LStr [97, 98]) = [0x82, 97, 98, 3]"
  by (simp_all add: lp_entry_def lpEncodeIntegerGetType_def lpEncodeString_def lpEncodeBacklen_def)

lemma lp_example_rep: "lp_rep lp_example [LInt 5, LStr [97, 98]]"
  unfolding lp_example_def
  by (rule lp_repI [of _ _ 2 "[]"])
    (simp_all add: lp_header_def lp_total_def lp_example_entries LP_EOF_def in_int64_def le_bytes_2 le_bytes_4)

text \<open>C24. Traversal: the first, last, next and previous entry, the entry at an index
  counted from either end, the length and the value of an entry are those of the list.\<close>

theorem listpack_traversal:
  assumes "lp_rep lp es" and "i < length es" and "length buf = LP_INTBUF_SIZE"
  shows "lpFirst lp = Some (Some (lp_off es 0)) \<and>
    lpLast lp = Some (Some (lp_off es (length es - 1))) \<and>
    lpNext lp (lp_off es i) = Some (if Suc i < length es then Some (lp_off es (Suc i)) else None) \<and>
    lpPrev lp (lp_off es i) = Some (if i = 0 then None else Some (lp_off es (i - 1))) \<and>
    lpSeek lp index = Some (map_option (lp_off es) (seek_index es index)) \<and>
    (\<exists>lp'. lpLength lp = Some (length es, lp') \<and> lp_rep lp' es) \<and>
    lpGet_intbuf (drop (lp_off es i) lp) buf = Some (lpele_str (es ! i))"
proof -
  have ne: "es \<noteq> []" using assms(2) by auto
  then show ?thesis
    using lpFirst_rep [OF assms(1)] lpLast_rep [OF assms(1)] lpNext_rep [OF assms(1,2)]
      lpPrev_rep [OF assms(1), of i] lpSeek_rep [OF assms(1), of index] lpLength_rep [OF assms(1)]
      lpGet_intbuf_rep [OF assms] assms(2)
    by (auto simp: lp_ptr_def)
qed

theorem listpack_traversal_witness:
  "lp_rep lp_example [LInt 5, LStr [97, 98]] \<and> lpSeek lp_example (- 1) = Some (Some 8) \<and>
   lpNext lp_example 6 = Some (Some 8) \<and> lpGet_intbuf (drop 6 lp_example) (replicate 21 0) = Some [53]"
proof -
  have s: "seek_index [LInt 5, LStr [97, 98]] (- 1) = Some 1" by (simp add: seek_index_def)
  have o: "lp_off [LInt 5, LStr [97, 98]] 1 = 8" by (simp add: lp_off_def lp_example_entries)
  have d: "lpele_str (LInt 5) = [53]" by (simp add: sdec_def dec.simps digit_def)
  show ?thesis
    using listpack_traversal [OF lp_example_rep, of 0 "replicate 21 0" "- 1"] lp_example_rep s o d
    by (simp add: LP_INTBUF_SIZE_def)
qed

text \<open>C25. Insertion: a string (stored as an integer when it is the canonical form of one) or
  an integer is inserted before or after any entry, at the front or at the end.  The call returns
  \<open>NULL\<close> exactly when the listpack would not fit 32 bits; otherwise the result represents the list
  with the element inserted, and \<open>newp\<close> points to it.\<close>

theorem lpInsert_refines:
  assumes "lp_allocator_ok A" and "lp_rep lp es" and "lpe_ok e"
    and "i \<le> length es \<and> whr = LP_BEFORE \<or> i < length es \<and> whr = LP_AFTER"
  defines "j \<equiv> where_index whr i"
  defines "es' \<equiv> take j es @ lpe_ele e # drop j es"
  shows "(if lp_total es' < 2 ^ 32
     then \<exists>lp'. lpInsert A lp (lpe_arg e) (lp_off es i) whr = Some (Some (lp', Some (lp_off es' j))) \<and> lp_rep lp' es'
     else lpInsert A lp (lpe_arg e) (lp_off es i) whr = Some None) \<and>
   lpAppend A lp s = lpInsertString A lp s (lp_off es (length es)) LP_BEFORE \<and>
   lpAppendInteger A lp v = lpInsertInteger A lp v (lp_off es (length es)) LP_BEFORE \<and>
   lpPrepend A lp s = lpInsertString A lp s (lp_off es 0) LP_BEFORE \<and>
   lpPrependInteger A lp v = lpInsertInteger A lp v (lp_off es 0) LP_BEFORE"
proof -
  have j: "j \<le> length es" using assms(4) by (auto simp: j_def where_index_def)
  have "lpInsert A lp (lpe_arg e) (lp_off es i) whr = lpInsert A lp (lpe_arg e) (lp_off es j) LP_BEFORE"
    using assms(4) lpInsert_after [OF assms(2), of i A e] by (auto simp: j_def where_index_def)
  moreover have "lp_off es' j = lp_off es j" using j by (simp add: lp_off_def es'_def)
  ultimately show ?thesis
    using lpInsert_before [OF assms(1,2) j assms(3)] lpAppend_prepend_eq [OF assms(2), of A]
    by (simp add: es'_def lpInsertString_def lpInsertInteger_def EleStr_arg)
qed

theorem lpInsert_refines_witness:
  "lpe_ok (LpeSval [45, 49]) \<and> lpe_ele (LpeSval [45, 49]) = LInt (- 1) \<and>
   (\<exists>lp'. lpInsert lp_exact lp_example (EleStr [45, 49]) 6 LP_AFTER = Some (Some (lp', Some 8)) \<and>
     lp_rep lp' [LInt 5, LInt (- 1), LStr [97, 98]])"
proof -
  have ok: "lpe_ok (LpeSval [45, 49])" by (simp add: lpe_ok_def)
  have "sdec (- 1) = [45, 49]" by (simp add: sdec_def dec.simps digit_def)
  then have "string2ll [45, 49] = Some (- 1)" using string2ll_sdec [of "- 1"] by (simp add: in_int64_def)
  then have e: "lpe_ele (LpeSval [45, 49]) = LInt (- 1)" by (simp add: lpe_ele_def str_ele_def)
  have "lp_entry (LInt (- 1)) = [0xDF, 0xFF, 2]"
    by (simp add: lp_entry_def lpEncodeIntegerGetType_def lpEncodeBacklen_def Let_def)
  then have t: "lp_total [LInt 5, LInt (- 1), LStr [97, 98]] < 2 ^ 32" "lp_off [LInt 5, LInt (- 1), LStr [97, 98]] 1 = 8"
    by (simp_all add: lp_total_def lp_off_def lp_example_entries)
  have "0 < length [LInt 5, LStr [97, 98]] \<and> LP_AFTER = LP_AFTER" by simp
  from lpInsert_refines [OF lp_exact_ok lp_example_rep ok, of 0 LP_AFTER] this t e ok
  show ?thesis by (simp add: where_index_def EleStr_arg)
qed

text \<open>C26. Replacement and deletion: \<open>lpReplace\<close>, \<open>lpReplaceInteger\<close> and \<open>lpDelete\<close> at the
  entry of index \<open>i\<close> update the list at \<open>i\<close>, leave every other element as it was, and return the
  position of the new or of the following entry.\<close>

theorem lpReplace_lpDelete_refine:
  assumes "lp_allocator_ok A" and "lp_rep lp es" and "i < length es" and "lpe_ok e"
  defines "es' \<equiv> es[i := lpe_ele e]" and "es'' \<equiv> take i es @ drop (Suc i) es"
  shows "(case e of
      LpeSval s \<Rightarrow> lpReplace A lp (lp_off es i) s = lpInsert A lp (lpe_arg e) (lp_off es i) LP_REPLACE
    | LpeLval v \<Rightarrow> lpReplaceInteger A lp (lp_off es i) v = lpInsert A lp (lpe_arg e) (lp_off es i) LP_REPLACE) \<and>
   (if lp_total es' < 2 ^ 32
    then \<exists>lp'. lpInsert A lp (lpe_arg e) (lp_off es i) LP_REPLACE = Some (Some (lp', Some (lp_off es' i))) \<and> lp_rep lp' es'
    else lpInsert A lp (lpe_arg e) (lp_off es i) LP_REPLACE = Some None) \<and>
   (\<exists>lp'. lpDelete A lp (lp_off es i) =
       Some (Some (lp', if i < length es'' then Some (lp_off es'' i) else None)) \<and> lp_rep lp' es'')"
proof -
  have "lp_off es' i = lp_off es i" using assms(3) by (simp add: lp_off_def es'_def)
  then show ?thesis
    using lpInsert_replace [OF assms(1-4)] lpDelete_rep [OF assms(1-3)]
    by (auto simp: es'_def es''_def lp_ptr_def lpReplace_def lpReplaceInteger_def lpInsertInteger_def lpe_arg_def
        split: listpackEntry.split)
qed

theorem lpReplace_lpDelete_refine_witness:
  "lpe_ok (LpeLval 7) \<and>
   (\<exists>lp'. lpReplaceInteger lp_exact lp_example 8 7 = Some (Some (lp', Some 8)) \<and> lp_rep lp' [LInt 5, LInt 7]) \<and>
   (\<exists>lp'. lpDelete lp_exact lp_example 8 = Some (Some (lp', None)) \<and> lp_rep lp' [LInt 5])"
proof -
  let ?es = "[LInt 5, LStr [97, 98]]"
  have ok: "lpe_ok (LpeLval 7)" and e: "lpe_ele (LpeLval 7) = LInt 7" by (simp_all add: lpe_ok_def in_int64_def lpe_ele_def)
  have "lp_entry (LInt 7) = [7, 1]" by (simp add: lp_entry_def lpEncodeIntegerGetType_def lpEncodeBacklen_def)
  then have t: "lp_total [LInt 5, LInt 7] < 2 ^ 32" "lp_off [LInt 5, LInt 7] 1 = 8" "lp_off ?es 1 = 8"
    by (simp_all add: lp_total_def lp_off_def lp_example_entries)
  have "1 < length ?es" by simp
  from lpReplace_lpDelete_refine [OF lp_exact_ok lp_example_rep this ok] t e ok
  show ?thesis by simp
qed

end
