(* ===== verification/Listpack_Ops.thy ===== *)
theory Listpack_Ops
  imports Listpack_Rep
begin

text \<open>
  The operations on a whole listpack and on several entries (creation, shrinking, duplication, ranges,
  batches, merging) and the search, related to the list of elements.
\<close>

section \<open>Whole-listpack operations\<close>

lemma lpNew_rep:
  assumes A: "lp_allocator_ok A"
  shows "\<exists>lp. lpNew A capacity = Some lp \<and> lp_rep lp []"
proof -
  define m where "m = la_usable A (if capacity > LP_HDR_SIZE + 1 then capacity else LP_HDR_SIZE + 1)"
  define lp0 where "lp0 = lp_realloc A (if capacity > LP_HDR_SIZE + 1 then capacity else LP_HDR_SIZE + 1) []"
  have "(if capacity > LP_HDR_SIZE + 1 then capacity else LP_HDR_SIZE + 1) \<le> m"
    using A unfolding m_def lp_allocator_ok_def by blast
  then have "7 \<le> m" by (auto simp: LP_HDR_SIZE_def split: if_splits)
  then have l: "7 \<le> length lp0" by (simp add: lp0_def lp_realloc_def m_def)
  let ?r = "drop 6 lp0"
  obtain b r where r: "?r = b # r" using l by (cases ?r) auto
  have a: "lpSetTotalBytes lp0 7 = Some (le_bytes 4 7 @ drop 4 lp0)"
    using l by (simp add: lpSetTotalBytes_def mem_write_def)
  have "lpSetNumElements (le_bytes 4 7 @ drop 4 lp0) 0 = Some (lp_header 7 0 @ b # r)"
    using l r by (simp add: lpSetNumElements_def mem_write_def lp_header_def)
  moreover have "mem_write (lp_header 7 0 @ b # r) 6 [LP_EOF] = Some (lp_header 7 0 @ LP_EOF # r)"
    by (simp add: mem_write_def)
  ultimately have "lpNew A capacity = Some (lp_header 7 0 @ LP_EOF # r)"
    using a unfolding lpNew_def lp0_def [symmetric] by (simp add: LP_HDR_SIZE_def)
  moreover have "lp_rep (lp_header 7 0 @ LP_EOF # r) []"
    by (rule lp_repI [of _ _ 0]) (simp_all add: lp_total_def)
  ultimately show ?thesis by blast
qed

text \<open>The first \<open>lp_total\<close> bytes determine the listpack.\<close>

lemma lp_rep_prefix:
  assumes "lp_rep lp es"
  shows "\<exists>P slack. lp = P @ slack \<and> length P = lp_total es \<and> (\<forall>S. lp_rep (P @ S) es)"
  using assms
proof (elim lp_repE)
  fix num slack assume *: "lp = lp_header (lp_total es) num @ lp_entries es @ LP_EOF # slack"
    "num = length es \<and> num < 65535 \<or> num = 65535" "lp_total es < 2 ^ 32" "list_all lpele_ok es"
  have "lp_rep ((lp_header (lp_total es) num @ lp_entries es @ [LP_EOF]) @ S) es" for S
    using * by (intro lp_repI) auto
  then show ?thesis using *(1)
    by (intro exI [of _ "lp_header (lp_total es) num @ lp_entries es @ [LP_EOF]"] exI [of _ slack])
      (auto simp: lp_total_def)
qed

lemma lpShrinkToFit_rep:
  assumes A: "lp_allocator_ok A" and rep: "lp_rep lp es"
  shows "\<exists>lp'. lpShrinkToFit A lp = Some lp' \<and> lp_rep lp' es"
proof -
  obtain P slack where P: "lp = P @ slack" "length P = lp_total es" "\<And>S. lp_rep (P @ S) es"
    using lp_rep_prefix [OF rep] by blast
  obtain J where "lp_realloc A (lp_total es) lp = P @ J"
    using lp_realloc_prefix [OF A P(2), of slack] P(1) by blast
  then show ?thesis using P(3) [of J] rep lp_rep_total [OF rep] by (simp add: lpShrinkToFit_def)
qed

lemma lpDup_rep:
  assumes A: "lp_allocator_ok A" and rep: "lp_rep lp es"
  shows "\<exists>lp'. lpDup A lp = Some lp' \<and> lp_rep lp' es"
proof -
  obtain P slack where P: "lp = P @ slack" "length P = lp_total es" "\<And>S. lp_rep (P @ S) es"
    using lp_rep_prefix [OF rep] by blast
  define n where "n = la_usable A (lp_total es)"
  have n: "lp_total es \<le> n" using A by (simp add: lp_allocator_ok_def n_def)
  have "length (lp_realloc A (lp_total es) []) = n" by (simp add: lp_realloc_def n_def)
  then have "mem_write (lp_realloc A (lp_total es) []) 0 P = Some (P @ drop (lp_total es) (lp_realloc A (lp_total es) []))"
    using P(2) n by (simp add: mem_write_def)
  then show ?thesis using P lp_rep_total [OF rep] by (simp add: lpDup_def lpBytes_def mem_read_def)
qed

lemma lpDeleteRange_tail_rep:
  assumes rep: "lp_rep lp es"
  shows "i < length es \<Longrightarrow> 0 < num \<Longrightarrow> lpDeleteRange_tail lp (lp_total es) num (lp_off es i) d =
    Some (lp_off es (min (i + num) (length es)), d + (min (i + num) (length es) - i))"
proof (induction num arbitrary: i d)
  case (Suc num)
  have i: "i < length es" by fact
  obtain b where b: "rd lp (lp_off es (Suc i)) = Some b" "b = LP_EOF \<longleftrightarrow> Suc i = length es"
    using lp_rep_rd [OF rep, of "Suc i"] i by auto
  have step: "lpDeleteRange_tail lp (lp_total es) (Suc num) (lp_off es i) d =
     (if Suc i = length es then Some (lp_off es (Suc i), d + 1)
      else lpDeleteRange_tail lp (lp_total es) num (lp_off es (Suc i)) (d + 1))"
    using lpSkip_rep [OF rep i] b lpAssertValidEntry_ok [OF rep, of "Suc i"] i
    by (auto simp: lp_off_Suc [OF i, symmetric])
  show ?case
  proof (cases "Suc i = length es \<or> num = 0")
    case True
    then show ?thesis using step i by auto
  next
    case False
    then have "lpDeleteRange_tail lp (lp_total es) num (lp_off es (Suc i)) (d + 1) =
        Some (lp_off es (min (Suc i + num) (length es)), d + 1 + (min (Suc i + num) (length es) - Suc i))"
      using i by (intro Suc.IH) auto
    moreover have "d + 1 + (min (Suc i + num) (length es) - Suc i) = d + (min (i + Suc num) (length es) - i)"
      using i False by auto
    ultimately show ?thesis using step False by simp
  qed
qed simp

lemma rep_lp_ptr:
  assumes rep: "lp_rep lp es" and i: "i \<le> length es"
  shows "\<exists>b. rd lp (lp_off es i) = Some b \<and> (if b = LP_EOF then None else Some (lp_off es i)) = lp_ptr es i"
  using lp_rep_rd [OF rep i] i by (auto simp: lp_ptr_def)

lemma lp_entries_parts:
  assumes "i \<le> j" "j \<le> length es"
  shows "\<exists>R. lp_entries es = lp_entries (take i es) @ R @ lp_entries (drop j es) \<and> length R = lp_off es j - lp_off es i"
proof -
  have split: "es = take i es @ take (j - i) (drop i es) @ drop j es"
    using assms by (metis append_take_drop_id drop_drop le_add_diff_inverse2)
  have tj: "take j es = take i es @ take (j - i) (drop i es)"
    using assms by (metis le_add_diff_inverse take_add)
  show ?thesis using arg_cong [OF split, of lp_entries]
    by (intro exI [of _ "lp_entries (take (j - i) (drop i es))"]) (simp add: lp_off_def tj)
qed

lemma lpDeleteRangeWithEntry_rep:
  assumes A: "lp_allocator_ok A" and rep: "lp_rep lp es" and i: "i < length es" and num: "0 < num"
  defines "es' \<equiv> take i es @ drop (i + num) es"
  shows "\<exists>lp'. lpDeleteRangeWithEntry A lp (lp_off es i) num = Some (lp', lp_ptr es' i) \<and> lp_rep lp' es'"
proof -
  define j where "j = min (i + num) (length es)"
  have j: "i \<le> j" "j \<le> length es" "i < j" and es': "es' = take i es @ drop j es"
    using i num by (auto simp: j_def es'_def min_def)
  obtain n slack where lp: "lp = lp_header (lp_total es) n @ lp_entries es @ LP_EOF # slack"
    and n: "n = length es \<and> n < 65535 \<or> n = 65535"
    and t: "lp_total es < 2 ^ 32" "list_all lpele_ok es" using rep by (rule lp_repE)
  obtain R where R: "lp_entries es = lp_entries (take i es) @ R @ lp_entries (drop j es)"
    "length R = lp_off es j - lp_off es i" using lp_entries_parts [OF j(1,2)] by blast
  define P where "P = lp_header (lp_total es) n @ lp_entries (take i es)"
  define Q where "Q = lp_entries (drop j es) @ [LP_EOF]"
  have le: "lp_off es i \<le> lp_off es j" using lp_off_mono [OF j(1,2)] .
  have P: "length P = lp_off es i" "length P + length R = lp_off es j" using R(2) le by (simp_all add: P_def lp_off_def)
  have "lp_total es = length P + length R + length Q" "lp_total es' = length P + length Q"
    using R by (simp_all add: lp_total_def es' Q_def P_def)
  then have tot: "lp_total es - (lp_off es j - lp_off es i) = lp_total es'"
    "lp_off es j + length Q = lp_total es"
    using P R(2) le by linarith+
  then have sz: "size_sub (lp_total es) (lp_off es j) = Some (length Q)" by (simp add: size_sub_def)
  obtain Y where Y: "mem_move (P @ R @ Q @ slack) (lp_off es i) (lp_off es j) (length Q) = Some (P @ Q @ Y @ slack)"
  proof -
    have "mem_move (P @ R @ Q @ slack) (lp_off es i) (lp_off es j) (length Q) = Some (P @ Q @ drop (length Q) (R @ Q) @ slack)"
      unfolding P(1) [symmetric] P(2) [symmetric] by (simp add: mem_move_def mem_read_def mem_write_def)
    then show ?thesis using that by blast
  qed
  have lpPQ: "lp = P @ R @ Q @ slack" using R by (simp add: lp P_def Q_def)
  have PQ: "P @ Q @ Y @ slack = lp_header (lp_total es) n @ lp_entries es' @ LP_EOF # (Y @ slack)"
    by (simp add: P_def Q_def es')
  have t': "lp_total es' < 2 ^ 32" using tot(1) t by linarith
  have len: "length es' = length es - (j - i)" "length es' \<le> length es + 1" "int (length es') - int (length es) = - int (j - i)"
    using j by (auto simp: es')
  obtain n' where n': "n' = length es' \<and> n' < 65535 \<or> n' = 65535" and
    c: "lp_count (- int (j - i)) (lp_header (lp_total es') n @ lp_entries es' @ LP_EOF # (Y @ slack)) =
       Some (lp_header (lp_total es') n' @ lp_entries es' @ LP_EOF # (Y @ slack))"
    using lp_count_step [OF n len(3) [symmetric] len(2) t'] by blast
  have rep': "lp_rep (lp_header (lp_total es') n' @ lp_entries es' @ LP_EOF # (Y @ slack)) es'"
    using n' t' t(2) by (intro lp_repI) (auto simp: es' list_all_iff dest: in_set_takeD in_set_dropD)
  obtain lp' where lp': "lpShrinkToFit A (lp_header (lp_total es') n' @ lp_entries es' @ LP_EOF # (Y @ slack)) = Some lp'" "lp_rep lp' es'"
    using lpShrinkToFit_rep [OF A rep'] by blast
  have off: "lp_off es' i = lp_off es i" and il: "i \<le> length es'" using i by (simp_all add: lp_off_def es')
  obtain b where b: "rd lp' (lp_off es i) = Some b" "(if b = LP_EOF then None else Some (lp_off es i)) = lp_ptr es' i"
    using rep_lp_ptr [OF lp'(2) il] unfolding off by blast
  have tail: "lpDeleteRange_tail lp (lp_total es) num (lp_off es i) 0 = Some (lp_off es j, j - i)"
    using lpDeleteRange_tail_rep [OF rep i num, of 0] by (simp add: j_def)
  have "lpGetNumElements (lp_header (lp_total es') n @ lp_entries es' @ LP_EOF # (Y @ slack)) = Some n"
    using n t' by (intro lp_header_get) auto
  then have "lpDeleteRangeWithEntry A lp (lp_off es i) num = Some (lp', lp_ptr es' i)"
    using num tail tot(1) sz Y c lp' b lp_rep_total [OF rep]
    by (simp add: lpDeleteRangeWithEntry_def lpBytes_def lpPQ [symmetric] PQ lp_header_set(1) lp_count_def cong: if_cong)
  then show ?thesis using lp'(2) by blast
qed

lemma lpDeleteRange_rep:
  assumes A: "lp_allocator_ok A" and rep: "lp_rep lp es"
  shows "\<exists>lp'. lpDeleteRange A lp index num = Some lp' \<and>
    lp_rep lp' (case seek_index es index of None \<Rightarrow> es | Some i \<Rightarrow> take i es @ drop (i + num) es)"
proof (cases "num = 0 \<or> seek_index es index = None")
  case True
  then show ?thesis using lpSeek_rep [OF rep, of index] rep lp_rep_num [OF rep]
    by (auto simp: lpDeleteRange_def split: option.splits)
next
  case False
  then obtain i where si: "seek_index es index = Some i" and num: "0 < num" by auto
  define k where "k = (if index < 0 then int (length es) + index else index)"
  have i: "i < length es" "k = int i" using si by (auto simp: seek_index_def Let_def k_def split: if_splits)
  let ?es' = "take i es @ drop (i + num) es"
  obtain n slack where lp: "lp = lp_header (lp_total es) n @ lp_entries es @ LP_EOF # slack"
    and n: "n = length es \<and> n < 65535 \<or> n = 65535"
    and t: "lp_total es < 2 ^ 32" "list_all lpele_ok es" using rep by (rule lp_repE)
  have g: "lpGetNumElements lp = Some n" using n t unfolding lp by (intro lp_header_get) auto
  have seek: "lpSeek lp index = Some (Some (lp_off es i))" using lpSeek_rep [OF rep, of index] si by simp
  show ?thesis
  proof (cases "n \<noteq> 65535 \<and> length es - i \<le> num")
    case True
    then have nl: "n = length es" "n < 65535" using n by auto
    have sub: "(int n - k) mod 2 ^ 64 = int (length es - i)" 
    proof -
      have "int n - k = int (length es - i)" using nl i by simp
      moreover have "int (length es - i) < 2 ^ 64" using nl i(1) by (simp add: of_nat_diff)
      ultimately show ?thesis by simp
    qed
    have "length es \<le> i + num" using True by linarith
    then have es': "?es' = take i es" by simp
    obtain b r where br: "lp_entries (drop i es) @ LP_EOF # slack = b # r" by (cases "lp_entries (drop i es)") auto
    have tt: "lp_off es i + 1 = lp_total (take i es)" by (simp add: lp_off_def lp_total_def)
    have "mem_write lp (lp_off es i) [LP_EOF] = Some ((lp_header (lp_total es) n @ lp_entries (take i es)) @ [LP_EOF] @ r)"
      using mem_write_mid [of "[b]" "[LP_EOF]" "lp_header (lp_total es) n @ lp_entries (take i es)" r]
        lp_entries_split [of i es] i br by (simp add: lp lp_off_def)
    then have w: "mem_write lp (lp_off es i) [LP_EOF] = Some (lp_header (lp_total es) n @ lp_entries (take i es) @ LP_EOF # r)"
      by simp
    have s: "lpSetNumElements (lp_header (lp_total (take i es)) n @ lp_entries (take i es) @ LP_EOF # r) k =
        Some (lp_header (lp_total (take i es)) i @ lp_entries (take i es) @ LP_EOF # r)"
      using lp_header_set(2) [of "lp_total (take i es)" n _ "int i"] i nl by simp
    have tle: "lp_total (take i es) < 2 ^ 32"
      using lp_off_bounds [of i es] tt t i by simp
    have rep': "lp_rep (lp_header (lp_total (take i es)) i @ lp_entries (take i es) @ LP_EOF # r) (take i es)"
      using i nl tle t(2) by (intro lp_repI) (auto simp: list_all_iff dest: in_set_takeD)
    obtain lp' where lp': "lpShrinkToFit A (lp_header (lp_total (take i es)) i @ lp_entries (take i es) @ LP_EOF # r) = Some lp'"
      "lp_rep lp' (take i es)" using lpShrinkToFit_rep [OF A rep'] by blast
    have "0 \<le> k" using i(2) by simp
    have kk: "n \<noteq> LP_HDR_NUMELE_UNKNOWN" "index < 0 \<Longrightarrow> int n + index = k" "\<not> index < 0 \<Longrightarrow> index = k"
      using nl by (simp_all add: k_def LP_HDR_NUMELE_UNKNOWN_def)
    have "lpDeleteRange A lp index num = Some lp'"
      using num g seek w s lp'(1) sub True tt \<open>0 \<le> k\<close> unfolding lpDeleteRange_def
      by (cases "index < 0") (simp_all add: kk lp_header_set(1))
    then show ?thesis using lp'(2) si es' by simp
  next
    case False
    then have no: "\<not> (n \<noteq> LP_HDR_NUMELE_UNKNOWN \<and> (int n - (if n \<noteq> LP_HDR_NUMELE_UNKNOWN \<and> index < 0 then int n + index else index)) mod 2 ^ 64 \<le> int num)"
    proof (cases "n = 65535")
      case f: False
      then have "n = length es" using n by auto
      then have "int n - (if n \<noteq> LP_HDR_NUMELE_UNKNOWN \<and> index < 0 then int n + index else index) = int (length es - i)"
        using f i by (simp add: LP_HDR_NUMELE_UNKNOWN_def k_def split: if_splits)
      moreover have "int (length es - i) < 2 ^ 64" using f n i(1) by (auto simp: of_nat_diff)
      moreover have "\<not> int (length es) - int i \<le> int num" using False f i(1) by linarith
      ultimately show ?thesis by simp
    qed (simp add: LP_HDR_NUMELE_UNKNOWN_def)
    then show ?thesis using num g seek lpDeleteRangeWithEntry_rep [OF A rep i(1) num] si
      by (auto simp: lpDeleteRange_def Let_def)
  qed
qed

lemma lpBatchInsert_len_eq:
  "lpBatchInsert_len ents k = k + length (lp_entries (map lpe_ele ents))"
  by (induction ents arbitrary: k) (simp_all add: snd_lp_encoding lp_entry_def Let_def)

lemma lpBatchInsert_store_eq:
  "ents \<noteq> [] \<Longrightarrow> length X = length (lp_entries (map lpe_ele ents)) \<Longrightarrow>
   lpBatchInsert_store (P @ X @ Q) ents (length P) newp =
     Some (P @ lp_entries (map lpe_ele ents) @ Q,
       Some (length P + length (lp_entries (map lpe_ele (butlast ents)))))"
proof (induction ents arbitrary: P X newp)
  case (Cons e ents)
  obtain X1 X2 where X: "X = X1 @ X2" "length X1 = length (lp_entry (lpe_ele e))" "length X2 = length (lp_entries (map lpe_ele ents))"
    using Cons.prems that [of "take (length (lp_entry (lpe_ele e))) X" "drop (length (lp_entry (lpe_ele e))) X"] by simp
  have s: "lp_store (P @ X @ Q) (length P) (lpe_arg e) = Some ((P @ lp_entry (lpe_ele e)) @ X2 @ Q)"
    using lp_store_eq [OF X(2), of P "X2 @ Q"] X by simp
  have "lpBatchInsert_store (P @ X @ Q) (e # ents) (length P) newp =
      lpBatchInsert_store ((P @ lp_entry (lpe_ele e)) @ X2 @ Q) ents (length (P @ lp_entry (lpe_ele e))) (Some (length P))"
    using s by (simp add: snd_lp_encoding Let_def lp_entry_def add.assoc)
  then show ?case using Cons.IH [of X2 "P @ lp_entry (lpe_ele e)" "Some (length P)"] X
    by (cases "ents = []") simp_all
qed simp

lemma lpBatchInsert_before:
  assumes A: "lp_allocator_ok A" and rep: "lp_rep lp es" and i: "i \<le> length es" and e: "list_all lpe_ok ents" "ents \<noteq> []"
  defines "es' \<equiv> take i es @ map lpe_ele ents @ drop i es"
  shows "if lp_total es' < 2 ^ 32
     then \<exists>lp'. lpBatchInsert A lp (lp_off es i) LP_BEFORE ents = Some (Some (lp', Some (lp_off es' (i + length ents - 1)))) \<and> lp_rep lp' es'
     else lpBatchInsert A lp (lp_off es i) LP_BEFORE ents = Some None"
proof -
  define N where "N = length (lp_entries (map lpe_ele ents))"
  obtain n slack where lp: "lp = lp_header (lp_total es) n @ lp_entries es @ LP_EOF # slack"
    and n: "n = length es \<and> n < 65535 \<or> n = 65535"
    and t: "lp_total es < 2 ^ 32" "list_all lpele_ok es" using rep by (rule lp_repE)
  define P where "P = lp_header (lp_total es) n @ lp_entries (take i es)"
  define Q where "Q = lp_entries (drop i es) @ [LP_EOF]"
  define new where "new = lp_total es'"
  have lens: "lp_total es = length P + length ([] :: bytes) + length Q" "new = length P + N + length Q"
    "length P = lp_off es i"
    using take_drop_entries [OF i] by (simp_all add: P_def Q_def lp_total_def lp_off_def new_def es'_def N_def)
  have lpPQ: "lp = P @ [] @ Q @ slack" using lp_entries_split [OF i] by (simp add: lp P_def Q_def)
  have new: "lp_total es + N = new" using lens by simp
  have sz: "size_sub (lp_total es) (lp_off es i) = Some (length Q)" using lens by (simp add: size_sub_def)
  note T = lp_rep_total [OF rep]
  show ?thesis
  proof (cases "new < 2 ^ 32")
    case False
    then show ?thesis using T new e unfolding new_def [symmetric]
      by (simp add: lpBatchInsert_def c_assert_def lpBatchInsert_len_eq N_def [symmetric] LP_UINT32_MAX_def)
  next
    case True
    obtain lp1 X S where m: "mem_move (if new > lp_total es \<and> new > length lp then lp_realloc A new lp else lp)
       (lp_off es i + N) (lp_off es i) (length Q) = Some lp1"
      and l2: "(if new < lp_total es then lp_realloc A new lp1 else lp1) = P @ X @ Q @ S" and X: "length X = N"
      using lp_replace_gap [OF A lens(2) lens(1) lpPQ] lens(3) by auto
    have lp1: "lp1 = P @ X @ Q @ S" using l2 new by simp
    define newp where "newp = lp_off es' (i + length ents - 1)"
    have np: "length P + length (lp_entries (map lpe_ele (butlast ents))) = newp"
    proof -
      have "i + length ents - 1 = i + (length ents - 1)" using e(2) by (cases ents) auto
      then have "take (i + length ents - 1) es' = take i es @ map lpe_ele (butlast ents)"
        using i by (simp add: es'_def butlast_conv_take take_map min_absorb2)
      then show ?thesis using lens(3) by (simp add: newp_def lp_off_def)
    qed
    have st: "lpBatchInsert_store lp1 ents (lp_off es i) None = Some (P @ lp_entries (map lpe_ele ents) @ Q @ S, Some newp)"
      using lpBatchInsert_store_eq [OF e(2), of X P "Q @ S" None] X lens(3) np by (simp add: lp1 N_def)
    have PQ: "P @ lp_entries (map lpe_ele ents) @ Q @ S = lp_header (lp_total es) n @ lp_entries es' @ LP_EOF # S"
      by (simp add: P_def Q_def es'_def)
    let ?r = "lp_entries es' @ LP_EOF # S"
    have len: "length es' = length es + length ents" using i by (simp add: es'_def)
    have gn: "lpGetNumElements (lp_header (lp_total es) n @ ?r) = Some n" using n t by (intro lp_header_get) auto
    obtain n' where n': "n' = length es' \<and> n' < 65535 \<or> n' = 65535" and
      c: "(if n \<noteq> LP_HDR_NUMELE_UNKNOWN then
             (if int (length ents) > int LP_HDR_NUMELE_UNKNOWN - int n
              then lpSetNumElements (lp_header (lp_total es) n @ ?r) (int LP_HDR_NUMELE_UNKNOWN)
              else lpSetNumElements (lp_header (lp_total es) n @ ?r) (int n + int (length ents)))
           else Some (lp_header (lp_total es) n @ ?r)) = Some (lp_header (lp_total es) n' @ ?r)"
    proof (cases "n = 65535 \<or> int (length ents) > 65535 - int n")
      case True
      then show ?thesis using that [of 65535] by (auto simp: LP_HDR_NUMELE_UNKNOWN_def lp_header_set)
    next
      case False
      then have "n = length es" "n + length ents < 65535 \<or> n + length ents = 65535" using n by auto
      then show ?thesis using that [of "length es'"] False len
        by (auto simp: LP_HDR_NUMELE_UNKNOWN_def lp_header_set nat_int_add simp flip: of_nat_add)
    qed
    have "lpBatchInsert A lp (lp_off es i) LP_BEFORE ents = Some (Some (lp_header new n' @ ?r, Some newp))"
      using T e m st sz True new gn c
      by (simp add: lpBatchInsert_def c_assert_def lpBatchInsert_len_eq N_def [symmetric] LP_UINT32_MAX_def PQ lp_header_set)
    moreover have "lp_rep (lp_header new n' @ ?r) es'"
      using n' True t(2) e(1) lpe_ele_ok
      by (intro lp_repI) (auto simp: new_def es'_def list_all_iff dest: in_set_takeD in_set_dropD)
    ultimately show ?thesis using True unfolding new_def [symmetric] newp_def by auto
  qed
qed

lemma lp_realloc_keep:
  assumes A: "lp_allocator_ok A" and "length P \<le> n"
  shows "\<exists>J. lp_realloc A n (P @ s) = P @ J \<and> n \<le> length P + length J"
proof -
  have le: "n \<le> la_usable A n" using A by (simp add: lp_allocator_ok_def)
  let ?r = "mem_resize (la_fill A) (la_usable A n) (P @ s)"
  have "?r = P @ drop (length P) ?r" using assms(2) le by (simp add: mem_resize_def)
  moreover have "length ?r = la_usable A n" by simp
  ultimately show ?thesis using le assms(2) unfolding lp_realloc_def
    by (intro exI [of _ "drop (length P) ?r"]) simp
qed

lemma lp_rep_body:
  assumes "lp_rep lp es"
  shows "\<exists>H slack. lp = H @ lp_entries es @ LP_EOF # slack \<and> length H = 6"
  using assms by (elim lp_repE) (auto intro: length_lp_header)

lemma lp_header_of:
  assumes "length H = 6" shows "\<exists>t n. H = lp_header t n \<and> n < 65536"
proof -
  have "le_bytes 4 (le_uint (take 4 H)) = take 4 H" "le_bytes 2 (le_uint (drop 4 H)) = drop 4 H"
    using assms by (simp_all add: le_bytes_le_uint)
  moreover have "le_uint (drop 4 H) < 65536" using le_uint_bounds [of "drop 4 H"] assms by simp
  ultimately have "H = lp_header (nat (le_uint (take 4 H))) (nat (le_uint (drop 4 H)))" "nat (le_uint (drop 4 H)) < 65536"
    by (simp_all add: lp_header_def)
  then show ?thesis by blast
qed

lemma lpMerge_rep:
  assumes A: "lp_allocator_ok A" and rep1: "lp_rep lp1 es1" and rep2: "lp_rep lp2 es2"
    and small: "lp_total (es1 @ es2) < LP_UINT32_MAX"
  shows "\<exists>lp'. lpMerge A (Some lp1) (Some lp2) False = Some (Some (lp', lp_total es1 \<ge> lp_total es2)) \<and>
    lp_rep lp' (es1 @ es2)"
proof -
  obtain l1 where l1: "lpLength lp1 = Some (length es1, l1)" "lp_rep l1 es1" using lpLength_rep [OF rep1] by blast
  obtain l2 where l2: "lpLength lp2 = Some (length es2, l2)" "lp_rep l2 es2" using lpLength_rep [OF rep2] by blast
  obtain H1 s1 where b1: "l1 = H1 @ lp_entries es1 @ LP_EOF # s1" "length H1 = 6" using lp_rep_body [OF l1(2)] by blast
  obtain H2 s2 where b2: "l2 = H2 @ lp_entries es2 @ LP_EOF # s2" "length H2 = 6" using lp_rep_body [OF l2(2)] by blast
  define n where "n = lp_total (es1 @ es2)"
  have sz: "size_sub (lp_total es1 + lp_total es2) (LP_HDR_SIZE + 1) = Some n" "\<not> LP_UINT32_MAX \<le> n"
    using small by (simp_all add: size_sub_def LP_HDR_SIZE_def n_def lp_total_def)
  define num where "num = (if length es1 + length es2 < 65535 then length es1 + length es2 else 65535)"
  have "\<exists>H S. length H = 6 \<and>
    (if lp_total es1 \<ge> lp_total es2 then do {
                 len \<leftarrow> size_sub (lp_total es2) LP_HDR_SIZE;
                 xs \<leftarrow> mem_read l2 LP_HDR_SIZE len;
                 dst \<leftarrow> size_sub (lp_total es1) 1;
                 mem_write (lp_realloc A n l1) dst xs
               }
               else do {
                 len \<leftarrow> size_sub (lp_total es2) LP_HDR_SIZE;
                 dst \<leftarrow> size_sub (lp_total es1) 1;
                 target \<leftarrow> mem_move (lp_realloc A n l2) dst LP_HDR_SIZE len;
                 xs \<leftarrow> mem_read l1 0 dst;
                 mem_write target 0 xs
               }) = Some (H @ lp_entries (es1 @ es2) @ LP_EOF # S)"
  proof (cases "lp_total es1 \<ge> lp_total es2")
    case True
    obtain J where J: "lp_realloc A n ((H1 @ lp_entries es1) @ LP_EOF # s1) = (H1 @ lp_entries es1) @ J"
      "n \<le> length (H1 @ lp_entries es1) + length J"
      using lp_realloc_keep [OF A, of "H1 @ lp_entries es1" n "LP_EOF # s1"] b1 by (auto simp: n_def lp_total_def)
    have r: "mem_read l2 6 (lp_total es2 - 6) = Some (lp_entries es2 @ [LP_EOF])"
      using b2 by (simp add: mem_read_def lp_total_def)
    have "mem_write ((H1 @ lp_entries es1) @ J) (lp_total es1 - 1) (lp_entries es2 @ [LP_EOF]) =
        Some (H1 @ lp_entries es1 @ (lp_entries es2 @ [LP_EOF]) @ drop (Suc (length (lp_entries es2))) J)"
      using J(2) b1(2) by (simp add: mem_write_def lp_total_def n_def)
    then have "mem_write (lp_realloc A n l1) (lp_total es1 - 1) (lp_entries es2 @ [LP_EOF]) =
        Some (H1 @ lp_entries (es1 @ es2) @ LP_EOF # drop (Suc (length (lp_entries es2))) J)"
      using J(1) b1(1) by simp
    then show ?thesis using True r b1(2)
      by (intro exI [of _ H1] exI [of _ "drop (Suc (length (lp_entries es2))) J"])
        (simp add: size_sub_def LP_HDR_SIZE_def lp_total_def)
  next
    case False
    obtain J where J: "lp_realloc A n ((H2 @ lp_entries es2 @ [LP_EOF]) @ s2) = (H2 @ lp_entries es2 @ [LP_EOF]) @ J"
      "n \<le> length (H2 @ lp_entries es2 @ [LP_EOF]) + length J"
      using lp_realloc_keep [OF A, of "H2 @ lp_entries es2 @ [LP_EOF]" n s2] b2 by (auto simp: n_def lp_total_def)
    let ?K = "lp_entries es2 @ [LP_EOF]" and ?T = "H2 @ lp_entries es2 @ LP_EOF # J"
    define X where "X = take (lp_total es1 - 1) ?T"
    define S where "S = drop n ?T"
    have X: "length X = lp_total es1 - 1" using J(2) b2(2) by (simp add: X_def n_def lp_total_def)
    have "mem_move ?T (lp_total es1 - 1) 6 (lp_total es2 - 6) = Some (X @ ?K @ S)"
      using J(2) b2(2) by (simp add: mem_move_def mem_read_def mem_write_def X_def S_def n_def lp_total_def ac_simps)
    moreover have "lp_realloc A n l2 = ?T" using J(1) b2(1) by simp
    moreover have "mem_read l1 0 (lp_total es1 - 1) = Some (H1 @ lp_entries es1)"
      using b1 by (simp add: mem_read_def lp_total_def)
    moreover have "mem_write (X @ ?K @ S) 0 (H1 @ lp_entries es1) = Some (H1 @ lp_entries (es1 @ es2) @ LP_EOF # S)"
      using X b1(2) by (simp add: mem_write_def lp_total_def)
    ultimately show ?thesis using False b1(2)
      by (intro exI [of _ H1] exI [of _ S]) (simp add: size_sub_def LP_HDR_SIZE_def lp_total_def)
  qed
  then obtain H S where H: "length H = 6" and W: "(if lp_total es1 \<ge> lp_total es2 then do {
                 len \<leftarrow> size_sub (lp_total es2) LP_HDR_SIZE;
                 xs \<leftarrow> mem_read l2 LP_HDR_SIZE len;
                 dst \<leftarrow> size_sub (lp_total es1) 1;
                 mem_write (lp_realloc A n l1) dst xs
               }
               else do {
                 len \<leftarrow> size_sub (lp_total es2) LP_HDR_SIZE;
                 dst \<leftarrow> size_sub (lp_total es1) 1;
                 target \<leftarrow> mem_move (lp_realloc A n l2) dst LP_HDR_SIZE len;
                 xs \<leftarrow> mem_read l1 0 dst;
                 mem_write target 0 xs
               }) = Some (H @ lp_entries (es1 @ es2) @ LP_EOF # S)" by blast
  obtain t k where "H = lp_header t k" using lp_header_of [OF H] by blast
  moreover have "nat (int num mod 65536) = num" by (simp add: num_def)
  ultimately have "lpSetNumElements (H @ lp_entries (es1 @ es2) @ LP_EOF # S) (int num) =
      Some (lp_header t num @ lp_entries (es1 @ es2) @ LP_EOF # S)" by (simp add: lp_header_set)
  then have "lpMerge A (Some lp1) (Some lp2) False =
      Some (Some (lp_header n num @ lp_entries (es1 @ es2) @ LP_EOF # S, lp_total es1 \<ge> lp_total es2))"
    using l1(1) l2(1) lp_rep_total [OF rep1] lp_rep_total [OF rep2] sz W
    by (auto simp: lpMerge_def lpBytes_def c_assert_def num_def [symmetric] lp_header_set(1) Let_def bind_eq_Some_conv
        split: if_splits)
  moreover have "lp_rep (lp_header n num @ lp_entries (es1 @ es2) @ LP_EOF # S) (es1 @ es2)"
    using small rep1 rep2 by (intro lp_repI [of _ _ num S]) (auto simp: n_def num_def LP_UINT32_MAX_def lp_rep_def)
  ultimately show ?thesis by blast
qed

text \<open>The elements from \<open>j\<close> on whose index is not listed.\<close>

definition lp_keep :: "lpele list \<Rightarrow> nat \<Rightarrow> nat list \<Rightarrow> lpele list" where
  "lp_keep es j is = map (nth es) (filter (\<lambda>k. k \<notin> set is) [j..<length es])"

lemma map_nth_upt: "i \<le> j \<Longrightarrow> j \<le> length es \<Longrightarrow> map (nth es) [i..<j] = take (j - i) (drop i es)"
  by (rule nth_equalityI) auto

lemma lp_keep_step:
  assumes "i < length es" "\<forall>k \<in> set is. i < k"
  shows "lp_keep es i (i # is) = lp_keep es (Suc i) is"
proof -
  have "[i..<length es] = i # [Suc i..<length es]" using assms(1) by (rule upt_conv_Cons)
  moreover have "filter (\<lambda>k. k \<noteq> i \<and> k \<notin> set is) [Suc i..<length es] = filter (\<lambda>k. k \<notin> set is) [Suc i..<length es]"
    by (rule filter_cong) auto
  ultimately show ?thesis by (simp add: lp_keep_def)
qed

lemma lp_keep_upto:
  assumes "j \<le> i" "i \<le> length es" "\<forall>k \<in> set is. i \<le> k"
  shows "lp_keep es j is = take (i - j) (drop j es) @ lp_keep es i is"
proof -
  have "[j..<length es] = [j..<i] @ [i..<length es]" using assms by (metis le_Suc_ex upt_add_eq_append)
  moreover have "filter (\<lambda>k. k \<notin> set is) [j..<i] = [j..<i]" using assms(3) by (auto simp: filter_id_conv)
  ultimately show ?thesis using assms map_nth_upt [of j i es] by (simp add: lp_keep_def)
qed

lemma lp_keep_nil: "j \<le> length es \<Longrightarrow> lp_keep es j [] = drop j es"
  using map_nth_upt [of j "length es" es] by (simp add: lp_keep_def)

lemma mem_move_down_tail:
  "mem_move (P @ M @ K @ S) (length P) (length P + length M) (length K) = Some (P @ K @ drop (length K) (M @ K) @ S)"
  by (simp add: mem_move_def mem_read_def mem_write_def)

lemma lpBatchDelete_loop_rep:
  assumes ok: "list_all lpele_ok es"
  shows "sorted_wrt (<) is \<Longrightarrow> is \<noteq> [] \<Longrightarrow> \<forall>i \<in> set is. i < length es \<Longrightarrow>
     length P + length M = lp_off es (hd is) \<Longrightarrow>
     \<exists>S. lpBatchDelete_loop (P @ M @ lp_entries (drop (hd is) es) @ LP_EOF # slack) (lp_total es) (map (lp_off es) is) (length P) =
       Some (P @ lp_entries (lp_keep es (hd is) is) @ LP_EOF # S, length P + length (lp_entries (lp_keep es (hd is) is)) + 1)"
proof (induction "is" arbitrary: P M)
  case (Cons i "is")
  let ?lp = "P @ M @ lp_entries (drop i es) @ LP_EOF # slack"
  have i: "i < length es" and gt: "\<forall>k \<in> set is. i < k" using Cons.prems by auto
  have D: "drop i es = es ! i # drop (Suc i) es" using i by (rule Cons_nth_drop_Suc [symmetric])
  have oki: "lpele_ok (es ! i)" using ok i by (simp add: list_all_length)
  have off: "lp_off es i = length (P @ M)" using Cons.prems by simp
  let ?E = "lp_entry (es ! i)" and ?rest = "lp_entries (drop (Suc i) es) @ LP_EOF # slack"
  have dr: "drop (lp_off es i) ?lp = ?E @ ?rest" using off D by simp
  obtain b where b: "rd ?lp (lp_off es i) = Some b" "b \<noteq> LP_EOF"
    using rd_entry [OF oki, of ?rest] unfolding rd_drop [of ?lp] dr by blast
  have sk: "lpSkip (drop (lp_off es i) ?lp) = Some (length ?E)" unfolding dr by (rule lpSkip_entry [OF oki])
  have S: "lp_off es i + length ?E = lp_off es (Suc i)" using lp_off_Suc [OF i] by simp
  have PM: "length P + length (M @ ?E) = lp_off es (Suc i)" using S off by simp
  have keep: "lp_keep es i (i # is) = lp_keep es (Suc i) is" by (rule lp_keep_step [OF i gt])
  show ?case
  proof (cases "is")
    case Nil
    let ?K = "lp_entries (drop (Suc i) es) @ [LP_EOF]"
    have "lp_total es = lp_off es (Suc i) + length ?K"
      using take_drop_entries [of "Suc i" es] i by (simp add: lp_total_def lp_off_def)
    moreover have "mem_move ?lp (length P) (lp_off es (Suc i)) (length ?K) =
        Some (P @ ?K @ drop (length ?K) ((M @ ?E) @ ?K) @ slack)"
      using mem_move_down_tail [of P "M @ ?E" ?K slack] PM D by simp
    ultimately show ?thesis using b sk S Nil keep i
      by (simp add: c_assert_def lp_keep_nil)
  next
    case (Cons j js)
    have j: "i < j" "j < length es" "Suc i \<le> j" using Cons.prems(1,3) local.Cons by auto
    have prems: "sorted_wrt (<) is" "is \<noteq> []" "\<forall>i \<in> set is. i < length es" "hd is = j"
      using Cons.prems local.Cons by auto
    have ke: "(case map (lp_off es) is of [] \<Rightarrow> lp_total es | q # _ \<Rightarrow> q) = lp_off es j" "is \<noteq> []"
      using local.Cons by auto
    have jk: "\<forall>k \<in> set is. j \<le> k" using prems(1) local.Cons by auto
    let ?K = "lp_entries (take (j - Suc i) (drop (Suc i) es))"
    have split: "lp_entries (drop (Suc i) es) = ?K @ lp_entries (drop j es)"
    proof -
      have "drop (Suc i) es = take (j - Suc i) (drop (Suc i) es) @ drop j es"
        using j(3) by (metis append_take_drop_id drop_drop le_add_diff_inverse2)
      then show ?thesis by (metis lp_entries_simps(3))
    qed
    have oj: "lp_off es j = lp_off es (Suc i) + length ?K"
    proof -
      have "take j es = take (Suc i) es @ take (j - Suc i) (drop (Suc i) es)"
        using j(3) by (metis le_add_diff_inverse take_add)
      then show ?thesis by (simp add: lp_off_def)
    qed
    have kp: "lp_keep es (Suc i) is = take (j - Suc i) (drop (Suc i) es) @ lp_keep es j is"
      using lp_keep_upto [OF j(3) _ jk] j by simp
    show ?thesis
    proof (cases "j = Suc i")
      case True
      then have "\<exists>S. lpBatchDelete_loop (P @ (M @ ?E) @ lp_entries (drop (hd is) es) @ LP_EOF # slack) (lp_total es) (map (lp_off es) is) (length P) =
       Some (P @ lp_entries (lp_keep es (hd is) is) @ LP_EOF # S, length P + length (lp_entries (lp_keep es (hd is) is)) + 1)"
        using PM prems by (intro Cons.IH) auto
      then show ?thesis using b sk S keep True prems(4) D ke by (auto simp: c_assert_def)
    next
      case False
      then have lt: "lp_off es (Suc i) < lp_off es j" using lp_off_strict [OF ok, of "Suc i" j] j by simp
      define M' where "M' = drop (length ?K) ((M @ ?E) @ ?K)"
      have mv: "mem_move ?lp (length P) (lp_off es (Suc i)) (length ?K) =
          Some ((P @ ?K) @ M' @ lp_entries (drop j es) @ LP_EOF # slack)"
        using mem_move_down_tail [of P "M @ ?E" ?K "lp_entries (drop j es) @ LP_EOF # slack"] PM D split
        by (simp add: M'_def)
      have "length M' = length (M @ ?E)" unfolding M'_def length_drop length_append [of "M @ ?E"] by (rule diff_add_inverse2)
      then have "length (P @ ?K) + length M' = lp_off es (hd is)" using oj PM prems(4) by simp
      then have "\<exists>S. lpBatchDelete_loop ((P @ ?K) @ M' @ lp_entries (drop (hd is) es) @ LP_EOF # slack) (lp_total es) (map (lp_off es) is) (length (P @ ?K)) =
       Some ((P @ ?K) @ lp_entries (lp_keep es (hd is) is) @ LP_EOF # S, length (P @ ?K) + length (lp_entries (lp_keep es (hd is) is)) + 1)"
        using prems by (intro Cons.IH) auto
      then obtain S where IH: "lpBatchDelete_loop ((P @ ?K) @ M' @ lp_entries (drop j es) @ LP_EOF # slack) (lp_total es) (map (lp_off es) is) (length (P @ ?K)) =
       Some (P @ ?K @ lp_entries (lp_keep es j is) @ LP_EOF # S, length P + length ?K + length (lp_entries (lp_keep es j is)) + 1)"
        using prems(4) by auto
      have "lpBatchDelete_loop ?lp (lp_total es) (map (lp_off es) (i # is)) (length P) =
         lpBatchDelete_loop ((P @ ?K) @ M' @ lp_entries (drop j es) @ LP_EOF # slack) (lp_total es) (map (lp_off es) is) (length (P @ ?K))"
        using b sk S mv lt oj ke by (simp add: c_assert_def)
      then show ?thesis using IH keep kp by (intro exI [of _ S]) simp
    qed
  qed
qed simp

lemma length_lp_keep_le:
  assumes "distinct is" "\<forall>i \<in> set is. i < length es" shows "length (lp_keep es 0 is) + length is = length es"
proof -
  have "length (filter (\<lambda>k. k \<in> set is) [0..<length es]) = card (set is)"
  proof -
    have "set (filter (\<lambda>k. k \<in> set is) [0..<length es]) = set is" using assms(2) by auto
    then show ?thesis by (metis distinct_card distinct_filter distinct_upt)
  qed
  then show ?thesis using sum_length_filter_compl [of "\<lambda>k. k \<in> set is" "[0..<length es]"] distinct_card [OF assms(1)]
    by (simp add: lp_keep_def)
qed

lemma lpBatchDelete_rep:
  assumes A: "lp_allocator_ok A" and rep: "lp_rep lp es" and "is": "sorted_wrt (<) is" "\<forall>i \<in> set is. i < length es"
  shows "\<exists>lp'. lpBatchDelete A lp (map (lp_off es) is) = Some lp' \<and> lp_rep lp' (lp_keep es 0 is)"
proof (cases "is = []")
  case True
  then show ?thesis using rep by (simp add: lpBatchDelete_def lp_keep_nil)
next
  case False
  obtain n slack where lp: "lp = lp_header (lp_total es) n @ lp_entries es @ LP_EOF # slack"
    and n: "n = length es \<and> n < 65535 \<or> n = 65535"
    and t: "lp_total es < 2 ^ 32" "list_all lpele_ok es" using rep by (rule lp_repE)
  define i where "i = hd is"
  define es' where "es' = lp_keep es 0 is"
  have i: "i < length es" using "is" False by (simp add: i_def)
  let ?P = "lp_header (lp_total es) n @ lp_entries (take i es)"
  have "\<forall>k \<in> set is. i \<le> k" using "is"(1) False unfolding i_def by (cases "is") auto
  then have es': "es' = take i es @ lp_keep es i is" unfolding es'_def using lp_keep_upto [of 0 i es "is"] i by simp
  have lpP: "lp = ?P @ [] @ lp_entries (drop i es) @ LP_EOF # slack"
    using lp_entries_split [of i es] i by (simp add: lp)
  have "\<exists>S. lpBatchDelete_loop (?P @ [] @ lp_entries (drop (hd is) es) @ LP_EOF # slack) (lp_total es) (map (lp_off es) is) (length ?P) =
       Some (?P @ lp_entries (lp_keep es (hd is) is) @ LP_EOF # S, length ?P + length (lp_entries (lp_keep es (hd is) is)) + 1)"
    using False "is" t by (intro lpBatchDelete_loop_rep) (auto simp: i_def lp_off_def)
  then obtain S where L: "lpBatchDelete_loop lp (lp_total es) (map (lp_off es) is) (lp_off es i) =
       Some (lp_header (lp_total es) n @ lp_entries es' @ LP_EOF # S, lp_total es')"
    unfolding i_def [symmetric] lpP [symmetric] by (auto simp: es' lp_off_def lp_total_def)
  have dist: "distinct is" using "is"(1) by (induction "is") auto
  have len: "length es' + length is = length es" unfolding es'_def by (rule length_lp_keep_le [OF dist "is"(2)])
  have le: "lp_total es' \<le> lp_total es"
  proof -
    have "lp_entries (lp_keep es 0 is) = concat (map (\<lambda>k. lp_entry (es ! k)) (filter (\<lambda>k. k \<notin> set is) [0..<length es]))"
      by (simp add: lp_keep_def lp_entries_def comp_def)
    moreover have "lp_entries es = concat (map (\<lambda>k. lp_entry (es ! k)) [0..<length es])"
      by (metis (no_types, lifting) lp_entries_def map_map map_nth o_def map_eq_conv)
    moreover have "length (concat (map f (filter Q xs))) \<le> length (concat (map f xs))" for f :: "nat \<Rightarrow> bytes" and Q xs
      by (induction xs) auto
    ultimately show ?thesis by (simp add: lp_total_def es'_def)
  qed
  have small: "lp_total es' < 2 ^ 32" using le t by simp
  have eof: "rd lp (lp_total es - 1) = Some LP_EOF"
    using lp_rep_eof [OF rep] unfolding lp_off_length by (subst rd_drop) auto
  have eof': "rd (lp_header (lp_total es) n @ lp_entries es' @ LP_EOF # S) (lp_total es' - 1) = Some LP_EOF"
    using rd_append_length [of "lp_header (lp_total es) n @ lp_entries es'" "lp_total es' - 1" "LP_EOF # S"]
    by (simp add: lp_total_def)
  obtain n' where n': "n' = length es' \<and> n' < 65535 \<or> n' = 65535" and
    c: "lp_count (- int (length is)) (lp_header (lp_total es') n @ lp_entries es' @ LP_EOF # S) =
       Some (lp_header (lp_total es') n' @ lp_entries es' @ LP_EOF # S)"
    using lp_count_step [OF n _ _ small, of "- int (length is)" "length es'"] len by auto
  have g: "lpGetNumElements (lp_header (lp_total es') n @ lp_entries es' @ LP_EOF # S) = Some n"
    using n small by (intro lp_header_get) auto
  have rep': "lp_rep (lp_header (lp_total es') n' @ lp_entries es' @ LP_EOF # S) es'"
    using n' small t(2) by (intro lp_repI) (auto simp: es'_def lp_keep_def list_all_iff)
  obtain lp' where lp': "lpShrinkToFit A (lp_header (lp_total es') n' @ lp_entries es' @ LP_EOF # S) = Some lp'" "lp_rep lp' es'"
    using lpShrinkToFit_rep [OF A rep'] by blast
  have pos: "0 < lp_total es" "0 < lp_total es'" by (simp_all add: lp_total_def)
  have hd: "hd (map (lp_off es) is) = lp_off es i" using False by (simp add: hd_map i_def)
  have sub: "size_sub (lp_total es) (lp_total es') = Some (lp_total es - lp_total es')"
    "lp_total es - (lp_total es - lp_total es') = lp_total es'" using le by (simp_all add: size_sub_def)
  have "lpBatchDelete A lp (map (lp_off es) is) = Some lp'"
    using False L eof eof' c g lp'(1) pos hd lp_rep_total [OF rep] sub
    by (simp add: lpBatchDelete_def c_assert_def lp_header_set(1) lp_count_def cong: if_cong)
  then show ?thesis using lp'(2) unfolding es'_def by blast
qed

section \<open>Searching\<close>

definition fa_ok :: "bytes \<Rightarrow> lpFindArg \<Rightarrow> bool" where
  "fa_ok s a \<longleftrightarrow> fa_s a = s \<and>
     (fa_vencoding a = 0 \<or> fa_vencoding a = UCHAR_MAX \<and> string2ll s = None \<or>
      fa_vencoding a = 1 \<and> string2ll s = Some (fa_vll a))"

lemma string2ll_long: "32 \<le> length s \<or> length s = 0 \<Longrightarrow> string2ll s = None"
  by (auto simp: string2ll_def LONG_STR_SIZE_def)

lemma lpFindCmp_entry:
  assumes "lpele_ok e" "fa_ok s a" "drop p lp = lp_entry e @ r" "lpGetWithSize (drop p lp) = Some (v, z)"
  shows "\<exists>a'. lpFindCmp lp p a v = Some (lpele_str e = s, a') \<and> fa_ok s a'"
proof (cases e)
  case (LInt i)
  then have v: "v = LpInt i" using lpGetWithSize_entry [OF assms(1), of r] assms(3,4) by auto
  have "sdec i = s \<longleftrightarrow> string2ll s = Some i"
    using assms(1) LInt string2ll_sdec string2ll_sound by fastforce
  then show ?thesis using assms(2) LInt v string2ll_long [of s]
    by (auto simp: lpFindCmp_def fa_ok_def UCHAR_MAX_def lpStringToInt64_eq Let_def split: option.splits)
next
  case (LStr t)
  then obtain off where "v = LpStr off (length t)" "mem_read (drop p lp) off (length t) = Some t"
    using lpGetWithSize_entry [OF assms(1), of r] assms(3,4) by auto
  then show ?thesis using assms(2) LStr by (auto simp: lpFindCmp_def fa_ok_def)
qed

lemma find_upt_step:
  "i < n \<Longrightarrow> find Q [i..<n] = (if Q i then Some i else find Q [Suc i..<n])"
  by (subst upt_conv_Cons) auto

lemma lpFindCb_loop_rep:
  assumes rep: "lp_rep lp es"
  shows "i0 \<le> i \<Longrightarrow> i < length es \<Longrightarrow> fa_ok s a \<Longrightarrow> cnt \<le> skip \<Longrightarrow> (cnt + (i - i0)) mod (skip + 1) = 0 \<Longrightarrow>
    lpFindCb_loop lpFindCmp lp (lp_total es) skip a cnt sz (lp_off es i) =
    Some (map_option (lp_off es) (find (\<lambda>j. (j - i0) mod (skip + 1) = 0 \<and> lpele_str (es ! j) = s) [i..<length es]))"
proof (induction "length es - i" arbitrary: i a cnt sz)
  case (Suc k)
  let ?Q = "\<lambda>j. (j - i0) mod (skip + 1) = 0 \<and> lpele_str (es ! j) = s"
  have i: "i < length es" by fact
  have oki: "lpele_ok (es ! i)" by (rule lp_rep_ok [OF rep i])
  obtain r where r: "drop (lp_off es i) lp = lp_entry (es ! i) @ r" using lp_rep_drop [OF rep i] by blast
  obtain v where v: "lpGetWithSize (drop (lp_off es i) lp) = Some (v, Some (length (lp_entry (es ! i))))"
    using lpGetWithSize_entry [OF oki, of r] unfolding r by blast
  obtain a' where a': "lpFindCmp lp (lp_off es i) a v = Some (lpele_str (es ! i) = s, a')" "fa_ok s a'"
    using lpFindCmp_entry [OF oki Suc.prems(3) r v] by blast
  have S: "lp_off es i + length (lp_entry (es ! i)) = lp_off es (Suc i)" using lp_off_Suc [OF i] by simp
  have bd: "6 \<le> lp_off es i" "lp_off es (Suc i) < lp_total es" "6 \<le> lp_off es (Suc i)"
    using lp_off_bounds [of i es] lp_off_bounds [of "Suc i" es] i by auto
  have chk: "(if lp_off es (Suc i) + 8 \<ge> lp_total es then lpAssertValidEntry lp (lp_total es) (lp_off es (Suc i))
      else c_assert (LP_HDR_SIZE \<le> lp_off es (Suc i) \<and> lp_off es (Suc i) < lp_total es)) = Some ()"
    using lpAssertValidEntry_ok [OF rep, of "Suc i"] i bd by (simp add: c_assert_def LP_HDR_SIZE_def)
  obtain b where b: "rd lp (lp_off es (Suc i)) = Some b" "b = LP_EOF \<longleftrightarrow> Suc i = length es"
    using lp_rep_rd [OF rep, of "Suc i"] i by auto
  have asrt: "(case v of LpStr off n \<Rightarrow> c_assert (LP_HDR_SIZE \<le> lp_off es i \<and> lp_off es i + length (lp_entry (es ! i)) < lp_total es)
              | LpInt i \<Rightarrow> Some ()) = Some ()"
    using S bd by (simp add: c_assert_def LP_HDR_SIZE_def split: lpval.split)
  have cnt0: "cnt = 0 \<longleftrightarrow> (i - i0) mod (skip + 1) = 0"
  proof
    assume "(i - i0) mod (skip + 1) = 0"
    then have "cnt mod (skip + 1) = 0" using Suc.prems(5) by (metis add_0_right mod_add_right_eq)
    then show "cnt = 0" using Suc.prems(4) by simp
  qed (use Suc.prems(5) in simp)
  have next_step: "(if b = LP_EOF then Some None
       else lpFindCb_loop lpFindCmp lp (lp_total es) skip a2 c2 z2 (lp_off es (Suc i))) =
     Some (map_option (lp_off es) (find ?Q [Suc i..<length es]))"
    if "fa_ok s a2" "c2 \<le> skip" "(c2 + (Suc i - i0)) mod (skip + 1) = 0" for a2 c2 z2
  proof (cases "Suc i = length es")
    case True
    then show ?thesis using b by simp
  next
    case False
    then show ?thesis using b i that Suc.hyps(2) Suc.prems(1) Suc.hyps(1) [of "Suc i" a2 c2 z2] by auto
  qed
  show ?case
  proof (cases "cnt = 0")
    case True
    have "(skip + (Suc i - i0)) mod (skip + 1) = 0"
    proof -
      have "skip + (Suc i - i0) = (i - i0) + (skip + 1)" using Suc.prems(1) by simp
      then have "(skip + (Suc i - i0)) mod (skip + 1) = (i - i0) mod (skip + 1)" by (simp only: mod_add_self2)
      then show ?thesis using True cnt0 by simp
    qed
    then show ?thesis
      using True cnt0 v a' asrt chk b(1) S next_step [OF a'(2), of skip "length (lp_entry (es ! i))"]
      by (subst lpFindCb_loop.simps) (simp add: find_upt_step [OF i])
  next
    case False
    have "(cnt - 1 + (Suc i - i0)) mod (skip + 1) = 0"
    proof -
      have "cnt - 1 + (Suc i - i0) = cnt + (i - i0)" using False Suc.prems(1) by simp
      then show ?thesis using Suc.prems(5) by simp
    qed
    then show ?thesis
      using False cnt0 chk b(1) S next_step [OF Suc.prems(3), of "cnt - 1" sz] lpSkip_rep [OF rep i] Suc.prems(4)
      by (subst lpFindCb_loop.simps) (simp add: find_upt_step [OF i] cong: if_cong)
  qed
qed simp

lemma lpFind_rep:
  assumes rep: "lp_rep lp es" and i: "i < length es"
  shows "lpFind lp (Some (lp_off es i)) s skip =
      Some (map_option (lp_off es) (find (\<lambda>j. (j - i) mod (skip + 1) = 0 \<and> lpele_str (es ! j) = s) [i..<length es]))"
    and "lpFind lp None s skip =
      Some (map_option (lp_off es) (find (\<lambda>j. j mod (skip + 1) = 0 \<and> lpele_str (es ! j) = s) [0..<length es]))"
proof -
  have f: "fa_ok s \<lparr>fa_s = s, fa_vencoding = 0, fa_vll = 0\<rparr>" by (simp add: fa_ok_def)
  show "lpFind lp (Some (lp_off es i)) s skip =
      Some (map_option (lp_off es) (find (\<lambda>j. (j - i) mod (skip + 1) = 0 \<and> lpele_str (es ! j) = s) [i..<length es]))"
    using lpFindCb_loop_rep [OF rep le_refl i f, of 0 skip] lp_rep_total [OF rep]
    by (simp add: lpFind_def lpFindCb_def lpBytes_def)
  have p: "0 < length es" using i by linarith
  show "lpFind lp None s skip =
      Some (map_option (lp_off es) (find (\<lambda>j. j mod (skip + 1) = 0 \<and> lpele_str (es ! j) = s) [0..<length es]))"
    using lpFindCb_loop_rep [OF rep le_refl p f, of 0 skip] lp_rep_total [OF rep] lpFirst_rep [OF rep] p
    by (simp add: lpFind_def lpFindCb_def lpBytes_def lp_ptr_def)
qed

section \<open>Properties\<close>

lemma lpBatchInsert_after:
  assumes rep: "lp_rep lp es" and i: "i < length es"
  shows "lpBatchInsert A lp (lp_off es i) LP_AFTER ents = lpBatchInsert A lp (lp_off es (Suc i)) LP_BEFORE ents"
  using lpSkip_rep [OF rep i] lp_rep_total [OF rep] lp_off_bounds [of "Suc i" es] i
  by (simp add: lpBatchInsert_def lp_off_Suc [OF i] c_assert_def LP_HDR_SIZE_def)

text \<open>C27. Ranges and batches: \<open>lpBatchInsert\<close> inserts all the entries in one go,
  \<open>lpDeleteRange\<close> removes up to \<open>num\<close> elements from an index counted from either end,
  \<open>lpBatchDelete\<close> removes the elements at the given increasing positions, and \<open>lpMerge\<close>
  concatenates, whichever argument it reuses.\<close>

theorem lp_bulk_refines:
  assumes "lp_allocator_ok A" and "lp_rep lp es" and "list_all lpe_ok ents" and "ents \<noteq> []"
    and "i \<le> length es \<and> whr = LP_BEFORE \<or> i < length es \<and> whr = LP_AFTER"
    and "sorted_wrt (<) is" and "\<forall>k \<in> set is. k < length es"
    and "lp_rep lp2 es2" and "lp_total (es @ es2) < LP_UINT32_MAX"
  defines "j \<equiv> where_index whr i"
  defines "es' \<equiv> take j es @ map lpe_ele ents @ drop j es"
  shows "(if lp_total es' < 2 ^ 32
     then \<exists>lp'. lpBatchInsert A lp (lp_off es i) whr ents = Some (Some (lp', Some (lp_off es' (j + length ents - 1)))) \<and>
       lp_rep lp' es'
     else lpBatchInsert A lp (lp_off es i) whr ents = Some None) \<and>
   (\<exists>lp'. lpDeleteRange A lp index num = Some lp' \<and>
     lp_rep lp' (case seek_index es index of None \<Rightarrow> es | Some k \<Rightarrow> take k es @ drop (k + num) es)) \<and>
   (\<exists>lp'. lpBatchDelete A lp (map (lp_off es) is) = Some lp' \<and>
     lp_rep lp' [es ! k. k \<leftarrow> [0..<length es], k \<notin> set is]) \<and>
   (\<exists>lp' in_first. lpMerge A (Some lp) (Some lp2) False = Some (Some (lp', in_first)) \<and> lp_rep lp' (es @ es2))"
proof (intro conjI)
  have j: "j \<le> length es" using assms(5) by (auto simp: j_def where_index_def)
  have "lpBatchInsert A lp (lp_off es i) whr ents = lpBatchInsert A lp (lp_off es j) LP_BEFORE ents"
    using assms(5) lpBatchInsert_after [OF assms(2), of i A ents] by (auto simp: j_def where_index_def)
  then show "if lp_total es' < 2 ^ 32
     then \<exists>lp'. lpBatchInsert A lp (lp_off es i) whr ents = Some (Some (lp', Some (lp_off es' (j + length ents - 1)))) \<and>
       lp_rep lp' es'
     else lpBatchInsert A lp (lp_off es i) whr ents = Some None"
    using lpBatchInsert_before [OF assms(1,2) j assms(3,4)] unfolding es'_def by (simp only:)
  show "\<exists>lp'. lpDeleteRange A lp index num = Some lp' \<and>
     lp_rep lp' (case seek_index es index of None \<Rightarrow> es | Some k \<Rightarrow> take k es @ drop (k + num) es)"
    by (rule lpDeleteRange_rep [OF assms(1,2)])
  have "[es ! k. k \<leftarrow> xs, k \<notin> set is] = map (nth es) (filter (\<lambda>k. k \<notin> set is) xs)" for xs
    by (induction xs) auto
  then show "\<exists>lp'. lpBatchDelete A lp (map (lp_off es) is) = Some lp' \<and>
     lp_rep lp' [es ! k. k \<leftarrow> [0..<length es], k \<notin> set is]"
    using lpBatchDelete_rep [OF assms(1,2,6,7)] by (simp add: lp_keep_def)
  show "\<exists>lp' in_first. lpMerge A (Some lp) (Some lp2) False = Some (Some (lp', in_first)) \<and> lp_rep lp' (es @ es2)"
    using lpMerge_rep [OF assms(1,2,8,9)] by blast
qed

theorem lp_bulk_refines_witness:
  "(\<exists>lp'. lpBatchInsert lp_exact lp_example 6 LP_AFTER [LpeLval 7] = Some (Some (lp', Some 8)) \<and>
     lp_rep lp' [LInt 5, LInt 7, LStr [97, 98]]) \<and>
   (\<exists>lp'. lpDeleteRange lp_exact lp_example (- 2) 1 = Some lp' \<and> lp_rep lp' [LStr [97, 98]]) \<and>
   (\<exists>lp'. lpBatchDelete lp_exact lp_example [6] = Some lp' \<and> lp_rep lp' [LStr [97, 98]]) \<and>
   (\<exists>lp' b. lpMerge lp_exact (Some lp_example) (Some lp_example) False = Some (Some (lp', b)) \<and>
     lp_rep lp' [LInt 5, LStr [97, 98], LInt 5, LStr [97, 98]])"
proof -
  let ?es = "[LInt 5, LStr [97, 98]]"
  have ok: "list_all lpe_ok [LpeLval 7]" and e: "lpe_ele (LpeLval 7) = LInt 7"
    by (simp_all add: lpe_ok_def in_int64_def lpe_ele_def)
  have "lp_entry (LInt 7) = [7, 1]" by (simp add: lp_entry_def lpEncodeIntegerGetType_def lpEncodeBacklen_def)
  then have t: "lp_total [LInt 5, LInt 7, LStr [97, 98]] < 2 ^ 32" "lp_off [LInt 5, LInt 7, LStr [97, 98]] 1 = 8"
    "lp_total (?es @ ?es) < LP_UINT32_MAX"
    by (simp_all add: lp_total_def lp_off_def lp_example_entries LP_UINT32_MAX_def)
  have s: "seek_index ?es (- 2) = Some 0" by (simp add: seek_index_def)
  have u: "[0..<length ?es] = [0, 1]" by (simp add: upt_rec)
  have w: "0 \<le> length ?es \<and> LP_AFTER = LP_BEFORE \<or> 0 < length ?es \<and> LP_AFTER = LP_AFTER"
    "sorted_wrt (<) [0 :: nat]" "\<forall>k \<in> set [0]. k < length ?es" by simp_all
  from lp_bulk_refines [OF lp_exact_ok lp_example_rep ok _ w lp_example_rep t(3), of "- 2" 1] t(1,2) s e
  show ?thesis unfolding u by (simp add: where_index_def)
qed

text \<open>C28. Search: \<open>lpFind\<close> returns the first entry at or after the starting one, among those a
  multiple of \<open>skip + 1\<close> entries away from it, whose value as a string is the one looked for; the
  loop ends and never reads outside the listpack.\<close>

theorem lpFind_first:
  assumes "lp_rep lp es" and "i < length es"
  shows "lpFind lp (Some (lp_off es i)) s skip =
    Some (map_option (lp_off es)
      (find (\<lambda>j. (j - i) mod (skip + 1) = 0 \<and> lpele_str (es ! j) = s) [i..<length es]))"
  by (rule lpFind_rep(1) [OF assms])

theorem lpFind_first_witness:
  "lpFind lp_example (Some 6) [97, 98] 0 = Some (Some 8) \<and> lpFind lp_example (Some 6) [97, 98] 1 = Some None"
proof -
  let ?es = "[LInt 5, LStr [97, 98]]"
  have o: "lp_off ?es 1 = 8" by (simp add: lp_off_def lp_example_entries)
  have u: "[0..<length ?es] = [0, 1]" by (simp add: upt_rec)
  have d: "sdec 5 = [53]" by (simp add: sdec_def dec.simps digit_def)
  have "0 < length ?es" by simp
  note F = lpFind_first [OF lp_example_rep this, of "[97, 98]"]
  show ?thesis using F [of 0] F [of 1] o unfolding u by (simp add: d)
qed

end
