(* ===== verification/Listpack_Valid.thy ===== *)
theory Listpack_Valid
  imports Listpack_Ops
begin

text \<open>
  \<open>lpValidateIntegrity\<close> accepts every well-formed listpack, and whatever bytes it accepts can be
  traversed in both directions and read without leaving the allocation.
\<close>

section \<open>Validation\<close>

lemma lpDecodeBacklen_loop_bounds:
  "lpDecodeBacklen_loop p val shift = Some v \<Longrightarrow> val < 2 ^ shift \<Longrightarrow> shift \<le> 28 \<Longrightarrow>
   v = UINT64_MAX_nat \<or> v < 2 ^ 35"
proof (induction p arbitrary: val shift)
  case (Cons b p)
  define w where "w = val + unat (b AND 127) * 2 ^ shift"
  have "unat (b AND 127) \<le> 127" using byte_low(1) [of b] by simp
  then have "unat (b AND 127) * 2 ^ shift \<le> 127 * 2 ^ shift" by (rule mult_le_mono1)
  moreover have "(2 :: nat) ^ (shift + 7) = 128 * 2 ^ shift" by (simp add: power_add)
  ultimately have w: "w < 2 ^ (shift + 7)" using Cons.prems(2) unfolding w_def by linarith
  show ?case
  proof (cases "b AND 128 = 0")
    case True
    then have "v = w" using Cons.prems(1) by (simp add: w_def)
    moreover have "(2 :: nat) ^ (shift + 7) \<le> 2 ^ 35" using Cons.prems(3) by (intro power_increasing) auto
    ultimately show ?thesis using w by linarith
  next
    case False
    then show ?thesis using Cons.prems(1) Cons.IH [of w "shift + 7"] w
      by (auto simp: w_def [symmetric] Let_def split: if_splits)
  qed
qed simp

lemma lpDecodeBacklen_bounds: "lpDecodeBacklen p = Some v \<Longrightarrow> v = UINT64_MAX_nat \<or> v < 2 ^ 35"
  using lpDecodeBacklen_loop_bounds [of p 0 0 v] by (simp add: lpDecodeBacklen_def)

lemma lpDecodeBacklen_loop_low:
  "lpDecodeBacklen_loop p val shift = Some v \<Longrightarrow> 7 \<le> shift \<Longrightarrow> v = UINT64_MAX_nat \<or> v mod 128 = val mod 128"
proof (induction p arbitrary: val shift)
  case (Cons b p)
  define w where "w = val + unat (b AND 127) * 2 ^ shift"
  obtain k where "shift = 7 + k" using Cons.prems(2) le_Suc_ex by blast
  then have "w = val + 128 * (unat (b AND 127) * 2 ^ k)" by (simp add: w_def power_add)
  then have w: "w mod 128 = val mod 128" by simp
  show ?case
  proof (cases "b AND 128 = 0")
    case True
    then show ?thesis using Cons.prems(1) w by (simp add: w_def [symmetric])
  next
    case False
    then show ?thesis using Cons.prems Cons.IH [of w "shift + 7"] w
      by (auto simp: w_def [symmetric] Let_def split: if_splits)
  qed
qed simp

lemma lpDecodeBacklen_low:
  assumes "lpDecodeBacklen (b # p) = Some v" shows "v = UINT64_MAX_nat \<or> v mod 128 = unat b mod 128"
proof -
  have "unat (b AND 127) = unat b mod 128" by (rule byte_low(1))
  then show ?thesis using assms lpDecodeBacklen_loop_low [of p "unat b mod 128" 7 v]
    by (auto simp: lpDecodeBacklen_def Let_def split: if_splits)
qed

lemma lpCurrentEncodedSizeUnsafe_less:
  assumes "lpCurrentEncodedSizeUnsafe p = Some c" shows "c < 2 ^ 32"
proof -
  have six: "LP_ENCODING_6BIT_STR_LEN b < 64" for b
    by (simp add: LP_ENCODING_6BIT_STR_LEN_def byte_low)
  have twelve: "LP_ENCODING_12BIT_STR_LEN p = Some n \<Longrightarrow> n < 4096" for n
  proof -
    assume "LP_ENCODING_12BIT_STR_LEN p = Some n"
    then obtain b0 b1 where "rd p 0 = Some b0" "rd p 1 = Some b1" "n = unat (b0 AND 0xF) * 256 + unat b1"
      by (auto simp: LP_ENCODING_12BIT_STR_LEN_def bind_eq_Some_conv)
    then have "n = unat b0 mod 16 * 256 + unat b1" by (simp add: byte_low)
    moreover have "unat b0 mod 16 < 16" "unat b1 < 256" using unat_byte_less by auto
    ultimately show "n < 4096" by linarith
  qed
  obtain b where b: "rd p 0 = Some b"
    using assms by (auto simp: lpCurrentEncodedSizeUnsafe_def bind_eq_Some_conv)
  show ?thesis using assms b six [of b]
    by (auto simp: lpCurrentEncodedSizeUnsafe_def split: if_splits dest!: twelve)
qed

text \<open>What one accepted step of \<open>lpValidateNext\<close> says.\<close>

lemma lpValidateNext_SomeD:
  assumes "lpValidateNext lp (Some p) n = Some (Some (Some q))"
  shows "\<exists>c k b. rd lp p = Some b \<and> b \<noteq> LP_EOF \<and> 6 \<le> p \<and> q < n \<and> q \<le> length lp \<and> p < q \<and>
    lpCurrentEncodedSizeUnsafe (drop p lp) = Some c \<and> q = p + c + length (lpEncodeBacklen c) \<and>
    lpDecodeBacklen (rev (take q lp)) = Some c \<and> lpCurrentEncodedSizeBytes (drop p lp) = Some k \<and> 0 < k \<and> p + k < n"
proof -
  obtain b k c m where b: "rd lp p = Some b" "b \<noteq> LP_EOF" and p: "6 \<le> p"
    and k: "lpCurrentEncodedSizeBytes (drop p lp) = Some k" "0 < k" "p + k < n"
    and c: "lpCurrentEncodedSizeUnsafe (drop p lp) = Some c" and q: "q = p + (c + length (lpEncodeBacklen c))"
    and len: "p + (c + length (lpEncodeBacklen c)) - 1 < length lp" "p + (c + length (lpEncodeBacklen c)) < n"
    and m: "lpDecodeBacklen (rev (take (p + (c + length (lpEncodeBacklen c))) lp)) = Some m"
    and eq: "(m + length (lpEncodeBacklen c)) mod 2 ^ 64 = c + length (lpEncodeBacklen c)"
    using assms
    by (auto simp: lpValidateNext_def lp_out_of_range_def LP_HDR_SIZE_def Let_def bind_eq_Some_conv not_less not_le
        split: if_splits)
  have pos: "1 \<le> length (lpEncodeBacklen c)" "length (lpEncodeBacklen c) \<le> 5" using length_lpEncodeBacklen by auto
  have c32: "c < 2 ^ 32" by (rule lpCurrentEncodedSizeUnsafe_less [OF c])
  have "m = c"
  proof (cases "m = UINT64_MAX_nat")
    case True
    obtain j where j: "length (lpEncodeBacklen c) = Suc j" "j < 2 ^ 64" using pos by (cases "length (lpEncodeBacklen c)") auto
    then have "m + length (lpEncodeBacklen c) = j + 2 ^ 64" using True by (simp add: UINT64_MAX_nat_def)
    then have "(m + length (lpEncodeBacklen c)) mod 2 ^ 64 = j mod 2 ^ 64" by (simp only: mod_add_self2)
    then show ?thesis using eq j by simp
  next
    case False
    then have "m < 2 ^ 35" using lpDecodeBacklen_bounds [OF m] by blast
    then show ?thesis using eq pos by simp
  qed
  then show ?thesis using b p k c q len m pos by (intro exI [of _ c] exI [of _ k] exI [of _ b]) (auto simp: add.assoc)
qed

lemma lpSkip_valid:
  assumes "lpValidateNext lp (Some p) n = Some (Some (Some q))" shows "lpSkip (drop p lp) = Some (q - p)"
  using lpValidateNext_SomeD [OF assms] by (auto simp: lpSkip_def)

text \<open>The offsets of a chain of accepted entries that ends at the terminator.\<close>

fun lp_chain :: "bytes \<Rightarrow> nat \<Rightarrow> nat \<Rightarrow> nat list \<Rightarrow> bool" where
  "lp_chain lp n p [] \<longleftrightarrow> rd lp p = Some LP_EOF \<and> p = n - 1"
| "lp_chain lp n p (x # os) \<longleftrightarrow> p = x \<and> (\<exists>q. lpValidateNext lp (Some p) n = Some (Some (Some q)) \<and> lp_chain lp n q os)"

lemma lpValidateNext_not_eof:
  assumes "rd lp p = Some b" "b \<noteq> LP_EOF" shows "lpValidateNext lp (Some p) n \<noteq> Some (Some None)"
  using assms by (auto simp: lpValidateNext_def Let_def bind_eq_Some_conv split: if_splits)

lemma lpValidate_loop_chain:
  assumes "lpValidate_loop None lp n numele u (Some p) count = Some (Some (Some (n - 1), count'))"
    and "count + length lp < 2 ^ 32 + p"
  shows "\<exists>os. lp_chain lp n p os \<and> count' = count + length os"
  using assms
proof (induction "length lp - p" arbitrary: p count u rule: less_induct)
  case less
  obtain b where b: "rd lp p = Some b"
    using less.prems(1) by (subst (asm) lpValidate_loop.simps) (auto simp: bind_eq_Some_conv)
  then have lt: "p < length lp" by (auto simp: rd_def split: if_splits)
  show ?case
  proof (cases "b = LP_EOF")
    case True
    then show ?thesis using less.prems(1) b by (subst (asm) lpValidate_loop.simps) (auto intro: exI [of _ "[]"])
  next
    case False
    obtain q where q: "lpValidateNext lp (Some p) n = Some (Some (Some q))"
      and l: "lpValidate_loop None lp n numele u (Some q) ((count + 1) mod 2 ^ 32) = Some (Some (Some (n - 1), count'))"
    proof -
      obtain r where "lpValidateNext lp (Some p) n = Some (Some r)"
        "lpValidate_loop None lp n numele u r ((count + 1) mod 2 ^ 32) = Some (Some (Some (n - 1), count'))"
        using less.prems(1) b False
        by (subst (asm) lpValidate_loop.simps) (auto simp: bind_eq_Some_conv Let_def split: option.splits)
      then show ?thesis using that lpValidateNext_not_eof [OF b False] by (cases r) auto
    qed
    have pq: "p < q" "q \<le> length lp" using lpValidateNext_SomeD [OF q] by auto
    have m: "(count + 1) mod 2 ^ 32 = count + 1" using less.prems(2) lt by simp
    have "\<exists>os. lp_chain lp n q os \<and> count' = (count + 1) + length os"
      using l m pq lt less.prems(2) by (intro less.hyps) auto
    then obtain os where "lp_chain lp n q os" "count' = (count + 1) + length os" by blast
    then show ?thesis using q by (intro exI [of _ "p # os"]) auto
  qed
qed

lemma lp_chain_step:
  "lp_chain lp n p os \<Longrightarrow> k < length os \<Longrightarrow>
    (\<exists>q. lpValidateNext lp (Some (os ! k)) n = Some (Some (Some q)) \<and>
      (if Suc k < length os then q = os ! Suc k else q = n - 1 \<and> rd lp q = Some LP_EOF))"
proof (induction os arbitrary: p k)
  case (Cons x os)
  obtain q where q: "lpValidateNext lp (Some x) n = Some (Some (Some q))" "lp_chain lp n q os"
    using Cons.prems(1) by auto
  show ?case
  proof (cases k)
    case 0
    then show ?thesis using q by (cases os) auto
  next
    case (Suc j)
    then show ?thesis using Cons.IH [OF q(2), of j] Cons.prems(2) by auto
  qed
qed simp

lemma lpAssertValidEntry_chain:
  "lp_chain lp n p os \<Longrightarrow> k < length os \<Longrightarrow> lpAssertValidEntry lp n (os ! k) = Some ()"
  using lp_chain_step [of lp n p os k] by (auto simp: lpAssertValidEntry_def c_assert_def)

lemma lp_chain_next:
  assumes ch: "lp_chain lp n p os" and k: "k < length os" and n: "lpBytes lp = Some n"
  shows "lpNext lp (os ! k) = Some (if Suc k < length os then Some (os ! Suc k) else None)"
proof -
  obtain q where q: "lpValidateNext lp (Some (os ! k)) n = Some (Some (Some q))"
    "if Suc k < length os then q = os ! Suc k else q = n - 1 \<and> rd lp q = Some LP_EOF"
    using lp_chain_step [OF ch k] by blast
  have lt: "os ! k < q" using lpValidateNext_SomeD [OF q(1)] by auto
  then have sk: "lpSkip (drop (os ! k) lp) = Some (q - os ! k)" "os ! k + (q - os ! k) = q"
    using lpSkip_valid [OF q(1)] by auto
  show ?thesis
  proof (cases "Suc k < length os")
    case True
    obtain q' where q': "lpValidateNext lp (Some (os ! Suc k)) n = Some (Some (Some q'))"
      using lp_chain_step [OF ch True] by blast
    obtain b where "rd lp q = Some b" "b \<noteq> LP_EOF" using lpValidateNext_SomeD [OF q'] True q(2) by auto
    then show ?thesis using True sk q(2) lpAssertValidEntry_chain [OF ch True] n by (auto simp: lpNext_def)
  next
    case False
    then have "rd lp q = Some LP_EOF" using q(2) by auto
    then show ?thesis using sk False by (simp add: lpNext_def Let_def)
  qed
qed

lemma lp_chain_prev:
  assumes ch: "lp_chain lp n p os" and k: "k < length os" and n: "lpBytes lp = Some n"
    and q: "lpValidateNext lp (Some (os ! k)) n = Some (Some (Some q))"
  shows "lpPrev lp q = Some (Some (os ! k))"
proof -
  obtain c where c: "6 \<le> os ! k" "os ! k < q" "q \<le> length lp" "q = os ! k + c + length (lpEncodeBacklen c)"
    "lpDecodeBacklen (rev (take q lp)) = Some c" "c < 2 ^ 32"
    using lpValidateNext_SomeD [OF q] lpCurrentEncodedSizeUnsafe_less by blast
  have "size_sub q ((c + length (lpEncodeBacklen c)) mod 2 ^ 64) = Some (os ! k)"
    using c length_lpEncodeBacklen [of c] by (simp add: size_sub_def)
  moreover have "q \<noteq> 6" "q \<noteq> 0" using c(1,2) by linarith+
  ultimately show ?thesis using c(3,5) n lpAssertValidEntry_chain [OF ch k]
    by (simp add: lpPrev_def LP_HDR_SIZE_def)
qed

text \<open>An accepted entry can be read: the 32-bit sum in \<open>lpCurrentEncodedSizeUnsafe\<close> cannot wrap for
  it, since the last byte of the length would have to be its own back length.\<close>

lemma list4: "length xs = 4 \<Longrightarrow> \<exists>a b c d. xs = [a, b, c, d]"
  by (auto simp: numeral_eq_Suc length_Suc_conv)

text \<open>The 32-bit sum in \<open>lpCurrentEncodedSizeUnsafe\<close> does not wrap for an accepted entry: otherwise a
  byte of the length field itself would have to be the back length.\<close>

lemma lp32_no_wrap:
  assumes d: "d = 0xF0 # t" and m: "LP_ENCODING_32BIT_STR_LEN d = Some m"
    and c: "lpCurrentEncodedSizeUnsafe d = Some c" and len: "c < length d"
    and bl: "lpDecodeBacklen (d ! c # r) = Some c \<or> 128 \<le> c"
  shows "c = 5 + m"
proof -
  have cm: "c = (5 + m) mod 2 ^ 32" using c m by (simp add: lpCurrentEncodedSizeUnsafe_def d byte_class classes_F)
  obtain x where x: "mem_read t 0 4 = Some x" "m = nat (le_uint x)"
    using m by (auto simp: LP_ENCODING_32BIT_STR_LEN_def d mem_read_Cons_0)
  then obtain x1 x2 x3 x4 t' where xs: "x = [x1, x2, x3, x4]" and t: "t = x1 # x2 # x3 # x4 # t'"
    using list4 [of x] by (auto simp: mem_read_def split: if_splits) (metis append_Cons append_Nil append_take_drop_id)
  have m4: "int m = uint x1 + 256 * (uint x2 + 256 * (uint x3 + 256 * uint x4))"
    using x(2) le_uint_nonneg [of x] by (simp add: xs)
  have lt: "int m < 2 ^ 32" using le_uint_bounds [of x] x(2) by (simp add: xs)
  show ?thesis
  proof (cases "5 + m < 2 ^ 32")
    case True
    then show ?thesis using cm by simp
  next
    case False
    then have "c = 5 + m - 2 ^ 32" using cm lt by (simp add: le_mod_geq)
    then have c4: "c \<le> 4" using lt by simp
    have m_ge: "int m \<ge> 4294967291" using False by simp
    have m5: "int m = uint x1 + 256 * uint x2 + 65536 * uint x3 + 16777216 * uint x4" using m4 by simp
    have u: "uint x4 = 255" "uint x3 = 255" "uint x2 = 255" "uint x1 \<ge> 251"
      using m_ge m5 uint_byte_bounds [of x1] uint_byte_bounds [of x2] uint_byte_bounds [of x3] uint_byte_bounds [of x4]
      by - linarith+
    have n: "unat x4 = 255" "unat x3 = 255" "unat x2 = 255" unfolding unat_eq_nat_uint u(1-3) by simp_all
    have n1: "unat x1 \<ge> 251" unfolding unat_eq_nat_uint using u(4) by linarith
    have "unat (d ! c) \<ge> 240" "unat (d ! c) < 256"
    proof -
      consider "c = 0" | "c = 1" | "c = 2" | "c = 3" | "c = 4" using c4 by linarith
      then have "unat (d ! c) \<ge> 240" using n n1 by cases (simp_all add: d t)
      then show "unat (d ! c) \<ge> 240" "unat (d ! c) < 256" using unat_byte_less by auto
    qed
    then have "unat (d ! c) mod 128 \<ge> 112" by (simp add: le_mod_geq)
    moreover have "c = UINT64_MAX_nat \<or> c mod 128 = unat (d ! c) mod 128" using bl c4 lpDecodeBacklen_low [of "d ! c" r c] by linarith
    ultimately show ?thesis using c4 by (simp add: UINT64_MAX_nat_def)
  qed
qed

lemma lpGet_valid:
  assumes q: "lpValidateNext lp (Some p) n = Some (Some (Some q))" and n: "n \<le> length lp"
  shows "\<exists>v. lpGet (drop p lp) = Some v \<and> (case v of LpStr off len \<Rightarrow> p + off + len < q | LpInt i \<Rightarrow> True)"
proof -
  obtain c k b where c: "rd lp p = Some b" "b \<noteq> LP_EOF" "q < n" "lpCurrentEncodedSizeUnsafe (drop p lp) = Some c"
    "q = p + c + length (lpEncodeBacklen c)" "lpDecodeBacklen (rev (take q lp)) = Some c"
    "lpCurrentEncodedSizeBytes (drop p lp) = Some k" "0 < k"
    using lpValidateNext_SomeD [OF q] by blast
  define d where "d = drop p lp"
  have len: "c + length (lpEncodeBacklen c) < length d" using c(3,5) n by (simp add: d_def)
  have bl: "1 \<le> length (lpEncodeBacklen c)" using length_lpEncodeBacklen by blast
  have "p < length lp" "lp ! p = b" using c(1) by (auto simp: rd_def split: if_splits)
  then obtain t where d: "d = b # t" using Cons_nth_drop_Suc [of p lp] unfolding d_def by metis
  have rd1: "rd d 1 = Some (d ! 1)" if "2 \<le> c" using that len by (simp add: rd_def)
  have mr: "\<exists>x. mem_read d 1 m = Some x" if "m + 1 \<le> c" for m using that len by (simp add: mem_read_def)
  have nowrap: "c = 5 + m" if "b = 0xF0" "LP_ENCODING_32BIT_STR_LEN d = Some m" for m
  proof (rule lp32_no_wrap [OF _ that(2)])
    show "d = 0xF0 # t" using d that(1) by simp
    show "lpCurrentEncodedSizeUnsafe d = Some c" using c(4) by (simp add: d_def)
    show "c < length d" using len by simp
    show "lpDecodeBacklen (d ! c # rev (take (p + c) lp)) = Some c \<or> 128 \<le> c"
    proof (cases "c \<le> 127")
      case True
      then have "q = Suc (p + c)" using c(5) by (simp add: lpEncodeBacklen_def)
      moreover have "p + c < length lp" "lp ! (p + c) = d ! c" using len by (auto simp: d_def)
      ultimately show ?thesis using c(6) by (simp add: take_Suc_conv_app_nth)
    qed simp
  qed
  have U: "lpCurrentEncodedSizeUnsafe d = Some c" "lpCurrentEncodedSizeBytes d = Some k" using c(4,7) by (simp_all add: d_def)
  consider (a) "LP_ENCODING_IS_7BIT_UINT b \<or> LP_ENCODING_IS_6BIT_STR b"
    | (i) "\<not> LP_ENCODING_IS_7BIT_UINT b" "\<not> LP_ENCODING_IS_6BIT_STR b"
        "LP_ENCODING_IS_13BIT_INT b \<or> b = 0xF1 \<or> b = 0xF2 \<or> b = 0xF3 \<or> b = 0xF4"
    | (s) "\<not> LP_ENCODING_IS_7BIT_UINT b" "\<not> LP_ENCODING_IS_6BIT_STR b" "\<not> LP_ENCODING_IS_13BIT_INT b"
        "b \<noteq> 0xF1" "b \<noteq> 0xF2" "b \<noteq> 0xF3" "b \<noteq> 0xF4" by blast
  then have "\<exists>v. lpGet d = Some v \<and> (case v of LpStr off len \<Rightarrow> off + len \<le> c | LpInt i \<Rightarrow> True)"
  proof cases
    case a
    then show ?thesis using U(1) by (auto simp: d lpCurrentEncodedSizeUnsafe_def lpGet_def lpGetWithSize_def Let_def split: if_splits)
  next
    case i
    then show ?thesis using U(1) rd1 mr [of 2] mr [of 3] mr [of 4] mr [of 8]
      by (auto simp: d lpCurrentEncodedSizeUnsafe_def lpGet_def lpGetWithSize_def split: if_splits)
  next
    case s
    show ?thesis
    proof (cases "b = 0xF0")
      case True
      obtain m where m: "LP_ENCODING_32BIT_STR_LEN d = Some m"
        using U(1) s True by (auto simp: d lpCurrentEncodedSizeUnsafe_def byte_class)
      then show ?thesis using nowrap [OF True m] s True by (simp add: d lpGet_def lpGetWithSize_def byte_class)
    next
      case False
      have tw: "LP_ENCODING_IS_12BIT_STR b"
        using U(2) s c(2,8) False by (auto simp: d lpCurrentEncodedSizeBytes_def split: if_splits)
      then obtain m where m: "LP_ENCODING_12BIT_STR_LEN d = Some m" "c = 2 + m"
        using U(1) s by (auto simp: d lpCurrentEncodedSizeUnsafe_def)
      then show ?thesis using s tw by (simp add: d lpGet_def lpGetWithSize_def)
    qed
  qed
  then obtain v where "lpGet d = Some v" "case v of LpStr off len \<Rightarrow> off + len \<le> c | LpInt i \<Rightarrow> True" by blast
  then show ?thesis using c(5) bl unfolding d_def by (intro exI [of _ v]) (simp split: lpval.splits)
qed

lemma lp_chain_validate_loop:
  assumes rep: "lp_rep lp es"
  shows "i \<le> length es \<Longrightarrow> lpValidate_loop None lp (lp_total es) numele u (Some (lp_off es i)) i =
    Some (Some (Some (lp_total es - 1), length es))"
proof (induction "length es - i" arbitrary: i)
  case 0
  then have "i = length es" by simp
  then show ?case using lp_rep_rd [OF rep, of i] by (subst lpValidate_loop.simps) (auto simp: lp_off_length)
next
  case (Suc k)
  then have i: "i < length es" by simp
  obtain b where b: "rd lp (lp_off es i) = Some b" "b \<noteq> LP_EOF" using lp_rep_rd [OF rep, of i] i by auto
  have "(i + 1) mod 2 ^ 32 = Suc i" using i length_es_bound(2) [OF rep] by simp
  moreover have "lpValidate_loop None lp (lp_total es) numele u (Some (lp_off es (Suc i))) (Suc i) =
    Some (Some (Some (lp_total es - 1), length es))" using Suc.hyps(2) i by (intro Suc.hyps(1)) auto
  ultimately show ?case using b lpValidateNext_entry [OF rep i] by (subst lpValidate_loop.simps) simp
qed

lemma lpValidateIntegrity_rep:
  assumes rep: "lp_rep lp es" and len: "length lp = lp_total es"
  shows "lpValidateIntegrity lp (length lp) True None u = Some True"
proof -
  obtain n where n: "lpGetNumElements lp = Some n" "n = length es \<and> n < 65535 \<or> n = 65535"
    using lp_rep_num [OF rep] by blast
  have eof: "rd lp (lp_total es - 1) = Some LP_EOF"
    using lp_rep_rd [OF rep, of "length es"] by (auto simp: lp_off_length)
  have l: "lpValidate_loop None lp (lp_total es) n u (Some 6) 0 = Some (Some (Some (lp_total es - 1), length es))"
    using lp_chain_validate_loop [OF rep, of 0 n u] by simp
  have "7 \<le> lp_total es" by (simp add: lp_total_def)
  then show ?thesis using n eof l len lp_rep_total [OF rep]
    by (auto simp: lpValidateIntegrity_def LP_HDR_SIZE_def LP_HDR_NUMELE_UNKNOWN_def)
qed

lemma lpValidateIntegrity_chain:
  assumes "lpValidateIntegrity lp (length lp) True None u = Some True"
  shows "\<exists>os. lp_chain lp (length lp) 6 os \<and> lpBytes lp = Some (length lp) \<and>
    (\<exists>num. lpGetNumElements lp = Some num \<and> (num \<noteq> 65535 \<longrightarrow> num = length os)) \<and> length lp < 2 ^ 32"
proof -
  have total: "lpGetTotalBytes lp = Some (length lp)" and l7: "7 \<le> length lp"
    using assms by (auto simp: lpValidateIntegrity_def LP_HDR_SIZE_def bind_eq_Some_conv split: if_splits)
  have lt: "length lp < 2 ^ 32"
  proof -
    obtain x where x: "mem_read lp 0 4 = Some x" "length lp = nat (le_uint x)" using total by (auto simp: lpGetTotalBytes_def)
    then have "length x = 4" by (auto dest: mem_read_length)
    then have "le_uint x < 2 ^ 32" using le_uint_bounds [of x] by simp
    then show ?thesis using x(2) le_uint_nonneg [of x] by (simp add: nat_less_iff)
  qed
  obtain num where num: "lpGetNumElements lp = Some num"
    using assms total l7 by (auto simp: lpValidateIntegrity_def LP_HDR_SIZE_def bind_eq_Some_conv split: if_splits)
  obtain count where v: "lpValidate_loop None lp (length lp) num u (Some 6) 0 = Some (Some (Some (length lp - 1), count))"
    and c: "num \<noteq> 65535 \<longrightarrow> num = count"
    using assms total num l7
    by (auto simp: lpValidateIntegrity_def LP_HDR_SIZE_def LP_HDR_NUMELE_UNKNOWN_def bind_eq_Some_conv
        split: if_splits option.splits)
  have "\<exists>os. lp_chain lp (length lp) 6 os \<and> count = 0 + length os"
    using lt by (intro lpValidate_loop_chain [OF v]) simp
  then show ?thesis using c num total lt by (auto simp: lpBytes_def)
qed

lemma lp_chain_first:
  assumes "lp_chain lp n 6 os" "lpBytes lp = Some n"
  shows "lpFirst lp = Some (if os = [] then None else Some (hd os))"
proof (cases os)
  case Nil
  then show ?thesis using assms by (simp add: lpFirst_def LP_HDR_SIZE_def)
next
  case (Cons x xs)
  then obtain q where q: "x = 6" "lpValidateNext lp (Some x) n = Some (Some (Some q))" using assms by auto
  obtain b where "rd lp 6 = Some b" "b \<noteq> LP_EOF" using lpValidateNext_SomeD [OF q(2)] q(1) by auto
  then show ?thesis using Cons q(1) lpAssertValidEntry_chain [OF assms(1), of 0] assms(2)
    by (simp add: lpFirst_def LP_HDR_SIZE_def)
qed

lemma lp_chain_last:
  assumes ch: "lp_chain lp n 6 os" and n: "lpBytes lp = Some n" "0 < n"
  shows "lpLast lp = Some (if os = [] then None else Some (last os))"
proof -
  have s: "lpGetTotalBytes lp = Some n" "size_sub n 1 = Some (n - 1)" using n by (auto simp: lpBytes_def size_sub_def)
  show ?thesis
  proof (cases "os = []")
    case True
    then show ?thesis using ch s by (simp add: lpLast_def lpPrev_def LP_HDR_SIZE_def)
  next
    case False
    then have l: "length os - 1 < length os" "\<not> Suc (length os - 1) < length os" by (cases os; simp)+
    obtain q where q: "lpValidateNext lp (Some (os ! (length os - 1))) n = Some (Some (Some q))" "q = n - 1"
      using lp_chain_step [OF ch l(1)] l(2) by auto
    show ?thesis using lp_chain_prev [OF ch l(1) n(1) q(1)] False s q(2) by (simp add: lpLast_def last_conv_nth)
  qed
qed

lemma lp_chain_length_loop:
  assumes ch: "lp_chain lp n p os" and n: "lpBytes lp = Some n" and s: "length os < 2 ^ 32"
  shows "i \<le> length os \<Longrightarrow> lpLength_loop lp (if i < length os then Some (os ! i) else None) i = Some (length os)"
proof (induction "length os - i" arbitrary: i)
  case (Suc k)
  then have i: "i < length os" by simp
  have "(i + 1) mod 2 ^ 32 = Suc i" using i s by simp
  then show ?case using Suc.hyps(1) [of "Suc i"] Suc.hyps(2) i lp_chain_next [OF ch i n] by auto
qed simp

lemma lp_chain_length:
  "lp_chain lp n p os \<Longrightarrow> length os + p < length lp"
proof (induction os arbitrary: p)
  case Nil
  then show ?case by (auto simp: rd_def split: if_splits)
next
  case (Cons x os)
  then obtain q where q: "lpValidateNext lp (Some p) n = Some (Some (Some q))" "lp_chain lp n q os" by auto
  have "p < q" using lpValidateNext_SomeD [OF q(1)] by auto
  then show ?case using Cons.IH [OF q(2)] by simp
qed

section \<open>Property\<close>

text \<open>C29. Validation: \<open>lpValidateIntegrity\<close> accepts the bytes of every well-formed listpack.
  Conversely, for any bytes whatsoever that it accepts there is a list of entry offsets such that
  \<open>lpFirst\<close>, \<open>lpNext\<close>, \<open>lpPrev\<close>, \<open>lpLast\<close> and \<open>lpLength\<close> walk exactly these entries without a failed
  assertion, and \<open>lpGet\<close> reads each of them inside its own bounds (so the 32-bit sum of a hostile length
  cannot be used to escape).\<close>

theorem lpValidateIntegrity_safe:
  "(lp_rep lp es \<and> length lp = lp_total es \<longrightarrow> lpValidateIntegrity lp (length lp) True None u = Some True) \<and>
   (lpValidateIntegrity lp (length lp) True None u = Some True \<longrightarrow>
    (\<exists>os. lpFirst lp = Some (if os = [] then None else Some (hd os)) \<and>
      lpLast lp = Some (if os = [] then None else Some (last os)) \<and>
      (\<exists>lp'. lpLength lp = Some (length os, lp')) \<and>
      (\<forall>k < length os.
         lpNext lp (os ! k) = Some (if Suc k < length os then Some (os ! Suc k) else None) \<and>
         (Suc k < length os \<longrightarrow> lpPrev lp (os ! Suc k) = Some (Some (os ! k))) \<and>
         (\<exists>v. lpGet (drop (os ! k) lp) = Some v \<and>
            (case v of LpStr off len \<Rightarrow> os ! k + off + len < (if Suc k < length os then os ! Suc k else length lp)
             | LpInt i \<Rightarrow> True)))))"
proof (intro conjI impI)
  assume "lp_rep lp es \<and> length lp = lp_total es"
  then show "lpValidateIntegrity lp (length lp) True None u = Some True"
    by (elim conjE) (rule lpValidateIntegrity_rep)
next
  assume "lpValidateIntegrity lp (length lp) True None u = Some True"
  from lpValidateIntegrity_chain [OF this] obtain os num where ch: "lp_chain lp (length lp) 6 os" and n: "lpBytes lp = Some (length lp)"
    and num: "lpGetNumElements lp = Some num" "num \<noteq> 65535 \<longrightarrow> num = length os" and lt: "length lp < 2 ^ 32"
    by (elim exE conjE)
  have ol: "length os < 2 ^ 32" using lp_chain_length [OF ch] lt by simp
  have pos: "0 < length lp" using num(1) by (auto simp: lpGetNumElements_def mem_read_def split: if_splits)
  have f: "lpFirst lp = Some (if os = [] then None else Some (hd os))" by (rule lp_chain_first [OF ch n])
  have len: "\<exists>lp'. lpLength lp = Some (length os, lp')"
  proof -
    have l: "6 \<le> length lp" using num(1) by (auto simp: lpGetNumElements_def mem_read_def split: if_splits)
    have "lpLength_loop lp (if os = [] then None else Some (hd os)) 0 = Some (length os)"
      using lp_chain_length_loop [OF ch n ol, of 0] by (cases os) (simp_all del: lpLength_loop.simps(2))
    moreover obtain lp' where "lpSetNumElements lp (int (length os)) = Some lp'"
      using l by (simp add: lpSetNumElements_def mem_write_def)
    ultimately show ?thesis using f num by (auto simp: lpLength_def LP_HDR_NUMELE_UNKNOWN_def)
  qed
  have steps: "lpNext lp (os ! k) = Some (if Suc k < length os then Some (os ! Suc k) else None) \<and>
         (Suc k < length os \<longrightarrow> lpPrev lp (os ! Suc k) = Some (Some (os ! k))) \<and>
         (\<exists>v. lpGet (drop (os ! k) lp) = Some v \<and>
            (case v of LpStr off len \<Rightarrow> os ! k + off + len < (if Suc k < length os then os ! Suc k else length lp)
             | LpInt i \<Rightarrow> True))" if k: "k < length os" for k
  proof -
    obtain q where q: "lpValidateNext lp (Some (os ! k)) (length lp) = Some (Some (Some q))"
      "if Suc k < length os then q = os ! Suc k else q = length lp - 1 \<and> rd lp q = Some LP_EOF"
      using lp_chain_step [OF ch k] by blast
    obtain v where v: "lpGet (drop (os ! k) lp) = Some v"
      "case v of LpStr off len \<Rightarrow> os ! k + off + len < q | LpInt i \<Rightarrow> True" using lpGet_valid [OF q(1) order_refl] by blast
    have "q \<le> (if Suc k < length os then os ! Suc k else length lp)" using q(2) by (auto split: if_splits)
    then show ?thesis using lp_chain_next [OF ch k n] lp_chain_prev [OF ch k n q(1)] q(2) v
      by (auto split: lpval.splits if_splits)
  qed
  show "\<exists>os. lpFirst lp = Some (if os = [] then None else Some (hd os)) \<and>
      lpLast lp = Some (if os = [] then None else Some (last os)) \<and>
      (\<exists>lp'. lpLength lp = Some (length os, lp')) \<and>
      (\<forall>k < length os.
         lpNext lp (os ! k) = Some (if Suc k < length os then Some (os ! Suc k) else None) \<and>
         (Suc k < length os \<longrightarrow> lpPrev lp (os ! Suc k) = Some (Some (os ! k))) \<and>
         (\<exists>v. lpGet (drop (os ! k) lp) = Some v \<and>
            (case v of LpStr off len \<Rightarrow> os ! k + off + len < (if Suc k < length os then os ! Suc k else length lp)
             | LpInt i \<Rightarrow> True)))"
    by (intro exI [of _ os] conjI allI impI f len lp_chain_last [OF ch n pos] steps)
qed

theorem lpValidateIntegrity_safe_witness:
  "lpValidateIntegrity lp_example (length lp_example) True None () = Some True \<and>
   (\<exists>os. lpFirst lp_example = Some (if os = [] then None else Some (hd os)) \<and>
     lpLast lp_example = Some (if os = [] then None else Some (last os)))"
proof -
  have "length lp_example = lp_total [LInt 5, LStr [97, 98]]"
    by (simp add: lp_example_def lp_total_def lp_example_entries)
  then have v: "lpValidateIntegrity lp_example (length lp_example) True None () = Some True"
    using lpValidateIntegrity_safe [of lp_example "[LInt 5, LStr [97, 98]]" "()"] lp_example_rep by blast
  then show ?thesis using lpValidateIntegrity_safe [of lp_example "[]" "()"] by blast
qed

end
