(* ===== verification/Siphash.thy ===== *)
theory Siphash
  imports Redis_Prelude
begin

text \<open>
  \<^verbatim>\<open>siphash.c\<close>: the keyed hash of the dictionaries (SipHash with one compression and two
  finalisation rounds), as it is compiled for a little-endian CPU with unaligned access, and its
  case-insensitive variant.  \<^term>\<open>None\<close> is a read outside the input or outside the key.
\<close>

unbundle bit_operations_syntax

section \<open>The model\<close>

definition siptlw :: "byte \<Rightarrow> byte" where
  "siptlw c = (if 65 \<le> c \<and> c \<le> 90 then c + (97 - 65) else c)"

definition ROTL :: "64 word \<Rightarrow> nat \<Rightarrow> 64 word" where
  "ROTL x b = push_bit b x OR drop_bit (64 - b) x"

text \<open>\<open>*((uint64_t*)(p))\<close>, and the portable form of the other macro.\<close>

definition U8TO64_LE :: "bytes \<Rightarrow> 64 word option" where
  "U8TO64_LE p = map_option (\<lambda>bs. word_of_int (le_uint bs)) (mem_read p 0 8)"

definition U8TO64_LE_NOCASE :: "bytes \<Rightarrow> 64 word option" where
  "U8TO64_LE_NOCASE p =
     (if 8 \<le> length p then
        Some (ucast (siptlw (p ! 0)) OR
          push_bit 8 (ucast (siptlw (p ! 1))) OR
          push_bit 16 (ucast (siptlw (p ! 2))) OR
          push_bit 24 (ucast (siptlw (p ! 3))) OR
          push_bit 32 (ucast (siptlw (p ! 4))) OR
          push_bit 40 (ucast (siptlw (p ! 5))) OR
          push_bit 48 (ucast (siptlw (p ! 6))) OR
          push_bit 56 (ucast (siptlw (p ! 7))))
      else None)"

type_synonym sipstate = "64 word \<times> 64 word \<times> 64 word \<times> 64 word"

definition SIPROUND :: "sipstate \<Rightarrow> sipstate" where
  "SIPROUND v =
     (let (v0, v1, v2, v3) = v;
          v0 = v0 + v1;
          v1 = ROTL v1 13;
          v1 = v1 XOR v0;
          v0 = ROTL v0 32;
          v2 = v2 + v3;
          v3 = ROTL v3 16;
          v3 = v3 XOR v2;
          v0 = v0 + v3;
          v3 = ROTL v3 21;
          v3 = v3 XOR v0;
          v2 = v2 + v1;
          v1 = ROTL v1 17;
          v1 = v1 XOR v2;
          v2 = ROTL v2 32
      in (v0, v1, v2, v3))"

text \<open>The loop over the blocks of eight bytes; \<open>load\<close> is the macro that reads a block.\<close>

primrec sip_blocks :: "(bytes \<Rightarrow> 64 word option) \<Rightarrow> nat \<Rightarrow> bytes \<Rightarrow> sipstate \<Rightarrow> (bytes \<times> sipstate) option" where
  "sip_blocks load 0 p v = Some (p, v)"
| "sip_blocks load (Suc n) p v = do {
     m \<leftarrow> load p;
     let (v0, v1, v2, v3) = v;
     let (v0, v1, v2, v3) = SIPROUND (v0, v1, v2, v3 XOR m);
     sip_blocks load n (drop 8 p) (v0 XOR m, v1, v2, v3)
   }"

text \<open>The \<open>switch\<close> on the bytes left over; every case falls through to the ones below.\<close>

primrec sip_tail :: "(byte \<Rightarrow> byte) \<Rightarrow> bytes \<Rightarrow> nat \<Rightarrow> 64 word \<Rightarrow> 64 word option" where
  "sip_tail f p 0 b = Some b"
| "sip_tail f p (Suc i) b =
     (if i < length p then sip_tail f p i (b OR push_bit (8 * i) (ucast (f (p ! i)))) else None)"

definition sip_init :: "bytes \<Rightarrow> sipstate option" where
  "sip_init k = do {
     k0 \<leftarrow> U8TO64_LE k;
     k1 \<leftarrow> U8TO64_LE (drop 8 k);
     Some (0x736f6d6570736575 XOR k0, 0x646f72616e646f6d XOR k1,
       0x6c7967656e657261 XOR k0, 0x7465646279746573 XOR k1)
   }"

definition sip_final :: "sipstate \<Rightarrow> 64 word \<Rightarrow> 64 word" where
  "sip_final v b =
     (let (v0, v1, v2, v3) = v;
          (v0, v1, v2, v3) = SIPROUND (v0, v1, v2, v3 XOR b);
          (v0, v1, v2, v3) = SIPROUND (SIPROUND (v0 XOR b, v1, v2 XOR 0xff, v3))
      in v0 XOR v1 XOR v2 XOR v3)"

definition siphash :: "bytes \<Rightarrow> bytes \<Rightarrow> 64 word option" where
  "siphash p k = do {
     let inlen = length p;
     v \<leftarrow> sip_init k;
     let left = inlen mod 8;
     (p, v) \<leftarrow> sip_blocks U8TO64_LE ((inlen - inlen mod 8) div 8) p v;
     b \<leftarrow> sip_tail (\<lambda>c. c) p left (push_bit 56 (of_nat inlen));
     Some (sip_final v b)
   }"

definition siphash_nocase :: "bytes \<Rightarrow> bytes \<Rightarrow> 64 word option" where
  "siphash_nocase p k = do {
     let inlen = length p;
     v \<leftarrow> sip_init k;
     let left = inlen mod 8;
     (p, v) \<leftarrow> sip_blocks U8TO64_LE_NOCASE ((inlen - inlen mod 8) div 8) p v;
     b \<leftarrow> sip_tail siptlw p left (push_bit 56 (of_nat inlen));
     Some (sip_final v b)
   }"

text \<open>The hash functions of \<^verbatim>\<open>dict.c\<close>, with the seed.\<close>

definition dictGenHashFunction :: "bytes \<Rightarrow> bytes \<Rightarrow> 64 word option" where
  "dictGenHashFunction seed key = siphash key seed"

definition dictGenCaseHashFunction :: "bytes \<Rightarrow> bytes \<Rightarrow> 64 word option" where
  "dictGenCaseHashFunction seed buf = siphash_nocase buf seed"

section \<open>Loads\<close>

text \<open>The two ways to read a block agree: a sum of the bytes at their places has no carries.\<close>

lemma word_of_le_uint_Cons:
  "(word_of_int (le_uint (b # bs)) :: 64 word) = ucast b OR push_bit 8 (word_of_int (le_uint bs))"
proof -
  have "uint b = take_bit 8 (uint b)" using uint_byte_bounds [of b] by (simp add: take_bit_int_eq_self)
  then have c: "le_uint (b # bs) = concat_bit 8 (uint b) (le_uint bs)"
    by (simp add: concat_bit_eq push_bit_eq_mult)
  show ?thesis unfolding c
    by (rule bit_word_eqI) (auto simp: bit_simps bit_concat_bit_iff bit_uint_iff dest: bit_imp_le_length)
qed

lemma U8TO64_LE_NOCASE_eq: "U8TO64_LE_NOCASE p = U8TO64_LE (map siptlw p)"
proof (cases "8 \<le> length p")
  case True
  then obtain b0 b1 b2 b3 b4 b5 b6 b7 r where p: "p = b0 # b1 # b2 # b3 # b4 # b5 # b6 # b7 # r"
    by (auto simp: eval_nat_numeral Suc_le_length_iff)
  have z: "(word_of_int (le_uint []) :: 64 word) = 0" by simp
  show ?thesis
    by (simp add: p U8TO64_LE_NOCASE_def U8TO64_LE_def mem_read_def word_of_le_uint_Cons z push_bit_or
        del: le_uint.simps)
next
  case False
  then show ?thesis by (simp add: U8TO64_LE_NOCASE_def U8TO64_LE_def mem_read_def)
qed

lemma sip_blocks_nocase:
  "sip_blocks U8TO64_LE (n) (map siptlw p) v = map_option (map_prod (map siptlw) id) (sip_blocks U8TO64_LE_NOCASE n p v)"
  by (induction n arbitrary: p v) (simp_all add: U8TO64_LE_NOCASE_eq Let_def drop_map option.map_comp
      split: prod.split Option.bind_split)

lemma sip_tail_nocase: "sip_tail siptlw p i b = sip_tail (\<lambda>c. c) (map siptlw p) i b"
  by (induction i arbitrary: b) simp_all

lemma siphash_nocase_eq: "siphash_nocase p k = siphash (map siptlw p) k"
  by (cases "sip_init k")
    (simp_all add: siphash_nocase_def siphash_def Let_def sip_blocks_nocase sip_tail_nocase
      split: Option.bind_split)

section \<open>No access out of bounds\<close>

lemma U8TO64_LE_total: "8 \<le> length p \<Longrightarrow> \<exists>w. U8TO64_LE p = Some w"
  by (simp add: U8TO64_LE_def mem_read_def)

lemma sip_blocks_total:
  "8 * n \<le> length p \<Longrightarrow> \<exists>v'. sip_blocks U8TO64_LE n p v = Some (drop (8 * n) p, v')"
proof (induction n arbitrary: p v)
  case (Suc n)
  obtain m where "U8TO64_LE p = Some m" using U8TO64_LE_total [of p] Suc.prems by auto
  moreover have "8 * n \<le> length (drop 8 p)" using Suc.prems by simp
  ultimately show ?case using Suc.IH [of "drop 8 p"] by (simp add: Let_def add.commute split: prod.split)
qed (simp only: sip_blocks.simps mult_0_right drop_0, blast)

lemma sip_tail_total: "i \<le> length p \<Longrightarrow> \<exists>b'. sip_tail f p i b = Some b'"
  by (induction i arbitrary: b) auto

lemma siphash_total:
  assumes "16 \<le> length k" shows "\<exists>h. siphash p k = Some h"
proof -
  obtain k0 k1 where "U8TO64_LE k = Some k0" "U8TO64_LE (drop 8 k) = Some k1"
    using U8TO64_LE_total [of k] U8TO64_LE_total [of "drop 8 k"] assms by fastforce
  then obtain v where v: "sip_init k = Some v" by (simp add: sip_init_def)
  define n where "n = (length p - length p mod 8) div 8"
  have n: "8 * n + length p mod 8 = length p" by (simp add: n_def minus_mod_eq_mult_div)
  obtain v' where "sip_blocks U8TO64_LE n p v = Some (drop (8 * n) p, v')"
    using sip_blocks_total [of n p v] n by auto
  moreover obtain b where
    "sip_tail (\<lambda>c. c) (drop (8 * n) p) (length p mod 8) (push_bit 56 (of_nat (length p))) = Some b"
    using sip_tail_total [of "length p mod 8" "drop (8 * n) p"] n by fastforce
  ultimately show ?thesis using v by (simp add: siphash_def Let_def n_def)
qed

section \<open>Properties\<close>

text \<open>C32. The case-insensitive hash: \<open>siphash_nocase\<close> is \<open>siphash\<close> of the lower-cased input, so keys
  equal up to the case of ASCII letters have the same hash; with a key of 16 bytes neither function
  reads outside its arguments.\<close>

theorem siphash_nocase_correct:
  "siphash_nocase p k = siphash (map siptlw p) k \<and>
   (map siptlw p = map siptlw q \<longrightarrow> siphash_nocase p k = siphash_nocase q k) \<and>
   (16 \<le> length k \<longrightarrow> siphash p k \<noteq> None \<and> siphash_nocase p k \<noteq> None)"
  using siphash_total [of k p] siphash_total [of k "map siptlw p"] by (auto simp: siphash_nocase_eq)

text \<open>The checks of \<open>siphash_test\<close> for the case-insensitive version.\<close>

theorem siphash_nocase_correct_witness:
  "siphash_nocase [72, 69, 76, 76, 79, 32, 119] (map word_of_nat [49..<65]) =
     siphash [104, 101, 108, 108, 111, 32, 119] (map word_of_nat [49..<65]) \<and>
   siphash_nocase [72, 69, 76, 76, 79, 32, 119] (map word_of_nat [49..<65]) \<noteq> None \<and>
   siphash_nocase [72, 69, 76, 76, 79, 32, 119] (map word_of_nat [49..<65]) =
     siphash_nocase [104, 101, 108, 108, 111, 32, 119] (map word_of_nat [49..<65])"
  using siphash_nocase_correct [of "[72, 69, 76, 76, 79, 32, 119]" "map word_of_nat [49..<65]"
      "[104, 101, 108, 108, 111, 32, 119]"]
    siphash_nocase_correct [of "[104, 101, 108, 108, 111, 32, 119]" "map word_of_nat [49..<65]" "[]"]
  by (simp add: siptlw_def del: not_None_eq)

end
