(* ===== verification/T_Hash.thy ===== *)
theory T_Hash
  imports Dict_Map Listpack_Ops Siphash
begin

text \<open>
  Hash objects of \<^verbatim>\<open>t_hash.c\<close> without field expiration: a small hash is a listpack of alternating
  fields and values, a large one a dictionary, and the operations convert from the first to the
  second on the way.  The theory composes the models of \<open>listpack.c\<close> and \<open>dict.c\<close>: a hash object
  stands for a finite map from strings to strings, whatever its encoding.

  \<^term>\<open>None\<close> is a failed assertion, a panic, an access outside a buffer, or the use of the \<open>NULL\<close> that
  \<open>lpAppend\<close> returns when a listpack is full.
\<close>

section \<open>The model\<close>

text \<open>The configuration and the environment.\<close>

record hash_cfg =
  hash_max_listpack_entries :: nat
  hash_max_listpack_value :: nat
  hc_alloc :: lp_allocator
  dict_hash_function_seed :: bytes
  hc_can_resize :: dictResizeEnable
  hc_v0 :: bytes

text \<open>\<open>dictSdsHash\<close>, with the seed of 16 bytes.  The stored keys (\<open>hfield\<close>) and the looked-up ones (\<open>sds\<close>)
  are compared and hashed by their contents, so the \<open>stored\<close> variants of the functions are the same.\<close>

definition dictSdsHash :: "hash_cfg \<Rightarrow> bytes \<Rightarrow> 64 word" where
  "dictSdsHash cfg key =
     (case dictGenHashFunction (dict_hash_function_seed cfg) key of Some h \<Rightarrow> h | None \<Rightarrow> 0)"

definition dictSdsMstrKeyCompare :: "bytes \<Rightarrow> bytes \<Rightarrow> bool" where
  "dictSdsMstrKeyCompare sdsLookup mstrStored \<longleftrightarrow>
     \<not> length sdsLookup \<noteq> length mstrStored \<and> sdsLookup = mstrStored"

definition mstrHashDictType :: "hash_cfg \<Rightarrow> (bytes, bytes) dictType" where
  "mstrHashDictType cfg =
     \<lparr>hashFunction = dictSdsHash cfg, keyDup = None, valDup = None,
      keyCompare = Some dictSdsMstrKeyCompare, resizeAllowed = None\<rparr>"

datatype hashobj = HashLp bytes | HashHt "(bytes, bytes) dict"

definition hashTypeLength :: "hashobj \<Rightarrow> (nat \<times> hashobj) option" where
  "hashTypeLength ob =
     (case ob of
        HashLp zl \<Rightarrow> do { (n, zl) \<leftarrow> lpLength zl; Some (n div 2, HashLp zl) }
      | HashHt d \<Rightarrow> Some (dictSize d, ob))"

text \<open>The search for a field; \<open>None\<close> inside is \<open>NULL\<close>.\<close>

definition hash_lp_find :: "bytes \<Rightarrow> bytes \<Rightarrow> nat option option" where
  "hash_lp_find zl field = do {
     fptr \<leftarrow> lpFirst zl;
     (case fptr of
        None \<Rightarrow> Some None
      | Some fptr \<Rightarrow> lpFind zl (Some fptr) field 1)
   }"

definition hash_lp_value :: "bytes \<Rightarrow> nat \<Rightarrow> nat option" where
  "hash_lp_value zl fptr = do { vptr \<leftarrow> lpNext zl fptr; vptr }"

text \<open>The value of a field: \<open>vstr\<close> and \<open>vlen\<close>, or \<open>vll\<close> when \<open>vstr\<close> is \<open>NULL\<close>.\<close>

datatype hashval = Vstr bytes | Vll int

definition lpGetValue :: "bytes \<Rightarrow> hashval option" where
  "lpGetValue p = do {
     v \<leftarrow> lpGet p;
     (case v of
        LpStr off n \<Rightarrow> map_option Vstr (mem_read p off n)
      | LpInt ll \<Rightarrow> Some (Vll ll))
   }"

definition hashTypeGetFromListpack :: "bytes \<Rightarrow> bytes \<Rightarrow> hashval option option" where
  "hashTypeGetFromListpack zl field = do {
     fptr \<leftarrow> hash_lp_find zl field;
     (case fptr of
        None \<Rightarrow> Some None
      | Some fptr \<Rightarrow> do {
          vptr \<leftarrow> hash_lp_value zl fptr;
          v \<leftarrow> lpGetValue (drop vptr zl);
          Some (Some v) })
   }"

definition hashTypeGetFromHashTable ::
    "hash_cfg \<Rightarrow> (bytes, bytes) dict \<Rightarrow> bytes \<Rightarrow> (bytes option \<times> (bytes, bytes) dict) option" where
  "hashTypeGetFromHashTable cfg d field = do {
     (de, d) \<leftarrow> dictFind (hc_can_resize cfg) d field;
     (case de of
        None \<Rightarrow> Some (None, d)
      | Some de \<Rightarrow> do { v \<leftarrow> dictGetVal d de; Some (Some v, d) })
   }"

definition hashTypeGetValue :: "hash_cfg \<Rightarrow> hashobj \<Rightarrow> bytes \<Rightarrow> (hashval option \<times> hashobj) option" where
  "hashTypeGetValue cfg ob field =
     (case ob of
        HashLp zl \<Rightarrow> do { v \<leftarrow> hashTypeGetFromListpack zl field; Some (v, ob) }
      | HashHt d \<Rightarrow> do {
          (v, d) \<leftarrow> hashTypeGetFromHashTable cfg d field;
          Some (map_option Vstr v, HashHt d) })"

text \<open>A new string object with the value.\<close>

definition sdsfromlonglong :: "int \<Rightarrow> bytes option" where
  "sdsfromlonglong val = do {
     (len, buf) \<leftarrow> ll2string (replicate LONG_STR_SIZE 0) val;
     Some (take len buf)
   }"

definition hashval_string :: "hashval \<Rightarrow> bytes option" where
  "hashval_string v = (case v of Vstr s \<Rightarrow> Some s | Vll ll \<Rightarrow> sdsfromlonglong ll)"

definition hashTypeGetValueObject :: "hash_cfg \<Rightarrow> hashobj \<Rightarrow> bytes \<Rightarrow> (bytes option \<times> hashobj) option" where
  "hashTypeGetValueObject cfg ob field = do {
     (v, ob) \<leftarrow> hashTypeGetValue cfg ob field;
     (case v of
        None \<Rightarrow> Some (None, ob)
      | Some v \<Rightarrow> do { s \<leftarrow> hashval_string v; Some (Some s, ob) })
   }"

definition hashTypeExists :: "hash_cfg \<Rightarrow> hashobj \<Rightarrow> bytes \<Rightarrow> (bool \<times> hashobj) option" where
  "hashTypeExists cfg ob field = do {
     (v, ob) \<leftarrow> hashTypeGetValue cfg ob field;
     Some (v \<noteq> None, ob)
   }"

text \<open>The iterator over a listpack: the pointers to the current field and value.\<close>

definition hashTypeNext_lp :: "bytes \<Rightarrow> (nat \<times> nat) option \<Rightarrow> (nat \<times> nat) option option" where
  "hashTypeNext_lp zl cur = do {
     fptr \<leftarrow> (case cur of None \<Rightarrow> lpFirst zl | Some (fptr, vptr) \<Rightarrow> lpNext zl vptr);
     (case fptr of
        None \<Rightarrow> Some None
      | Some fptr \<Rightarrow> do { vptr \<leftarrow> hash_lp_value zl fptr; Some (Some (fptr, vptr)) })
   }"

definition hashTypeCurrent_string :: "bytes \<Rightarrow> nat \<Rightarrow> bytes option" where
  "hashTypeCurrent_string zl p = do { v \<leftarrow> lpGetValue (drop p zl); hashval_string v }"

partial_function (option) hashTypeConvert_loop ::
  "hash_cfg \<Rightarrow> bytes \<Rightarrow> (nat \<times> nat) option \<Rightarrow> (bytes, bytes) dict \<Rightarrow> (bytes, bytes) dict option" where
  "hashTypeConvert_loop cfg zl cur d = do {
     nxt \<leftarrow> hashTypeNext_lp zl cur;
     (case nxt of
        None \<Rightarrow> Some d
      | Some fv \<Rightarrow> do {
          key \<leftarrow> hashTypeCurrent_string zl (fst fv);
          val \<leftarrow> hashTypeCurrent_string zl (snd fv);
          (ret, d) \<leftarrow> dictAdd (hc_can_resize cfg) d key (hc_v0 cfg) val;
          if \<not> ret then None else hashTypeConvert_loop cfg zl (Some fv) d })
   }"

declare hashTypeConvert_loop.simps [code]

text \<open>The conversion to \<open>OBJ_ENCODING_HT\<close>.\<close>

definition hashTypeConvertListpack :: "hash_cfg \<Rightarrow> bytes \<Rightarrow> hashobj option" where
  "hashTypeConvertListpack cfg zl = do {
     (n, ob) \<leftarrow> hashTypeLength (HashLp zl);
     (_, d) \<leftarrow> dictExpand (dictCreate (mstrHashDictType cfg)) n;
     (case ob of
        HashLp zl \<Rightarrow> map_option HashHt (hashTypeConvert_loop cfg zl None d)
      | HashHt _ \<Rightarrow> None)
   }"

definition hashTypeConvert :: "hash_cfg \<Rightarrow> hashobj \<Rightarrow> hashobj option" where
  "hashTypeConvert cfg ob = (case ob of HashLp zl \<Rightarrow> hashTypeConvertListpack cfg zl | HashHt _ \<Rightarrow> None)"

text \<open>\<open>NULL\<close> from \<open>lpAppend\<close> or \<open>lpReplace\<close> is not checked by the code.\<close>

definition lp_result :: "(bytes \<times> nat option) option option \<Rightarrow> bytes option" where
  "lp_result r = do { x \<leftarrow> r; (case x of None \<Rightarrow> None | Some (lp, _) \<Rightarrow> Some lp) }"

definition hash_lp_set :: "hash_cfg \<Rightarrow> bytes \<Rightarrow> bytes \<Rightarrow> bytes \<Rightarrow> (bool \<times> bytes) option" where
  "hash_lp_set cfg zl field val = do {
     fptr \<leftarrow> hash_lp_find zl field;
     (case fptr of
        Some fptr \<Rightarrow> do {
          vptr \<leftarrow> hash_lp_value zl fptr;
          zl \<leftarrow> lp_result (lpReplace (hc_alloc cfg) zl vptr val);
          Some (True, zl) }
      | None \<Rightarrow> do {
          zl \<leftarrow> lp_result (lpAppend (hc_alloc cfg) zl field);
          zl \<leftarrow> lp_result (lpAppend (hc_alloc cfg) zl val);
          Some (False, zl) })
   }"

definition hash_ht_set ::
    "hash_cfg \<Rightarrow> (bytes, bytes) dict \<Rightarrow> bytes \<Rightarrow> bytes \<Rightarrow> bool \<Rightarrow> (bool \<times> (bytes, bytes) dict) option" where
  "hash_ht_set cfg ht newField val keep_ttl = do {
     (r, ht) \<leftarrow> dictAddRaw (hc_can_resize cfg) ht newField (hc_v0 cfg);
     (update, de, ht) \<leftarrow>
       (case r of
          Inl existing \<Rightarrow>
            if keep_ttl then Some (True, existing, ht)
            else do { ht \<leftarrow> dictSetKey ht existing newField; Some (True, existing, ht) }
        | Inr de \<Rightarrow> Some (False, de, ht));
     ht \<leftarrow> dictSetVal ht de val;
     Some (update, ht)
   }"

text \<open>Returns \<open>update\<close>; \<open>keep_ttl\<close> is the flag \<open>HASH_SET_KEEP_TTL\<close>.\<close>

definition hashTypeSet :: "hash_cfg \<Rightarrow> hashobj \<Rightarrow> bytes \<Rightarrow> bytes \<Rightarrow> bool \<Rightarrow> (bool \<times> hashobj) option" where
  "hashTypeSet cfg ob field val keep_ttl = do {
     ob \<leftarrow> (case ob of
             HashLp zl \<Rightarrow>
               if length field > hash_max_listpack_value cfg \<or> length val > hash_max_listpack_value cfg
               then hashTypeConvert cfg ob else Some ob
           | HashHt _ \<Rightarrow> Some ob);
     (case ob of
        HashLp zl \<Rightarrow> do {
          (update, zl) \<leftarrow> hash_lp_set cfg zl field val;
          (n, ob) \<leftarrow> hashTypeLength (HashLp zl);
          ob \<leftarrow> (if n > hash_max_listpack_entries cfg then hashTypeConvert cfg ob else Some ob);
          Some (update, ob) }
      | HashHt d \<Rightarrow> do {
          (update, d) \<leftarrow> hash_ht_set cfg d field val keep_ttl;
          Some (update, HashHt d) })
   }"

definition hashTypeDelete :: "hash_cfg \<Rightarrow> hashobj \<Rightarrow> bytes \<Rightarrow> (bool \<times> hashobj) option" where
  "hashTypeDelete cfg ob field =
     (case ob of
        HashLp zl \<Rightarrow> do {
          fptr \<leftarrow> hash_lp_find zl field;
          (case fptr of
             None \<Rightarrow> Some (False, ob)
           | Some fptr \<Rightarrow> do {
               (zl, _) \<leftarrow> lpDeleteRangeWithEntry (hc_alloc cfg) zl fptr 2;
               Some (True, HashLp zl) }) }
      | HashHt d \<Rightarrow> do {
          (deleted, d) \<leftarrow> dictDelete (hc_can_resize cfg) d field;
          Some (deleted, HashHt d) })"

text \<open>The arguments are all strings (\<open>sdsEncodedObject\<close>).\<close>

fun hash_try_args :: "hash_cfg \<Rightarrow> bytes list \<Rightarrow> nat \<Rightarrow> nat option" where
  "hash_try_args cfg [] sz = Some sz"
| "hash_try_args cfg (a # as) sz =
     (if length a > hash_max_listpack_value cfg then None else hash_try_args cfg as (ulong_add sz (length a)))"

definition hashTypeTryConversion :: "hash_cfg \<Rightarrow> hashobj \<Rightarrow> bytes list \<Rightarrow> hashobj option" where
  "hashTypeTryConversion cfg ob args =
     (case ob of
        HashHt _ \<Rightarrow> Some ob
      | HashLp zl \<Rightarrow>
          let new_fields = length args div 2 in
          if new_fields > hash_max_listpack_entries cfg then do {
            ob \<leftarrow> hashTypeConvert cfg ob;
            (case ob of
               HashHt d \<Rightarrow> do { (_, d) \<leftarrow> dictExpand d new_fields; Some (HashHt d) }
             | HashLp _ \<Rightarrow> None)
          }
          else
            (case hash_try_args cfg args 0 of
               None \<Rightarrow> hashTypeConvert cfg ob
             | Some sz \<Rightarrow> do {
                 safe \<leftarrow> lpSafeToAdd (Some zl) sz;
                 if \<not> safe then hashTypeConvert cfg ob else Some ob }))"

section \<open>Pairs in a listpack\<close>

definition lp_flat :: "(lpele \<times> lpele) list \<Rightarrow> lpele list" where
  "lp_flat ps = concat (map (\<lambda>(f, v). [f, v]) ps)"

lemma lp_flat_simps [simp]:
  "lp_flat [] = []" "lp_flat (p # ps) = fst p # snd p # lp_flat ps" "lp_flat (ps @ qs) = lp_flat ps @ lp_flat qs"
  by (simp_all add: lp_flat_def split_beta)

lemma length_lp_flat [simp]: "length (lp_flat ps) = 2 * length ps"
  by (induction ps) simp_all

lemma lp_flat_nth [simp]:
  "i < length ps \<Longrightarrow> lp_flat ps ! (2 * i) = fst (ps ! i)"
  "i < length ps \<Longrightarrow> lp_flat ps ! Suc (2 * i) = snd (ps ! i)"
proof (induction ps arbitrary: i)
  case (Cons p ps)
  { case 1 then show ?case using Cons.IH(1) by (cases i) simp_all }
  { case 2 then show ?case using Cons.IH(2) by (cases i) simp_all }
qed simp_all

lemma lp_flat_take: "take (2 * i) (lp_flat ps) = lp_flat (take i ps)"
proof (induction ps arbitrary: i)
  case (Cons p ps)
  then show ?case by (cases i) simp_all
qed simp

lemma lp_flat_drop: "drop (2 * i) (lp_flat ps) = lp_flat (drop i ps)"
proof (induction ps arbitrary: i)
  case (Cons p ps)
  then show ?case by (cases i) simp_all
qed simp

lemma lp_flat_update: "i < length ps \<Longrightarrow> (lp_flat ps)[Suc (2 * i) := e] = lp_flat (ps[i := (fst (ps ! i), e)])"
proof (induction ps arbitrary: i)
  case (Cons p ps)
  then show ?case by (cases i) simp_all
qed simp

lemma find_append: "find P (xs @ ys) = (case find P xs of Some x \<Rightarrow> Some x | None \<Rightarrow> find P ys)"
  by (induction xs) simp_all

lemma find_even:
  "find (\<lambda>j. j mod 2 = 0 \<and> P j) [0..<2 * n] = map_option ((*) 2) (find (\<lambda>i. P (2 * i)) [0..<n])"
proof (induction n)
  case (Suc n)
  have e: "[0..<2 * Suc n] = [0..<2 * n] @ [2 * n, Suc (2 * n)]" by simp
  have "\<not> Suc (2 * n) mod 2 = 0" by presburger
  then show ?case unfolding e find_append Suc.IH by (simp add: find_append split: option.split)
qed simp

definition lp_assoc :: "(lpele \<times> lpele) list \<Rightarrow> (bytes \<times> bytes) list" where
  "lp_assoc ps = map (map_prod lpele_str lpele_str) ps"

definition hash_lp_rep :: "bytes \<Rightarrow> (lpele \<times> lpele) list \<Rightarrow> bool" where
  "hash_lp_rep zl ps \<longleftrightarrow> lp_rep zl (lp_flat ps) \<and> distinct (map fst (lp_assoc ps))"

lemma find_upt_cases:
  "(case find P [0..<n] of None \<Rightarrow> \<forall>i < n. \<not> P i | Some i \<Rightarrow> i < n \<and> P i)"
  by (auto simp: find_None_iff find_Some_iff split: option.split)

text \<open>Searching a field gives its index in the list of pairs.\<close>

lemma hash_lp_find_rep:
  assumes "hash_lp_rep zl ps"
  obtains (missing) "hash_lp_find zl field = Some None" "map_of (lp_assoc ps) field = None"
  | (found) i where "hash_lp_find zl field = Some (Some (lp_off (lp_flat ps) (2 * i)))" "i < length ps"
      "lpele_str (fst (ps ! i)) = field" "map_of (lp_assoc ps) field = Some (lpele_str (snd (ps ! i)))"
proof -
  have rep: "lp_rep zl (lp_flat ps)" and dis: "distinct (map fst (lp_assoc ps))"
    using assms by (simp_all add: hash_lp_rep_def)
  let ?r = "find (\<lambda>i. lpele_str (lp_flat ps ! (2 * i)) = field) [0..<length ps]"
  have f: "hash_lp_find zl field = Some (map_option (\<lambda>i. lp_off (lp_flat ps) (2 * i)) ?r)"
  proof (cases "ps = []")
    case False
    then have "lpFirst zl = Some (Some (lp_off (lp_flat ps) 0))" "0 < length (lp_flat ps)"
      using lpFirst_rep [OF rep] by (auto simp: lp_ptr_def)
    then show ?thesis using lpFind_rep(1) [OF rep, of 0 field 1]
      by (simp add: hash_lp_find_def find_even option.map_comp comp_def numeral_2_eq_2 [symmetric] del: lp_off_0)
  qed (use lpFirst_rep [OF rep] in \<open>simp add: hash_lp_find_def lp_ptr_def\<close>)
  show thesis
  proof (cases ?r)
    case None
    then have "\<forall>i < length ps. lpele_str (fst (ps ! i)) \<noteq> field"
      using find_upt_cases [where P = "\<lambda>i. lpele_str (lp_flat ps ! (2 * i)) = field" and n = "length ps"] by simp
    then have "map_of (lp_assoc ps) field = None"
      by (force simp: map_of_eq_None_iff lp_assoc_def in_set_conv_nth)
    then show ?thesis using f None missing by simp
  next
    case (Some i)
    then have i: "i < length ps" "lpele_str (fst (ps ! i)) = field"
      using find_upt_cases [where P = "\<lambda>i. lpele_str (lp_flat ps ! (2 * i)) = field" and n = "length ps"] by auto
    then have "(field, lpele_str (snd (ps ! i))) \<in> set (lp_assoc ps)"
      by (force simp: lp_assoc_def in_set_conv_nth)
    then show ?thesis using f Some i found dis by simp
  qed
qed

lemma hash_lp_value_rep:
  assumes "hash_lp_rep zl ps" "i < length ps"
  shows "hash_lp_value zl (lp_off (lp_flat ps) (2 * i)) = Some (lp_off (lp_flat ps) (Suc (2 * i)))"
  using assms lpNext_rep [of zl "lp_flat ps" "2 * i"]
  by (simp add: hash_lp_rep_def hash_lp_value_def lp_ptr_def)

definition ele_val :: "lpele \<Rightarrow> hashval" where
  "ele_val e = (case e of LInt v \<Rightarrow> Vll v | LStr s \<Rightarrow> Vstr s)"

lemma lpGetValue_rep:
  assumes "lp_rep lp es" "i < length es"
  shows "lpGetValue (drop (lp_off es i) lp) = Some (ele_val (es ! i))"
proof -
  have ok: "lpele_ok (es ! i)" by (rule lp_rep_ok [OF assms])
  obtain r where r: "drop (lp_off es i) lp = lp_entry (es ! i) @ r" using lp_rep_drop [OF assms] by blast
  obtain x where x: "lpGet (lp_entry (es ! i) @ r) = Some x"
    "case es ! i of LInt v \<Rightarrow> x = LpInt v
     | LStr s \<Rightarrow> \<exists>off. x = LpStr off (length s) \<and> mem_read (lp_entry (es ! i) @ r) off (length s) = Some s"
    using lpGetWithSize_entry [OF ok, of r] by (auto simp: lpGet_def)
  then show ?thesis unfolding r
    by (cases "es ! i") (auto simp: lpGetValue_def ele_val_def)
qed

lemma sdsfromlonglong_eq: "in_int64 v \<Longrightarrow> sdsfromlonglong v = Some (sdec v)"
  using length_sdec [of v] ll2string_ok [of v] by (simp add: sdsfromlonglong_def)

lemma hashval_string_ele: "lpele_ok e \<Longrightarrow> hashval_string (ele_val e) = Some (lpele_str e)"
  by (cases e) (simp_all add: hashval_string_def ele_val_def sdsfromlonglong_eq)

lemma hashTypeCurrent_string_rep:
  assumes "lp_rep lp es" "i < length es"
  shows "hashTypeCurrent_string lp (lp_off es i) = Some (lpele_str (es ! i))"
  using lpGetValue_rep [OF assms] hashval_string_ele [OF lp_rep_ok [OF assms]]
  by (simp add: hashTypeCurrent_string_def)

section \<open>The conversion to a hash table\<close>

text \<open>The position of the iterator before it reads the pair with index \<open>i\<close>.\<close>

definition hash_cur :: "(lpele \<times> lpele) list \<Rightarrow> nat \<Rightarrow> (nat \<times> nat) option" where
  "hash_cur ps i = (case i of 0 \<Rightarrow> None
     | Suc j \<Rightarrow> Some (lp_off (lp_flat ps) (2 * j), lp_off (lp_flat ps) (Suc (2 * j))))"

lemma hashTypeNext_lp_rep:
  assumes "hash_lp_rep zl ps" "i \<le> length ps"
  shows "hashTypeNext_lp zl (hash_cur ps i) = Some (if i < length ps then hash_cur ps (Suc i) else None)"
proof -
  have rep: "lp_rep zl (lp_flat ps)" using assms by (simp add: hash_lp_rep_def)
  have "(case hash_cur ps i of None \<Rightarrow> lpFirst zl | Some (fptr, vptr) \<Rightarrow> lpNext zl vptr) =
      Some (lp_ptr (lp_flat ps) (2 * i))"
  proof (cases i)
    case (Suc j)
    then show ?thesis using lpNext_rep [OF rep, of "Suc (2 * j)"] assms(2) by (simp add: hash_cur_def)
  qed (simp add: hash_cur_def lpFirst_rep [OF rep])
  then show ?thesis using hash_lp_value_rep [OF assms(1), of i]
    by (simp add: hashTypeNext_lp_def lp_ptr_def hash_cur_def)
qed

lemma lp_assoc_simps [simp]:
  "lp_assoc [] = []" "length (lp_assoc ps) = length ps" "lp_assoc (ps @ qs) = lp_assoc ps @ lp_assoc qs"
  "lp_assoc (p # ps) = (lpele_str (fst p), lpele_str (snd p)) # lp_assoc ps"
  by (simp_all add: lp_assoc_def map_prod_def split_beta)

lemma map_of_take_Suc:
  assumes "distinct (map fst xs)" "i < length xs"
  shows "map_of (take i xs) (fst (xs ! i)) = None"
    "map_of (take (Suc i) xs) = (map_of (take i xs))(fst (xs ! i) \<mapsto> snd (xs ! i))"
proof -
  have "xs = take i xs @ xs ! i # drop (Suc i) xs" using assms(2) by (rule id_take_nth_drop)
  then have "distinct (map fst (take i xs @ xs ! i # drop (Suc i) xs))" using assms(1) by simp
  then have "fst (xs ! i) \<notin> set (map fst (take i xs))" by (simp only: map_append distinct_append list.map distinct.simps) auto
  then show n: "map_of (take i xs) (fst (xs ! i)) = None" by (simp add: map_of_eq_None_iff)
  show "map_of (take (Suc i) xs) = (map_of (take i xs))(fst (xs ! i) \<mapsto> snd (xs ! i))"
  proof (rule ext)
    fix k
    show "map_of (take (Suc i) xs) k = ((map_of (take i xs))(fst (xs ! i) \<mapsto> snd (xs ! i))) k"
      using n by (cases "k = fst (xs ! i)")
        (simp_all add: take_Suc_conv_app_nth [OF assms(2)] map_add_def split: option.split)
  qed
qed

lemma lp_assoc_take: "lp_assoc (take i ps) = take i (lp_assoc ps)"
  by (simp add: lp_assoc_def take_map)

lemma card_map_of_le: "card (dom (map_of xs)) \<le> length xs"
  by (metis card_length dom_map_of_conv_image_fst length_map list.set_map)

lemma hashTypeConvert_loop_rep:
  assumes rep: "hash_lp_rep zl ps" and "i \<le> length ps" "dict_rep d (map_of (take i (lp_assoc ps)))"
  shows "\<exists>d'. hashTypeConvert_loop cfg zl (hash_cur ps i) d = Some d' \<and> dict_rep d' (map_of (lp_assoc ps))"
  using assms(2,3)
proof (induction "length ps - i" arbitrary: i d)
  case 0
  then show ?case using hashTypeNext_lp_rep [OF rep, of i]
    by (subst hashTypeConvert_loop.simps) simp
next
  case (Suc n)
  then have i: "i < length ps" and n: "n = length ps - Suc i" by linarith+
  have lp: "lp_rep zl (lp_flat ps)" and dis: "distinct (map fst (lp_assoc ps))"
    using rep by (simp_all add: hash_lp_rep_def)
  let ?k = "lpele_str (fst (ps ! i))" and ?v = "lpele_str (snd (ps ! i))"
  have nth: "lp_assoc ps ! i = (?k, ?v)" using i by (simp add: lp_assoc_def map_prod_def split_beta)
  note T = map_of_take_Suc [OF dis, of i, unfolded nth]
  have s: "hashTypeCurrent_string zl (lp_off (lp_flat ps) (2 * i)) = Some ?k"
    "hashTypeCurrent_string zl (lp_off (lp_flat ps) (Suc (2 * i))) = Some ?v"
    using hashTypeCurrent_string_rep [OF lp] i by simp_all
  have "card (dom (map_of (take i (lp_assoc ps)))) \<le> length ps"
    using card_map_of_le [of "take i (lp_assoc ps)"] by simp
  then have "card (dom (dict_map d)) < 2 ^ 64 - 1"
    using Suc.prems(2) length_es_bound(2) [OF lp] by (simp add: dict_rep_def)
  then obtain d1 where d1: "dictAdd (hc_can_resize cfg) d ?k (hc_v0 cfg) ?v = Some (True, d1)"
    "dict_rep d1 (map_of (take (Suc i) (lp_assoc ps)))"
    using dictAdd_ok [of d "hc_can_resize cfg" ?k "hc_v0 cfg" ?v] Suc.prems(2) T i by (auto simp: dict_rep_def)
  obtain d' where "hashTypeConvert_loop cfg zl (hash_cur ps (Suc i)) d1 = Some d'" "dict_rep d' (map_of (lp_assoc ps))"
    using Suc.hyps(1) [of "Suc i" d1] n i d1(2) by auto
  then show ?case using hashTypeNext_lp_rep [OF rep, of i] i s d1(1)
    by (subst hashTypeConvert_loop.simps) (simp add: hash_cur_def)
qed

definition hash_cfg_ok :: "hash_cfg \<Rightarrow> bool" where
  "hash_cfg_ok cfg \<longleftrightarrow> lp_allocator_ok (hc_alloc cfg)"

lemma mstrHashDictType_ok: "dictType_ok (mstrHashDictType cfg)"
  by (simp add: dictType_ok_def mstrHashDictType_def dict_dup_def dictSdsMstrKeyCompare_def)

lemma dictCreate_rep:
  assumes "dictType_ok ty" shows "dict_rep (dictCreate ty) Map.empty"
  using assms by (auto simp: dict_rep_def dict_usable_def dict_ok_def dictCreate_def dict_map_def dict_entries_def
      table_entries_def table_ok_def DICTHT_SIZE_def)

lemma dictExpand_rep:
  assumes "dict_rep d m" shows "\<exists>st d'. dictExpand d n = Some (st, d') \<and> dict_rep d' m"
proof -
  have u: "dict_usable d" and m: "m = dict_map d" using assms by (simp_all add: dict_rep_def)
  then obtain st d' where d': "dictExpand d n = Some (st, d')" "dict_step d d'"
    using dictExpand_ok [of d n] by (auto simp: dict_usable_def)
  then show ?thesis using dict_step_usable [OF u d'(2)] dict_step_map [OF d'(2)]
    by (simp add: dict_rep_def m)
qed

lemma hashTypeConvertListpack_rep:
  assumes "hash_lp_rep zl ps"
  shows "\<exists>d. hashTypeConvertListpack cfg zl = Some (HashHt d) \<and> dict_rep d (map_of (lp_assoc ps))"
proof -
  obtain zl' where zl': "lpLength zl = Some (2 * length ps, zl')" "hash_lp_rep zl' ps"
    using lpLength_rep [of zl "lp_flat ps"] assms by (auto simp: hash_lp_rep_def)
  obtain st d where d: "dictExpand (dictCreate (mstrHashDictType cfg)) (length ps) = Some (st, d)" "dict_rep d Map.empty"
    using dictExpand_rep [OF dictCreate_rep [OF mstrHashDictType_ok]] by blast
  obtain d' where d': "hashTypeConvert_loop cfg zl' None d = Some d'" "dict_rep d' (map_of (lp_assoc ps))"
    using hashTypeConvert_loop_rep [OF zl'(2), of 0 d cfg] d(2) by (auto simp: hash_cur_def)
  then show ?thesis using zl' d by (simp add: hashTypeConvertListpack_def hashTypeLength_def)
qed

section \<open>Updates\<close>

lemma map_of_list_update:
  "distinct (map fst xs) \<Longrightarrow> i < length xs \<Longrightarrow>
   map_of (xs[i := (fst (xs ! i), v)]) = (map_of xs)(fst (xs ! i) \<mapsto> v)"
proof (induction xs arbitrary: i)
  case (Cons x xs)
  show ?case
  proof (cases i)
    case (Suc j)
    then have "fst (xs ! j) \<noteq> fst x" using Cons.prems by simp (metis image_eqI nth_mem)
    then show ?thesis using Cons Suc by (auto simp: fun_eq_iff)
  qed (auto simp: fun_eq_iff)
qed simp

lemma map_of_delete:
  "distinct (map fst xs) \<Longrightarrow> i < length xs \<Longrightarrow>
   map_of (take i xs @ drop (Suc i) xs) = (map_of xs)(fst (xs ! i) := None)"
proof (induction xs arbitrary: i)
  case (Cons x xs)
  show ?case
  proof (cases i)
    case 0
    then show ?thesis using Cons.prems by (auto simp: fun_eq_iff map_of_eq_None_iff)
  next
    case (Suc j)
    then have "fst (xs ! j) \<noteq> fst x" using Cons.prems by simp (metis image_eqI nth_mem)
    then show ?thesis using Cons Suc by (auto simp: fun_eq_iff)
  qed
qed simp

lemma map_of_snoc: "map_of xs k = None \<Longrightarrow> map_of (xs @ [(k, v)]) = (map_of xs)(k \<mapsto> v)"
  by (auto simp: map_add_def fun_eq_iff split: option.split)

lemma lpele_str_str_ele [simp]: "lpele_str (str_ele s) = s"
  using string2ll_sound by (fastforce simp: str_ele_def split: option.splits)

lemma length_lp_entry_le: "length (lp_entry e) \<le> length (lpele_str e) + 14"
proof -
  have b: "length (lpEncodeBacklen n) \<le> 5" for n using length_lpEncodeBacklen [of n] by simp
  have "length (lp_enc e) \<le> length (lpele_str e) + 9"
  proof (cases e)
    case (LStr s)
    then show ?thesis by (simp add: lpEncodeString_def Let_def)
  next
    case (LInt v)
    then show ?thesis using int_shape [of v] by auto
  qed
  then show ?thesis using b [of "length (lp_enc e)"] by (simp add: lp_entry_def)
qed

lemma length_lp_entry_str: "length (lp_entry (str_ele s)) \<le> length s + 14"
  using length_lp_entry_le [of "str_ele s"] by simp

text \<open>Room for a field and a value, whatever their encoding in the listpack.\<close>

definition hash_cost :: "bytes \<Rightarrow> bytes \<Rightarrow> nat" where
  "hash_cost field val = length field + length val + 28"

lemma lp_append_str:
  assumes "lp_allocator_ok A" "lp_rep zl es" "lp_total es + length s + 14 < 2 ^ 32"
  shows "\<exists>zl'. lp_result (lpAppend A zl s) = Some zl' \<and> lp_rep zl' (es @ [str_ele s])"
    "lp_total (es @ [str_ele s]) \<le> lp_total es + length s + 14"
proof -
  show t: "lp_total (es @ [str_ele s]) \<le> lp_total es + length s + 14"
    using length_lp_entry_str [of s] by (simp add: lp_total_def)
  have "lpe_ok (LpeSval s)" using assms(3) by (simp add: lpe_ok_def lp_total_def)
  then show "\<exists>zl'. lp_result (lpAppend A zl s) = Some zl' \<and> lp_rep zl' (es @ [str_ele s])"
    using lpInsert_before [OF assms(1,2), of "length es" "LpeSval s"] t assms(3)
    by (auto simp: lpAppend_prepend_eq(1) [OF assms(2)] lp_result_def lpe_ele_def)
qed

lemma lp_replace_str:
  assumes "lp_allocator_ok A" "lp_rep zl es" "lp_total es + length s + 14 < 2 ^ 32" "i < length es"
  shows "\<exists>zl'. lp_result (lpReplace A zl (lp_off es i) s) = Some zl' \<and> lp_rep zl' (es[i := str_ele s])"
    "lp_total (es[i := str_ele s]) \<le> lp_total es + length s + 14"
proof -
  have u: "es[i := str_ele s] = take i es @ [str_ele s] @ drop (Suc i) es"
    using assms(4) by (simp add: upd_conv_take_nth_drop)
  show t: "lp_total (es[i := str_ele s]) \<le> lp_total es + length s + 14"
    using length_lp_entry_str [of s] lp_total_splice(1) [of i "Suc i" es "[str_ele s]"] assms(4) unfolding u by simp
  have "lpe_ok (LpeSval s)" using assms(3) by (simp add: lpe_ok_def lp_total_def)
  then show "\<exists>zl'. lp_result (lpReplace A zl (lp_off es i) s) = Some zl' \<and> lp_rep zl' (es[i := str_ele s])"
    using lpInsert_replace [OF assms(1,2,4), of "LpeSval s"] t assms(3)
    by (auto simp: lpReplace_def lp_result_def lpe_ele_def lpe_arg_def)
qed

lemma hash_lp_set_rep:
  assumes cfg: "hash_cfg_ok cfg" and rep: "hash_lp_rep zl ps"
    and room: "lp_total (lp_flat ps) + hash_cost field val < 2 ^ 32"
  shows "\<exists>zl' ps'. hash_lp_set cfg zl field val = Some (map_of (lp_assoc ps) field \<noteq> None, zl') \<and>
    hash_lp_rep zl' ps' \<and> map_of (lp_assoc ps') = (map_of (lp_assoc ps))(field \<mapsto> val) \<and>
    lp_total (lp_flat ps') \<le> lp_total (lp_flat ps) + hash_cost field val"
proof -
  have A: "lp_allocator_ok (hc_alloc cfg)" using cfg by (simp add: hash_cfg_ok_def)
  have lp: "lp_rep zl (lp_flat ps)" and dis: "distinct (map fst (lp_assoc ps))"
    using rep by (simp_all add: hash_lp_rep_def)
  show ?thesis
    using rep
  proof (cases rule: hash_lp_find_rep [where field = field])
    case missing
    define es1 where "es1 = lp_flat ps @ [str_ele field]"
    obtain zl1 where zl1: "lp_result (lpAppend (hc_alloc cfg) zl field) = Some zl1" "lp_rep zl1 es1"
      and t1: "lp_total es1 \<le> lp_total (lp_flat ps) + length field + 14"
      using lp_append_str [OF A lp, of field] room by (auto simp: es1_def hash_cost_def)
    have r1: "lp_total es1 + length val + 14 < 2 ^ 32" using t1 room by (simp add: hash_cost_def)
    obtain zl2 where zl2: "lp_result (lpAppend (hc_alloc cfg) zl1 val) = Some zl2" "lp_rep zl2 (es1 @ [str_ele val])"
      and t2: "lp_total (es1 @ [str_ele val]) \<le> lp_total es1 + length val + 14"
      using lp_append_str [OF A zl1(2) r1] by auto
    define ps' where "ps' = ps @ [(str_ele field, str_ele val)]"
    have f: "lp_flat ps' = es1 @ [str_ele val]" by (simp add: ps'_def es1_def)
    have "field \<notin> set (map fst (lp_assoc ps))" using missing(2) by (simp add: map_of_eq_None_iff)
    then have "hash_lp_rep zl2 ps'" using zl2(2) dis by (simp add: hash_lp_rep_def f) (simp add: ps'_def)
    moreover have "map_of (lp_assoc ps') = (map_of (lp_assoc ps))(field \<mapsto> val)"
      using map_of_snoc [OF missing(2), of val] by (simp add: ps'_def)
    moreover have "lp_total (lp_flat ps') \<le> lp_total (lp_flat ps) + hash_cost field val"
      using t1 t2 by (simp add: f hash_cost_def)
    moreover have "hash_lp_set cfg zl field val = Some (False, zl2)"
      using missing(1) zl1(1) zl2(1) by (simp add: hash_lp_set_def)
    ultimately show ?thesis using missing(2) by auto
  next
    case (found i)
    have i2: "Suc (2 * i) < length (lp_flat ps)" using found(2) by simp
    have r: "lp_total (lp_flat ps) + length val + 14 < 2 ^ 32" using room by (simp add: hash_cost_def)
    define ps' where "ps' = ps[i := (fst (ps ! i), str_ele val)]"
    have f: "(lp_flat ps)[Suc (2 * i) := str_ele val] = lp_flat ps'"
      unfolding ps'_def by (rule lp_flat_update [OF found(2)])
    obtain zl1 where zl1: "lp_result (lpReplace (hc_alloc cfg) zl (lp_off (lp_flat ps) (Suc (2 * i))) val) = Some zl1"
      "lp_rep zl1 (lp_flat ps')" and t: "lp_total (lp_flat ps') \<le> lp_total (lp_flat ps) + length val + 14"
      using lp_replace_str [OF A lp r i2] unfolding f by blast
    have nth: "lp_assoc ps ! i = (field, lpele_str (snd (ps ! i)))"
      using found(2,3) by (simp add: lp_assoc_def map_prod_def split_beta)
    have a: "lp_assoc ps' = (lp_assoc ps)[i := (fst (lp_assoc ps ! i), val)]"
      unfolding nth fst_conv using found(3) by (simp add: ps'_def lp_assoc_def map_update)
    have "map fst (lp_assoc ps') = map fst (lp_assoc ps)"
      using found(2) by (simp add: a map_update list_update_same_conv)
    then have "hash_lp_rep zl1 ps'" using zl1(2) dis by (simp add: hash_lp_rep_def)
    moreover have "map_of (lp_assoc ps') = (map_of (lp_assoc ps))(field \<mapsto> val)"
      using map_of_list_update [OF dis, of i val] found(2) unfolding a by (simp add: nth)
    moreover have "hash_lp_set cfg zl field val = Some (True, zl1)"
      using found(1) hash_lp_value_rep [OF rep found(2)] zl1(1) by (simp add: hash_lp_set_def)
    ultimately show ?thesis using found(4) t by (auto simp: hash_cost_def)
  qed
qed

section \<open>The hash object as a map\<close>

text \<open>A hash encoded as a listpack is within the configured limits.\<close>

definition hash_lp_limits :: "hash_cfg \<Rightarrow> (bytes \<Rightarrow> bytes option) \<Rightarrow> bool" where
  "hash_lp_limits cfg m \<longleftrightarrow> card (dom m) \<le> hash_max_listpack_entries cfg \<and>
     (\<forall>f v. m f = Some v \<longrightarrow>
        length f \<le> hash_max_listpack_value cfg \<and> length v \<le> hash_max_listpack_value cfg)"

definition hash_rep :: "hash_cfg \<Rightarrow> hashobj \<Rightarrow> (bytes \<Rightarrow> bytes option) \<Rightarrow> bool" where
  "hash_rep cfg ob m \<longleftrightarrow> hash_cfg_ok cfg \<and>
     (case ob of
        HashLp zl \<Rightarrow> (\<exists>ps. hash_lp_rep zl ps \<and> map_of (lp_assoc ps) = m) \<and> hash_lp_limits cfg m
      | HashHt d \<Rightarrow> dict_rep d m)"

definition hash_room :: "hashobj \<Rightarrow> (bytes \<times> bytes) list \<Rightarrow> bool" where
  "hash_room ob args \<longleftrightarrow>
     (case ob of
        HashLp zl \<Rightarrow> \<exists>t. lpBytes zl = Some t \<and> t + (\<Sum>(f, v) \<leftarrow> args. hash_cost f v) < 2 ^ 32
      | HashHt d \<Rightarrow> dict_room d args)"

lemma lpBytes_rep: "hash_lp_rep zl ps \<Longrightarrow> lpBytes zl = Some (lp_total (lp_flat ps))"
  by (simp add: hash_lp_rep_def lpBytes_def lp_rep_total)

lemma length_le_cost: "length args \<le> (\<Sum>(f, v) \<leftarrow> args. hash_cost f v)"
  by (induction args) (auto simp: hash_cost_def)

lemma hashTypeConvert_rep:
  assumes c: "hash_cfg_ok cfg" and ps: "hash_lp_rep zl ps" "map_of (lp_assoc ps) = m"
  shows "\<exists>d. hashTypeConvert cfg (HashLp zl) = Some (HashHt d) \<and> hash_rep cfg (HashHt d) m \<and>
    (\<forall>args. hash_room (HashLp zl) args \<longrightarrow> hash_room (HashHt d) args)"
proof -
  obtain d where d: "hashTypeConvertListpack cfg zl = Some (HashHt d)" "dict_rep d m"
    using hashTypeConvertListpack_rep [OF ps(1)] ps(2) by blast
  have "2 * (2 * length ps) + 7 \<le> lp_total (lp_flat ps)"
    using length_es_bound(1) [of zl "lp_flat ps"] ps(1) by (simp add: hash_lp_rep_def)
  moreover have "card (dom (dict_map d)) \<le> length ps"
    using card_map_of_le [of "lp_assoc ps"] d(2) ps(2) by (simp add: dict_rep_def)
  ultimately have r: "hash_room (HashHt d) args" if "hash_room (HashLp zl) args" for args
    using that lpBytes_rep [OF ps(1)] length_le_cost [of args]
    by (simp add: hash_room_def dict_room_def)
  show ?thesis using c d r by (simp add: hashTypeConvert_def hash_rep_def)
qed

lemma hash_ht_set_rep:
  assumes "dict_rep d m" "card (dom m) < 2 ^ 64 - 1"
  shows "\<exists>d'. hash_ht_set cfg d field val keep_ttl = Some (m field \<noteq> None, d') \<and> dict_rep d' (m(field \<mapsto> val))"
proof -
  have u: "dict_usable d" and m: "m = dict_map d" using assms by (simp_all add: dict_rep_def)
  obtain r d1 where *: "dictAddRaw (hc_can_resize cfg) d field (hc_v0 cfg) = Some (r, d1)" "dict_usable d1"
    "case r of
       Inl he \<Rightarrow> dict_map d field \<noteq> None \<and> dict_map d1 = dict_map d \<and> valid_ref d1 he \<and>
         (\<exists>v. dict_entry d1 he = Some (field, v))
     | Inr he \<Rightarrow> dict_map d field = None \<and> dict_map d1 = (dict_map d)(field \<mapsto> hc_v0 cfg) \<and>
         valid_ref d1 he \<and> dict_entry d1 he = Some (field, hc_v0 cfg)"
    using dictAddRaw_ok [OF u] assms(2) m by blast
  show ?thesis
  proof (cases r)
    case (Inr he)
    then show ?thesis using * dictSetVal_usable [OF *(2), of he field "hc_v0 cfg" val]
      by (auto simp: hash_ht_set_def m dict_rep_def)
  next
    case (Inl he)
    then obtain v1 where v1: "dict_entry d1 he = Some (field, v1)" "valid_ref d1 he" using * by auto
    then show ?thesis
      using Inl * dictSetKey_usable [OF *(2) v1(2,1)] dictSetVal_usable [OF *(2) v1(2,1), of val]
      by (auto simp: hash_ht_set_def m dict_rep_def)
  qed
qed

lemma hashTypeSet_ht:
  assumes "hash_rep cfg (HashHt d) m" "hash_room (HashHt d) ((field, val) # args)"
  shows "\<exists>ob'. hashTypeSet cfg (HashHt d) field val keep_ttl = Some (m field \<noteq> None, ob') \<and>
    hash_rep cfg ob' (m(field \<mapsto> val)) \<and> hash_room ob' args"
proof -
  have d: "dict_rep d m" and c: "hash_cfg_ok cfg" using assms by (auto simp: hash_rep_def)
  then have m: "m = dict_map d" by (simp add: dict_rep_def)
  have n: "card (dom m) + Suc (length args) \<le> 2 ^ 64 - 1"
    using assms(2) by (simp add: m hash_room_def dict_room_def)
  then obtain d' where d': "hash_ht_set cfg d field val keep_ttl = Some (m field \<noteq> None, d')" "dict_rep d' (m(field \<mapsto> val))"
    using hash_ht_set_rep [OF d, of cfg field val keep_ttl] by auto
  have "card (dom (m(field \<mapsto> val))) \<le> Suc (card (dom m))"
    using dict_finite_map [of d] by (simp add: m card_insert_if)
  then have "dict_room d' args" using n d'(2) by (simp add: dict_room_def dict_rep_def)
  then show ?thesis using c d' by (simp add: hashTypeSet_def hash_rep_def hash_room_def)
qed

lemma hashTypeLength_lp:
  assumes "hash_lp_rep zl ps"
  shows "\<exists>zl'. hashTypeLength (HashLp zl) = Some (length ps, HashLp zl') \<and> hash_lp_rep zl' ps"
proof -
  obtain zl' where "lpLength zl = Some (2 * length ps, zl')" "hash_lp_rep zl' ps"
    using lpLength_rep [of zl "lp_flat ps"] assms by (auto simp: hash_lp_rep_def)
  then show ?thesis by (simp add: hashTypeLength_def)
qed

lemma hashTypeSet_rep:
  assumes rep: "hash_rep cfg ob m" and room: "hash_room ob ((field, val) # args)"
  shows "\<exists>ob'. hashTypeSet cfg ob field val keep_ttl = Some (m field \<noteq> None, ob') \<and>
    hash_rep cfg ob' (m(field \<mapsto> val)) \<and> hash_room ob' args"
proof (cases ob)
  case (HashHt d)
  then show ?thesis using hashTypeSet_ht rep room by blast
next
  case (HashLp zl)
  obtain ps where ps: "hash_lp_rep zl ps" "map_of (lp_assoc ps) = m" and c: "hash_cfg_ok cfg"
    and lim: "hash_lp_limits cfg m"
    using rep HashLp by (auto simp: hash_rep_def)
  obtain d where d: "hashTypeConvert cfg ob = Some (HashHt d)" "hash_rep cfg (HashHt d) m"
    "hash_room (HashHt d) ((field, val) # args)"
    using hashTypeConvert_rep [OF c ps] room HashLp by blast
  show ?thesis
  proof (cases "length field > hash_max_listpack_value cfg \<or> length val > hash_max_listpack_value cfg")
    case True
    then have "hashTypeSet cfg ob field val keep_ttl = hashTypeSet cfg (HashHt d) field val keep_ttl"
      using d(1) HashLp by (simp add: hashTypeSet_def)
    then show ?thesis using hashTypeSet_ht [OF d(2,3)] by simp
  next
    case False
    have t: "lp_total (lp_flat ps) + (hash_cost field val + (\<Sum>(f, v) \<leftarrow> args. hash_cost f v)) < 2 ^ 32"
      using room HashLp lpBytes_rep [OF ps(1)] by (simp add: hash_room_def)
    then obtain zl1 ps' where zl1: "hash_lp_set cfg zl field val = Some (m field \<noteq> None, zl1)"
      "hash_lp_rep zl1 ps'" "map_of (lp_assoc ps') = m(field \<mapsto> val)"
      "lp_total (lp_flat ps') \<le> lp_total (lp_flat ps) + hash_cost field val"
      using hash_lp_set_rep [OF c ps(1), of field val] ps(2) by auto
    obtain zl2 where zl2: "hashTypeLength (HashLp zl1) = Some (length ps', HashLp zl2)" "hash_lp_rep zl2 ps'"
      using hashTypeLength_lp [OF zl1(2)] by blast
    have "hash_lp_limits cfg (m(field \<mapsto> val))" if "\<not> length ps' > hash_max_listpack_entries cfg"
      using that lim False card_map_of_le [of "lp_assoc ps'"] zl1(3) by (auto simp: hash_lp_limits_def)
    then have r2: "hash_rep cfg (HashLp zl2) (m(field \<mapsto> val))" if "\<not> length ps' > hash_max_listpack_entries cfg"
      using that zl2(2) zl1(3) c by (auto simp: hash_rep_def)
    have room2: "hash_room (HashLp zl2) args" using t zl1(4) lpBytes_rep [OF zl2(2)] by (simp add: hash_room_def)
    obtain d2 where d2: "hashTypeConvert cfg (HashLp zl2) = Some (HashHt d2)"
      "hash_rep cfg (HashHt d2) (m(field \<mapsto> val))" "hash_room (HashHt d2) args"
      using hashTypeConvert_rep [OF c zl2(2) zl1(3)] room2 by blast
    show ?thesis using False HashLp zl1(1) zl2(1) r2 room2 d2 by (simp add: hashTypeSet_def)
  qed
qed

text \<open>Lookups.  \<open>hashval_int\<close> is what \<open>HINCRBY\<close> makes of a value.\<close>

definition hashval_int :: "hashval \<Rightarrow> int option" where
  "hashval_int v = (case v of Vstr s \<Rightarrow> string2ll s | Vll ll \<Rightarrow> Some ll)"

lemma hashTypeGetValue_rep:
  assumes rep: "hash_rep cfg ob m"
  shows "\<exists>v ob'. hashTypeGetValue cfg ob field = Some (v, ob') \<and> hash_rep cfg ob' m \<and>
    (\<forall>args. hash_room ob args \<longrightarrow> hash_room ob' args) \<and>
    (case v of None \<Rightarrow> m field = None
     | Some x \<Rightarrow> \<exists>s. m field = Some s \<and> hashval_string x = Some s \<and> hashval_int x = string2ll s)"
proof (cases ob)
  case (HashLp zl)
  then obtain ps where ps: "hash_lp_rep zl ps" "map_of (lp_assoc ps) = m" using rep by (auto simp: hash_rep_def)
  show ?thesis using ps(1)
  proof (cases rule: hash_lp_find_rep [where field = field])
    case missing
    then show ?thesis using HashLp rep ps(2) by (simp add: hashTypeGetValue_def hashTypeGetFromListpack_def)
  next
    case (found i)
    have lp: "lp_rep zl (lp_flat ps)" using ps(1) by (simp add: hash_lp_rep_def)
    let ?e = "snd (ps ! i)"
    have e: "lp_flat ps ! Suc (2 * i) = ?e" using found(2) by simp
    have i2: "Suc (2 * i) < length (lp_flat ps)" using found(2) by simp
    have ok: "lpele_ok ?e" using lp_rep_ok [OF lp i2] e by simp
    have "hashTypeGetValue cfg ob field = Some (Some (ele_val ?e), ob)"
      using HashLp found(1) hash_lp_value_rep [OF ps(1) found(2)] lpGetValue_rep [OF lp i2] e
      by (simp add: hashTypeGetValue_def hashTypeGetFromListpack_def)
    moreover have "hashval_int (ele_val ?e) = string2ll (lpele_str ?e)"
      using ok string2ll_sdec by (cases ?e) (simp_all add: hashval_int_def ele_val_def)
    ultimately show ?thesis using found(4) ps(2) rep hashval_string_ele [OF ok] by simp
  qed
next
  case (HashHt d)
  then have u: "dict_usable d" and m: "m = dict_map d" and c: "hash_cfg_ok cfg"
    using rep by (auto simp: hash_rep_def dict_rep_def)
  obtain r d' where *: "dictFind (hc_can_resize cfg) d field = Some (r, d')" "dict_step d d'"
    "case r of None \<Rightarrow> dict_map d field = None
     | Some he \<Rightarrow> \<exists>v. valid_ref d' he \<and> dict_entry d' he = Some (field, v) \<and> dict_map d field = Some v"
    using dictFind_ok [of d "hc_can_resize cfg" field] u by (auto simp: dict_usable_def)
  have "dict_rep d' m" using dict_step_usable [OF u *(2)] dict_step_map [OF *(2)] by (simp add: dict_rep_def m)
  then show ?thesis using HashHt * c
    by (cases r) (auto simp: hashTypeGetValue_def hashTypeGetFromHashTable_def dictGetVal_def hash_rep_def
        hash_room_def dict_room_def m dict_rep_def hashval_string_def hashval_int_def)
qed

lemma hashTypeGetValueObject_rep:
  assumes "hash_rep cfg ob m"
  shows "\<exists>ob'. hashTypeGetValueObject cfg ob field = Some (m field, ob') \<and> hash_rep cfg ob' m"
proof -
  obtain v ob' where "hashTypeGetValue cfg ob field = Some (v, ob')" "hash_rep cfg ob' m"
    "case v of None \<Rightarrow> m field = None
     | Some x \<Rightarrow> \<exists>s. m field = Some s \<and> hashval_string x = Some s \<and> hashval_int x = string2ll s"
    using hashTypeGetValue_rep [OF assms, of field] by blast
  then show ?thesis by (cases v) (auto simp: hashTypeGetValueObject_def)
qed

lemma hashTypeDelete_rep:
  assumes rep: "hash_rep cfg ob m"
  shows "\<exists>ob'. hashTypeDelete cfg ob field = Some (m field \<noteq> None, ob') \<and> hash_rep cfg ob' (m(field := None))"
proof (cases ob)
  case (HashHt d)
  then have u: "dict_usable d" and m: "m = dict_map d" and c: "hash_cfg_ok cfg"
    using rep by (auto simp: hash_rep_def dict_rep_def)
  then show ?thesis using dictGenericDelete_ok [OF u, of "hc_can_resize cfg" field] HashHt
    by (auto simp: hashTypeDelete_def dictDelete_def hash_rep_def dict_rep_def)
next
  case (HashLp zl)
  then obtain ps where ps: "hash_lp_rep zl ps" "map_of (lp_assoc ps) = m" and c: "hash_cfg_ok cfg"
    and lim: "hash_lp_limits cfg m" using rep by (auto simp: hash_rep_def)
  have A: "lp_allocator_ok (hc_alloc cfg)" using c by (simp add: hash_cfg_ok_def)
  have lp: "lp_rep zl (lp_flat ps)" and dis: "distinct (map fst (lp_assoc ps))"
    using ps by (simp_all add: hash_lp_rep_def)
  show ?thesis using ps(1)
  proof (cases rule: hash_lp_find_rep [where field = field])
    case missing
    then have "m(field := None) = m" using ps(2) by auto
    then show ?thesis using missing HashLp rep ps(2) by (simp add: hashTypeDelete_def)
  next
    case (found i)
    define ps' where "ps' = take i ps @ drop (Suc i) ps"
    have i2: "2 * i < length (lp_flat ps)" using found(2) by simp
    have "take (2 * i) (lp_flat ps) @ drop (2 * i + 2) (lp_flat ps) = lp_flat ps'"
      using lp_flat_take [of i ps] lp_flat_drop [of "Suc i" ps] by (simp add: ps'_def)
    then obtain zl' p' where zl': "lpDeleteRangeWithEntry (hc_alloc cfg) zl (lp_off (lp_flat ps) (2 * i)) 2 = Some (zl', p')"
      "lp_rep zl' (lp_flat ps')" using lpDeleteRangeWithEntry_rep [OF A lp i2, of 2] by auto
    have a: "lp_assoc ps' = take i (lp_assoc ps) @ drop (Suc i) (lp_assoc ps)"
      by (simp add: ps'_def lp_assoc_def take_map drop_map)
    have nth: "fst (lp_assoc ps ! i) = field" using found(2,3) by (simp add: lp_assoc_def map_prod_def split_beta)
    have m': "map_of (lp_assoc ps') = m(field := None)"
      using map_of_delete [OF dis, of i] found(2) nth ps(2) by (simp add: a)
    have "map fst (lp_assoc ps) = map fst (take i (lp_assoc ps)) @ field # map fst (drop (Suc i) (lp_assoc ps))"
      using id_take_nth_drop [of i "lp_assoc ps"] found(2) nth by (metis list.map(2) lp_assoc_simps(2) map_append)
    then have "distinct (map fst (take i (lp_assoc ps)) @ field # map fst (drop (Suc i) (lp_assoc ps)))"
      using dis by metis
    then have "hash_lp_rep zl' ps'" using zl'(2) by (simp add: hash_lp_rep_def a)
    moreover have "card (dom (m(field := None))) \<le> card (dom m)"
      using ps(2) finite_dom_map_of [of "lp_assoc ps"] by (auto intro!: card_mono)
    then have "hash_lp_limits cfg (m(field := None))" using lim by (auto simp: hash_lp_limits_def)
    ultimately have "hash_rep cfg (HashLp zl') (m(field := None))" using m' c by (auto simp: hash_rep_def)
    then show ?thesis using zl'(1) found(1,4) HashLp ps(2) by (simp add: hashTypeDelete_def)
  qed
qed

lemma hashTypeLength_rep:
  assumes rep: "hash_rep cfg ob m"
  shows "\<exists>ob'. hashTypeLength ob = Some (card (dom m), ob') \<and> hash_rep cfg ob' m"
proof (cases ob)
  case (HashHt d)
  then show ?thesis using rep dictSize_card [of d]
    by (auto simp: hashTypeLength_def hash_rep_def dict_rep_def dict_usable_def)
next
  case (HashLp zl)
  then obtain ps where ps: "hash_lp_rep zl ps" "map_of (lp_assoc ps) = m" using rep by (auto simp: hash_rep_def)
  have "card (dom m) = length ps"
    using ps distinct_card [of "map fst (lp_assoc ps)"]
    by (auto simp: hash_lp_rep_def dom_map_of_conv_image_fst)
  then show ?thesis using hashTypeLength_lp [OF ps(1)] rep HashLp ps(2) by (auto simp: hash_rep_def)
qed

text \<open>A hash object provides the map interface in both encodings, across the conversion.\<close>

definition hash_put :: "hash_cfg \<Rightarrow> hashobj \<Rightarrow> bytes \<Rightarrow> bytes \<Rightarrow> (bool \<times> hashobj) option" where
  "hash_put cfg ob f v = do { (update, ob) \<leftarrow> hashTypeSet cfg ob f v False; Some (\<not> update, ob) }"

lemma hash_rep_finite: "hash_rep cfg ob m \<Longrightarrow> finite (dom m)"
  by (cases ob) (auto simp: hash_rep_def dict_rep_def dict_finite_map finite_dom_map_of)

interpretation hash_store:
  map_store "hash_rep cfg" hash_room "hashTypeGetValueObject cfg" "hash_put cfg" "hashTypeDelete cfg" hashTypeLength
  for cfg
proof
  fix ob m k v args
  assume rep: "hash_rep cfg ob m"
  show "finite (dom m)" by (rule hash_rep_finite [OF rep])
  show "\<exists>s'. hashTypeGetValueObject cfg ob k = Some (m k, s') \<and> hash_rep cfg s' m"
    by (rule hashTypeGetValueObject_rep [OF rep])
  show "\<exists>s'. hashTypeDelete cfg ob k = Some (m k \<noteq> None, s') \<and> hash_rep cfg s' (m(k := None))"
    by (rule hashTypeDelete_rep [OF rep])
  show "\<exists>s'. hashTypeLength ob = Some (card (dom m), s') \<and> hash_rep cfg s' m"
    by (rule hashTypeLength_rep [OF rep])
  assume "hash_room ob ((k, v) # args)"
  from hashTypeSet_rep [OF rep this, of False]
  show "\<exists>s'. hash_put cfg ob k v = Some (m k = None, s') \<and> hash_rep cfg s' (m(k \<mapsto> v)) \<and> hash_room s' args"
    by (auto simp: hash_put_def)
qed

section \<open>Room\<close>

text \<open>The configured limits keep a listpack far from the size where \<open>lpInsert\<close> fails.\<close>

definition hash_cfg_small :: "hash_cfg \<Rightarrow> bool" where
  "hash_cfg_small cfg \<longleftrightarrow>
     7 + hash_max_listpack_entries cfg * (2 * hash_max_listpack_value cfg + 28) < 2 ^ 31"

lemma lp_total_limits:
  assumes "\<forall>(f, v) \<in> set (lp_assoc ps). length f \<le> n \<and> length v \<le> n"
  shows "lp_total (lp_flat ps) \<le> 7 + length ps * (2 * n + 28)"
  using assms
proof (induction ps)
  case (Cons p ps)
  then show ?case using length_lp_entry_le [of "fst p"] length_lp_entry_le [of "snd p"] by (simp add: lp_total_def)
qed (simp add: lp_total_def)

lemma hash_lp_small:
  assumes "hash_cfg_small cfg" "hash_rep cfg (HashLp zl) m"
  shows "\<exists>t. lpBytes zl = Some t \<and> t < 2 ^ 31"
proof -
  obtain ps where ps: "hash_lp_rep zl ps" "map_of (lp_assoc ps) = m" and lim: "hash_lp_limits cfg m"
    using assms(2) by (auto simp: hash_rep_def)
  have dis: "distinct (map fst (lp_assoc ps))" using ps(1) by (simp add: hash_lp_rep_def)
  have "\<forall>(f, v) \<in> set (lp_assoc ps). length f \<le> hash_max_listpack_value cfg \<and> length v \<le> hash_max_listpack_value cfg"
    using lim ps(2) map_of_is_SomeI [OF dis] unfolding hash_lp_limits_def by blast
  note lp_total_limits [OF this]
  also have "card (dom m) = length ps"
    using ps(2) distinct_card [OF dis] by (simp add: dom_map_of_conv_image_fst [symmetric])
  then have "length ps \<le> hash_max_listpack_entries cfg" using lim by (simp add: hash_lp_limits_def)
  then have "7 + length ps * (2 * hash_max_listpack_value cfg + 28) \<le>
      7 + hash_max_listpack_entries cfg * (2 * hash_max_listpack_value cfg + 28)" by simp
  finally show ?thesis using assms(1) lpBytes_rep [OF ps(1)] by (simp add: hash_cfg_small_def)
qed

lemma hash_room_one:
  assumes "hash_cfg_small cfg" "hash_rep cfg ob m" "card (dom m) < 2 ^ 64 - 1" "length f + length v < 2 ^ 30"
  shows "hash_room ob [(f, v)]"
proof (cases ob)
  case (HashLp zl)
  then obtain t where "lpBytes zl = Some t" "t < 2 ^ 31" using hash_lp_small [OF assms(1)] assms(2) by blast
  then show ?thesis using HashLp assms(4) by (simp add: hash_room_def hash_cost_def)
next
  case (HashHt d)
  then show ?thesis using assms(2,3) by (simp add: hash_room_def dict_room_def hash_rep_def dict_rep_def)
qed

lemma hash_try_args_eq:
  assumes "sz + sum_list (map length as) < 2 ^ 64"
  shows "hash_try_args cfg as sz = None \<or> hash_try_args cfg as sz = Some (sz + sum_list (map length as))"
  using assms
proof (induction as arbitrary: sz)
  case (Cons a as)
  then show ?case using Cons.IH [of "sz + length a"] by (auto simp: add.assoc)
qed simp

lemma hash_cost_sum:
  "(\<Sum>(f, v) \<leftarrow> args. hash_cost f v) = (\<Sum>(f, v) \<leftarrow> args. length f + length v) + 28 * length args"
  by (induction args) (auto simp: hash_cost_def)

lemma hashTypeTryConversion_rep:
  fixes args :: "(bytes \<times> bytes) list"
  defines "argv \<equiv> concat (map (\<lambda>(f, v). [f, v]) args)"
  assumes small: "hash_cfg_small cfg" and rep: "hash_rep cfg ob m"
    and n: "card (dom m) + length args \<le> 2 ^ 64 - 1" and len: "(\<Sum>(f, v) \<leftarrow> args. length f + length v) < 2 ^ 64"
  shows "\<exists>ob'. hashTypeTryConversion cfg ob argv = Some ob' \<and> hash_rep cfg ob' m \<and> hash_room ob' args"
proof (cases ob)
  case (HashHt d)
  then show ?thesis using rep n
    by (simp add: hashTypeTryConversion_def hash_rep_def hash_room_def dict_room_def dict_rep_def)
next
  case (HashLp zl)
  obtain ps where ps: "hash_lp_rep zl ps" "map_of (lp_assoc ps) = m" and c: "hash_cfg_ok cfg"
    using rep HashLp by (auto simp: hash_rep_def)
  obtain d where d: "hashTypeConvert cfg ob = Some (HashHt d)" "hash_rep cfg (HashHt d) m"
    using hashTypeConvert_rep [OF c ps] HashLp by blast
  have room: "hash_room (HashHt d') args" if "dict_rep d' m" for d'
    using that n by (simp add: hash_room_def dict_room_def dict_rep_def)
  have l: "length argv = 2 * length args" unfolding argv_def by (induction args) auto
  have lens: "sum_list (map length argv) = (\<Sum>(f, v) \<leftarrow> args. length f + length v)"
    unfolding argv_def by (induction args) auto
  consider (many) "length args > hash_max_listpack_entries cfg"
    | (long) "length args \<le> hash_max_listpack_entries cfg" "hash_try_args cfg argv 0 = None"
    | (sum) "length args \<le> hash_max_listpack_entries cfg"
        "hash_try_args cfg argv 0 = Some (\<Sum>(f, v) \<leftarrow> args. length f + length v)"
    using hash_try_args_eq [of 0 argv cfg] len lens not_le_imp_less by fastforce
  then show ?thesis
  proof cases
    case many
    obtain st d' where d': "dictExpand d (length args) = Some (st, d')" "dict_rep d' m"
      using dictExpand_rep [of d m "length args"] d(2) by (auto simp: hash_rep_def)
    then have "hashTypeTryConversion cfg ob argv = Some (HashHt d')"
      using many d(1) HashLp l by (simp add: hashTypeTryConversion_def)
    then show ?thesis using d'(2) room c by (simp add: hash_rep_def)
  next
    case long
    then have "hashTypeTryConversion cfg ob argv = Some (HashHt d)"
      using d(1) HashLp l by (simp add: hashTypeTryConversion_def)
    then show ?thesis using d(2) room by (simp add: hash_rep_def)
  next
    case sum
    obtain t where t: "lpBytes zl = Some t" "t < 2 ^ 31" using hash_lp_small [OF small] rep HashLp by blast
    then have s: "lpSafeToAdd (Some zl) (\<Sum>(f, v) \<leftarrow> args. length f + length v) =
        Some (\<not> t + (\<Sum>(f, v) \<leftarrow> args. length f + length v) > LISTPACK_MAX_SAFETY_SIZE)"
      by (simp add: lpSafeToAdd_def lpBytes_def)
    show ?thesis
    proof (cases "t + (\<Sum>(f, v) \<leftarrow> args. length f + length v) > LISTPACK_MAX_SAFETY_SIZE")
      case True
      then have "hashTypeTryConversion cfg ob argv = Some (HashHt d)"
        using d(1) HashLp l sum s by (simp add: hashTypeTryConversion_def)
      then show ?thesis using d(2) room by (simp add: hash_rep_def)
    next
      case False
      have "hash_max_listpack_entries cfg * 28 \<le>
          hash_max_listpack_entries cfg * (2 * hash_max_listpack_value cfg + 28)"
        by (intro mult_le_mono) simp_all
      then have "28 * length args < 2 ^ 31" using small sum(1) unfolding hash_cfg_small_def by linarith
      then have "hash_room ob args"
        using False t(1) HashLp by (simp add: hash_room_def hash_cost_sum LISTPACK_MAX_SAFETY_SIZE_def)
      moreover have "hashTypeTryConversion cfg ob argv = Some ob"
        using False HashLp l sum s by (simp add: hashTypeTryConversion_def)
      ultimately show ?thesis using rep by simp
    qed
  qed
qed

end
