(* ===== verification/T_Hash_Commands.thy ===== *)
theory T_Hash_Commands
  imports T_Hash
begin

text \<open>
  The hash commands of \<^verbatim>\<open>t_hash.c\<close> on the value of one key, with the reply they send: \<open>HSET\<close>, \<open>HMSET\<close>,
  \<open>HSETNX\<close>, \<open>HINCRBY\<close>, \<open>HDEL\<close>, \<open>HGET\<close>, \<open>HMGET\<close>, \<open>HLEN\<close>, \<open>HSTRLEN\<close> and \<open>HEXISTS\<close>, for a key that is missing or
  holds a hash.  They are shown to implement commands on a finite map, over whole sequences of
  commands.  The notifications, the propagation and the counters are not part of the state.
\<close>

section \<open>The model\<close>

text \<open>The key in the database: \<open>None\<close> when it is missing.\<close>

type_synonym hslot = "hashobj option"

datatype hreply =
    ReplyInt int | ReplyOk | ReplyNull | ReplyBulk bytes | ReplyArray "hreply list"
  | ErrArity | ErrNotInteger | ErrHashNotInteger | ErrOverflow

definition createHashObject :: "hash_cfg \<Rightarrow> hashobj option" where
  "createHashObject cfg = map_option HashLp (lpNew (hc_alloc cfg) 0)"

definition hashTypeLookupWriteOrCreate :: "hash_cfg \<Rightarrow> hslot \<Rightarrow> hashobj option" where
  "hashTypeLookupWriteOrCreate cfg s = (case s of None \<Rightarrow> createHashObject cfg | Some ob \<Rightarrow> Some ob)"

text \<open>The arguments from the third on, two by two.\<close>

fun argv_pairs :: "bytes list \<Rightarrow> (bytes \<times> bytes) list" where
  "argv_pairs (f # v # argv) = (f, v) # argv_pairs argv"
| "argv_pairs _ = []"

definition hsetCommand :: "hash_cfg \<Rightarrow> bool \<Rightarrow> bytes list \<Rightarrow> hslot \<Rightarrow> (hreply \<times> hslot) option" where
  "hsetCommand cfg hmset argv s =
     (if (length argv + 2) mod 2 = 1 then Some (ErrArity, s)
      else do {
        ob \<leftarrow> hashTypeLookupWriteOrCreate cfg s;
        ob \<leftarrow> hashTypeTryConversion cfg ob argv;
        (created, ob) \<leftarrow> hset_fields (hash_put cfg) (argv_pairs argv) 0 ob;
        Some (if hmset then ReplyOk else ReplyInt created, Some ob)
      })"

definition hsetnxCommand :: "hash_cfg \<Rightarrow> bytes \<Rightarrow> bytes \<Rightarrow> hslot \<Rightarrow> (hreply \<times> hslot) option" where
  "hsetnxCommand cfg f v s = do {
     ob \<leftarrow> hashTypeLookupWriteOrCreate cfg s;
     (ex, ob) \<leftarrow> hashTypeExists cfg ob f;
     if ex then Some (ReplyInt 0, Some ob)
     else do {
       ob \<leftarrow> hashTypeTryConversion cfg ob [f, v];
       (_, ob) \<leftarrow> hashTypeSet cfg ob f v False;
       Some (ReplyInt 1, Some ob)
     }
   }"

definition hincrbyCommand :: "hash_cfg \<Rightarrow> bytes \<Rightarrow> bytes \<Rightarrow> hslot \<Rightarrow> (hreply \<times> hslot) option" where
  "hincrbyCommand cfg f arg s =
     (case string2ll arg of
        None \<Rightarrow> Some (ErrNotInteger, s)
      | Some incr \<Rightarrow> do {
          ob \<leftarrow> hashTypeLookupWriteOrCreate cfg s;
          (res, ob) \<leftarrow> hashTypeGetValue cfg ob f;
          (case (case res of None \<Rightarrow> Some 0 | Some v \<Rightarrow> hashval_int v) of
             None \<Rightarrow> Some (ErrHashNotInteger, Some ob)
           | Some oldvalue \<Rightarrow>
               if incr < 0 \<and> oldvalue < 0 \<and> incr < INT64_MIN - oldvalue \<or>
                  incr > 0 \<and> oldvalue > 0 \<and> incr > INT64_MAX - oldvalue
               then Some (ErrOverflow, Some ob)
               else do {
                 let val = oldvalue + incr;
                 new \<leftarrow> sdsfromlonglong val;
                 (_, ob) \<leftarrow> hashTypeSet cfg ob f new True;
                 Some (ReplyInt val, Some ob)
               }) })"

definition hdelCommand :: "hash_cfg \<Rightarrow> bytes list \<Rightarrow> hslot \<Rightarrow> (hreply \<times> hslot) option" where
  "hdelCommand cfg argv s =
     (case s of
        None \<Rightarrow> Some (ReplyInt 0, s)
      | Some ob \<Rightarrow> do {
          (deleted, keyremoved, ob) \<leftarrow> hdel_fields (hashTypeDelete cfg) hashTypeLength argv 0 ob;
          Some (ReplyInt deleted, if keyremoved then None else Some ob) })"

definition addHashFieldToReply :: "hash_cfg \<Rightarrow> hslot \<Rightarrow> bytes \<Rightarrow> (hreply \<times> hslot) option" where
  "addHashFieldToReply cfg s f =
     (case s of
        None \<Rightarrow> Some (ReplyNull, s)
      | Some ob \<Rightarrow> do {
          (res, ob) \<leftarrow> hashTypeGetValue cfg ob f;
          (case res of
             None \<Rightarrow> Some (ReplyNull, Some ob)
           | Some v \<Rightarrow> do { b \<leftarrow> hashval_string v; Some (ReplyBulk b, Some ob) }) })"

definition hgetCommand :: "hash_cfg \<Rightarrow> bytes \<Rightarrow> hslot \<Rightarrow> (hreply \<times> hslot) option" where
  "hgetCommand cfg f s =
     (case s of None \<Rightarrow> Some (ReplyNull, s) | Some ob \<Rightarrow> addHashFieldToReply cfg (Some ob) f)"

primrec hmget_fields :: "hash_cfg \<Rightarrow> bytes list \<Rightarrow> hslot \<Rightarrow> (hreply list \<times> hslot) option" where
  "hmget_fields cfg [] s = Some ([], s)"
| "hmget_fields cfg (f # argv) s = do {
     (r, s) \<leftarrow> addHashFieldToReply cfg s f;
     (rs, s) \<leftarrow> hmget_fields cfg argv s;
     Some (r # rs, s)
   }"

definition hmgetCommand :: "hash_cfg \<Rightarrow> bytes list \<Rightarrow> hslot \<Rightarrow> (hreply \<times> hslot) option" where
  "hmgetCommand cfg argv s = do { (rs, s) \<leftarrow> hmget_fields cfg argv s; Some (ReplyArray rs, s) }"

definition hlenCommand :: "hslot \<Rightarrow> (hreply \<times> hslot) option" where
  "hlenCommand s =
     (case s of
        None \<Rightarrow> Some (ReplyInt 0, s)
      | Some ob \<Rightarrow> do { (n, ob) \<leftarrow> hashTypeLength ob; Some (ReplyInt (int n), Some ob) })"

definition hstrlenCommand :: "hash_cfg \<Rightarrow> bytes \<Rightarrow> hslot \<Rightarrow> (hreply \<times> hslot) option" where
  "hstrlenCommand cfg f s =
     (case s of
        None \<Rightarrow> Some (ReplyInt 0, s)
      | Some ob \<Rightarrow> do {
          (res, ob) \<leftarrow> hashTypeGetValue cfg ob f;
          Some (case res of
              None \<Rightarrow> ReplyInt 0
            | Some (Vstr b) \<Rightarrow> ReplyInt (int (length b))
            | Some (Vll ll) \<Rightarrow> ReplyInt (int (sdigits10 ll)), Some ob) })"

definition hexistsCommand :: "hash_cfg \<Rightarrow> bytes \<Rightarrow> hslot \<Rightarrow> (hreply \<times> hslot) option" where
  "hexistsCommand cfg f s =
     (case s of
        None \<Rightarrow> Some (ReplyInt 0, s)
      | Some ob \<Rightarrow> do {
          (ex, ob) \<leftarrow> hashTypeExists cfg ob f;
          Some (ReplyInt (if ex then 1 else 0), Some ob) })"

datatype hcmd =
    HSET "bytes list" | HMSET "bytes list" | HSETNX bytes bytes | HINCRBY bytes bytes | HDEL "bytes list"
  | HGET bytes | HMGET "bytes list" | HLEN | HSTRLEN bytes | HEXISTS bytes

fun hash_exec :: "hash_cfg \<Rightarrow> hcmd \<Rightarrow> hslot \<Rightarrow> (hreply \<times> hslot) option" where
  "hash_exec cfg (HSET argv) s = hsetCommand cfg False argv s"
| "hash_exec cfg (HMSET argv) s = hsetCommand cfg True argv s"
| "hash_exec cfg (HSETNX f v) s = hsetnxCommand cfg f v s"
| "hash_exec cfg (HINCRBY f arg) s = hincrbyCommand cfg f arg s"
| "hash_exec cfg (HDEL argv) s = hdelCommand cfg argv s"
| "hash_exec cfg (HGET f) s = hgetCommand cfg f s"
| "hash_exec cfg (HMGET argv) s = hmgetCommand cfg argv s"
| "hash_exec cfg HLEN s = hlenCommand s"
| "hash_exec cfg (HSTRLEN f) s = hstrlenCommand cfg f s"
| "hash_exec cfg (HEXISTS f) s = hexistsCommand cfg f s"

primrec hash_run :: "hash_cfg \<Rightarrow> hcmd list \<Rightarrow> hslot \<Rightarrow> (hreply list \<times> hslot) option" where
  "hash_run cfg [] s = Some ([], s)"
| "hash_run cfg (c # cs) s = do {
     (r, s) \<leftarrow> hash_exec cfg c s;
     (rs, s) \<leftarrow> hash_run cfg cs s;
     Some (r # rs, s)
   }"

section \<open>The specification\<close>

type_synonym hmap = "bytes \<Rightarrow> bytes option"

definition spec_get :: "hmap \<Rightarrow> bytes \<Rightarrow> hreply" where
  "spec_get m f = (case m f of None \<Rightarrow> ReplyNull | Some v \<Rightarrow> ReplyBulk v)"

definition spec_hset :: "bytes list \<Rightarrow> hmap \<Rightarrow> hmap" where
  "spec_hset argv m = m ++ map_of (rev (argv_pairs argv))"

definition spec_incr :: "bytes \<Rightarrow> bytes \<Rightarrow> hmap \<Rightarrow> hreply \<times> hmap" where
  "spec_incr f arg m =
     (case string2ll arg of
        None \<Rightarrow> (ErrNotInteger, m)
      | Some incr \<Rightarrow>
          (case (case m f of None \<Rightarrow> Some 0 | Some v \<Rightarrow> string2ll v) of
             None \<Rightarrow> (ErrHashNotInteger, m)
           | Some old \<Rightarrow> if in_int64 (old + incr) then (ReplyInt (old + incr), m(f \<mapsto> sdec (old + incr)))
               else (ErrOverflow, m)))"

fun hash_spec :: "hcmd \<Rightarrow> hmap \<Rightarrow> hreply \<times> hmap" where
  "hash_spec (HSET argv) m = (if odd (length argv) then (ErrArity, m)
     else (ReplyInt (int (card (dom (spec_hset argv m))) - int (card (dom m))), spec_hset argv m))"
| "hash_spec (HMSET argv) m = (if odd (length argv) then (ErrArity, m) else (ReplyOk, spec_hset argv m))"
| "hash_spec (HSETNX f v) m = (if m f = None then (ReplyInt 1, m(f \<mapsto> v)) else (ReplyInt 0, m))"
| "hash_spec (HINCRBY f arg) m = spec_incr f arg m"
| "hash_spec (HDEL argv) m = (ReplyInt (int (card (dom m \<inter> set argv))), m |` (- set argv))"
| "hash_spec (HGET f) m = (spec_get m f, m)"
| "hash_spec (HMGET argv) m = (ReplyArray (map (spec_get m) argv), m)"
| "hash_spec HLEN m = (ReplyInt (int (card (dom m))), m)"
| "hash_spec (HSTRLEN f) m = (ReplyInt (int (length (case m f of None \<Rightarrow> [] | Some v \<Rightarrow> v))), m)"
| "hash_spec (HEXISTS f) m = (ReplyInt (if m f = None then 0 else 1), m)"

text \<open>The sizes of the arguments, for a hash with \<open>n\<close> fields: what fits in memory.\<close>

fun hcmd_fits :: "nat \<Rightarrow> hcmd \<Rightarrow> bool" where
  "hcmd_fits n (HSET argv) \<longleftrightarrow> argv \<noteq> [] \<and> n + length argv \<le> 2 ^ 64 - 1 \<and> sum_list (map length argv) < 2 ^ 64"
| "hcmd_fits n (HMSET argv) \<longleftrightarrow> argv \<noteq> [] \<and> n + length argv \<le> 2 ^ 64 - 1 \<and> sum_list (map length argv) < 2 ^ 64"
| "hcmd_fits n (HSETNX f v) \<longleftrightarrow> n < 2 ^ 64 - 1 \<and> length f + length v < 2 ^ 64"
| "hcmd_fits n (HINCRBY f arg) \<longleftrightarrow> n < 2 ^ 64 - 1 \<and> length f < 2 ^ 29"
| "hcmd_fits n _ \<longleftrightarrow> True"

definition hslot_rep :: "hash_cfg \<Rightarrow> hslot \<Rightarrow> hmap \<Rightarrow> bool" where
  "hslot_rep cfg s m \<longleftrightarrow>
     (case s of None \<Rightarrow> hash_cfg_ok cfg \<and> m = Map.empty | Some ob \<Rightarrow> hash_rep cfg ob m \<and> m \<noteq> Map.empty)"

section \<open>The commands implement the specification\<close>

lemma hashTypeLookupWriteOrCreate_rep:
  assumes "hslot_rep cfg s m"
  shows "\<exists>ob. hashTypeLookupWriteOrCreate cfg s = Some ob \<and> hash_rep cfg ob m"
proof (cases s)
  case None
  then have c: "hash_cfg_ok cfg" and m: "m = Map.empty" using assms by (simp_all add: hslot_rep_def)
  obtain zl where "lpNew (hc_alloc cfg) 0 = Some zl" "lp_rep zl []"
    using lpNew_rep [of "hc_alloc cfg" 0] c by (auto simp: hash_cfg_ok_def)
  moreover have "hash_lp_rep zl [] \<and> map_of (lp_assoc []) = m" using calculation(2) m by (simp add: hash_lp_rep_def)
  then have "\<exists>ps. hash_lp_rep zl ps \<and> map_of (lp_assoc ps) = m" by blast
  ultimately show ?thesis using None c m
    by (simp add: hashTypeLookupWriteOrCreate_def createHashObject_def hash_rep_def hash_lp_limits_def)
qed (use assms in \<open>simp add: hashTypeLookupWriteOrCreate_def hslot_rep_def\<close>)

lemma hslot_repI: "hash_rep cfg ob m \<Longrightarrow> m \<noteq> Map.empty \<Longrightarrow> hslot_rep cfg (Some ob) m"
  by (simp add: hslot_rep_def)

text \<open>Only the commands below write; a command that succeeds without writing keeps the map.\<close>

definition implements :: "hash_cfg \<Rightarrow> (hreply \<times> hslot) option \<Rightarrow> hreply \<times> hmap \<Rightarrow> bool" where
  "implements cfg res spec \<longleftrightarrow> (\<exists>s'. res = Some (fst spec, s') \<and> hslot_rep cfg s' (snd spec))"

lemma argv_pairs_concat:
  "even (length argv) \<Longrightarrow> concat (map (\<lambda>(f, v). [f, v]) (argv_pairs argv)) = argv"
  by (induction argv rule: argv_pairs.induct) auto

lemma argv_pairs_length: "length (argv_pairs argv) = length argv div 2"
  by (induction argv rule: argv_pairs.induct) auto

lemma argv_pairs_sum: "(\<Sum>(f, v) \<leftarrow> argv_pairs argv. length f + length v) \<le> sum_list (map length argv)"
  by (induction argv rule: argv_pairs.induct) auto

lemma hsetCommand_ok:
  assumes small: "hash_cfg_small cfg" and s: "hslot_rep cfg s m" and fits: "hcmd_fits (card (dom m)) (HSET argv)"
  shows "implements cfg (hsetCommand cfg hmset argv s)
    (hash_spec (if hmset then HMSET argv else HSET argv) m)"
proof (cases "odd (length argv)")
  case True
  then have "(length argv + 2) mod 2 = 1" by presburger
  then show ?thesis using True s by (auto simp: implements_def hsetCommand_def)
next
  case False
  let ?args = "argv_pairs argv"
  obtain ob where ob: "hashTypeLookupWriteOrCreate cfg s = Some ob" "hash_rep cfg ob m"
    using hashTypeLookupWriteOrCreate_rep [OF s] by blast
  have n: "card (dom m) + length ?args \<le> 2 ^ 64 - 1"
    using fits argv_pairs_length [of argv] by simp linarith
  have l: "(\<Sum>(f, v) \<leftarrow> ?args. length f + length v) < 2 ^ 64"
    using fits argv_pairs_sum [of argv] by simp
  have c: "concat (map (\<lambda>(f, v). [f, v]) ?args) = argv" using False by (intro argv_pairs_concat) simp
  obtain ob1 where ob1: "hashTypeTryConversion cfg ob argv = Some ob1" "hash_rep cfg ob1 m" "hash_room ob1 ?args"
    using hashTypeTryConversion_rep [OF small ob(2) n l] unfolding c by blast
  obtain ob2 where ob2: "hset_fields (hash_put cfg) ?args 0 ob1 =
      Some (int (card (dom (spec_hset argv m))) - int (card (dom m)), ob2)" "hash_rep cfg ob2 (spec_hset argv m)"
    using hash_store.hset_fields_count [OF ob1(2,3), of 0] by (auto simp: spec_hset_def)
  obtain a b r where "argv = a # b # r" using fits False by (cases argv rule: argv_pairs.cases) auto
  then have "spec_hset argv m \<noteq> Map.empty" by (auto simp: spec_hset_def map_add_def split: option.splits dest: fun_cong [of _ _ a])
  then have "hslot_rep cfg (Some ob2) (spec_hset argv m)" by (rule hslot_repI [OF ob2(2)])
  moreover have "(length argv + 2) mod 2 \<noteq> 1" using False by presburger
  ultimately show ?thesis using False ob(1) ob1(1) ob2(1) by (simp add: implements_def hsetCommand_def)
qed

lemma hashTypeExists_rep:
  assumes "hash_rep cfg ob m"
  shows "\<exists>ob'. hashTypeExists cfg ob f = Some (m f \<noteq> None, ob') \<and> hash_rep cfg ob' m"
proof -
  obtain v ob' where "hashTypeGetValue cfg ob f = Some (v, ob')" "hash_rep cfg ob' m"
    "case v of None \<Rightarrow> m f = None
     | Some x \<Rightarrow> \<exists>s. m f = Some s \<and> hashval_string x = Some s \<and> hashval_int x = string2ll s"
    using hashTypeGetValue_rep [OF assms, of f] by blast
  then show ?thesis by (cases v) (auto simp: hashTypeExists_def)
qed

lemma hsetnxCommand_ok:
  assumes small: "hash_cfg_small cfg" and s: "hslot_rep cfg s m" and fits: "hcmd_fits (card (dom m)) (HSETNX f v)"
  shows "implements cfg (hsetnxCommand cfg f v s) (hash_spec (HSETNX f v) m)"
proof -
  obtain ob where ob: "hashTypeLookupWriteOrCreate cfg s = Some ob" "hash_rep cfg ob m"
    using hashTypeLookupWriteOrCreate_rep [OF s] by blast
  obtain ob1 where ob1: "hashTypeExists cfg ob f = Some (m f \<noteq> None, ob1)" "hash_rep cfg ob1 m"
    using hashTypeExists_rep [OF ob(2)] by blast
  show ?thesis
  proof (cases "m f = None")
    case False
    then have "hslot_rep cfg (Some ob1) m" by (intro hslot_repI [OF ob1(2)]) auto
    then show ?thesis using False ob(1) ob1(1) by (simp add: implements_def hsetnxCommand_def)
  next
    case True
    obtain ob2 where ob2: "hashTypeTryConversion cfg ob1 [f, v] = Some ob2" "hash_rep cfg ob2 m" "hash_room ob2 [(f, v)]"
      using hashTypeTryConversion_rep [OF small ob1(2), of "[(f, v)]"] fits by auto
    obtain ob3 where ob3: "hashTypeSet cfg ob2 f v False = Some (m f \<noteq> None, ob3)" "hash_rep cfg ob3 (m(f \<mapsto> v))"
      using hashTypeSet_rep [OF ob2(2,3), of False] by blast
    then have "hslot_rep cfg (Some ob3) (m(f \<mapsto> v))" by (intro hslot_repI) auto
    then show ?thesis using True ob(1) ob1(1) ob2(1) ob3(1) by (simp add: implements_def hsetnxCommand_def)
  qed
qed

lemma hincrby_guard:
  assumes "in_int64 old" "in_int64 incr"
  shows "(incr < 0 \<and> old < 0 \<and> incr < INT64_MIN - old \<or> incr > 0 \<and> old > 0 \<and> incr > INT64_MAX - old) \<longleftrightarrow>
    \<not> in_int64 (old + incr)"
  using assms unfolding in_int64_def by linarith

lemma hincrbyCommand_ok:
  assumes small: "hash_cfg_small cfg" and s: "hslot_rep cfg s m" and fits: "hcmd_fits (card (dom m)) (HINCRBY f arg)"
  shows "implements cfg (hincrbyCommand cfg f arg s) (hash_spec (HINCRBY f arg) m)"
proof (cases "string2ll arg")
  case None
  then show ?thesis using s by (simp add: implements_def hincrbyCommand_def spec_incr_def)
next
  case (Some incr)
  then have i: "in_int64 incr" using string2ll_sound by blast
  obtain ob where ob: "hashTypeLookupWriteOrCreate cfg s = Some ob" "hash_rep cfg ob m"
    using hashTypeLookupWriteOrCreate_rep [OF s] by blast
  obtain v ob1 where ob1: "hashTypeGetValue cfg ob f = Some (v, ob1)" "hash_rep cfg ob1 m"
    and v: "case v of None \<Rightarrow> m f = None
     | Some x \<Rightarrow> \<exists>s. m f = Some s \<and> hashval_string x = Some s \<and> hashval_int x = string2ll s"
    using hashTypeGetValue_rep [OF ob(2), of f] by blast
  define old where "old = (case m f of None \<Rightarrow> Some 0 | Some v \<Rightarrow> string2ll v)"
  have o: "(case v of None \<Rightarrow> Some 0 | Some v \<Rightarrow> hashval_int v) = old"
    using v by (auto simp: old_def split: option.splits)
  note defs = hincrbyCommand_def spec_incr_def implements_def Some ob(1) ob1(1) o old_def [symmetric]
  have ne: "m \<noteq> Map.empty" if "old = None" using that by (auto simp: old_def)
  show ?thesis
  proof (cases old)
    case None
    then show ?thesis using hslot_repI [OF ob1(2) ne] by (simp add: defs)
  next
    case old: (Some w)
    then have w: "in_int64 w" using string2ll_sound by (auto simp: old_def in_int64_def split: option.splits)
    show ?thesis
    proof (cases "in_int64 (w + incr)")
      case False
      then have "m \<noteq> Map.empty" using old i by (auto simp: old_def)
      then show ?thesis using hslot_repI [OF ob1(2)] False old hincrby_guard [OF w i] by (simp add: defs)
    next
      case True
      have "length (sdec (w + incr)) < 21" using length_sdec [OF True] by (simp add: LONG_STR_SIZE_def)
      then have "hash_room ob1 [(f, sdec (w + incr))]"
        using fits by (intro hash_room_one [OF small ob1(2)]) simp_all
      then obtain ob2 where ob2: "hashTypeSet cfg ob1 f (sdec (w + incr)) True = Some (m f \<noteq> None, ob2)"
        "hash_rep cfg ob2 (m(f \<mapsto> sdec (w + incr)))"
        using hashTypeSet_rep [OF ob1(2), of f _ "[]" True] by blast
      then have "hslot_rep cfg (Some ob2) (m(f \<mapsto> sdec (w + incr)))" by (intro hslot_repI) auto
      then show ?thesis using True old ob2(1) hincrby_guard [OF w i] sdsfromlonglong_eq [OF True] by (simp add: defs)
    qed
  qed
qed

lemma hdelCommand_ok:
  assumes s: "hslot_rep cfg s m"
  shows "implements cfg (hdelCommand cfg argv s) (hash_spec (HDEL argv) m)"
proof (cases s)
  case None
  then show ?thesis using s by (simp add: implements_def hdelCommand_def hslot_rep_def)
next
  case (Some ob)
  then have rep: "hash_rep cfg ob m" and ne: "m \<noteq> Map.empty" using s by (simp_all add: hslot_rep_def)
  obtain ob' where ob': "hdel_fields (hashTypeDelete cfg) hashTypeLength argv 0 ob =
      Some (int (card (dom m \<inter> set argv)), dom m \<noteq> {} \<and> dom m \<subseteq> set argv, ob')"
    "hash_rep cfg ob' (m |` (- set argv))" using hash_store.hdel_fields_count [OF rep, of argv 0] by auto
  have iff: "dom m \<noteq> {} \<and> dom m \<subseteq> set argv \<longleftrightarrow> m |` (- set argv) = Map.empty"
    using ne by (auto simp: restrict_map_def fun_eq_iff domIff subset_iff)
  have "hslot_rep cfg (if dom m \<noteq> {} \<and> dom m \<subseteq> set argv then None else Some ob') (m |` (- set argv))"
    using ob'(2) rep unfolding iff by (simp add: hslot_rep_def hash_rep_def)
  then show ?thesis using Some ob'(1) by (simp add: implements_def hdelCommand_def)
qed

lemma hslot_GetValue:
  assumes "hslot_rep cfg (Some ob) m"
  obtains v ob' where "hashTypeGetValue cfg ob f = Some (v, ob')" "hslot_rep cfg (Some ob') m"
    "case v of None \<Rightarrow> m f = None
     | Some x \<Rightarrow> \<exists>s. m f = Some s \<and> hashval_string x = Some s \<and> hashval_int x = string2ll s"
proof -
  have rep: "hash_rep cfg ob m" and ne: "m \<noteq> Map.empty" using assms by (simp_all add: hslot_rep_def)
  obtain v ob' where "hashTypeGetValue cfg ob f = Some (v, ob')" "hash_rep cfg ob' m"
    "case v of None \<Rightarrow> m f = None
     | Some x \<Rightarrow> \<exists>s. m f = Some s \<and> hashval_string x = Some s \<and> hashval_int x = string2ll s"
    using hashTypeGetValue_rep [OF rep, of f] by blast
  then show thesis using that [of v ob'] ne by (cases v) (auto simp: hslot_rep_def)
qed

lemma addHashFieldToReply_ok:
  assumes s: "hslot_rep cfg s m"
  shows "implements cfg (addHashFieldToReply cfg s f) (spec_get m f, m)"
proof (cases s)
  case None
  then show ?thesis using s by (simp add: implements_def addHashFieldToReply_def spec_get_def hslot_rep_def)
next
  case (Some ob)
  obtain v ob' where "hashTypeGetValue cfg ob f = Some (v, ob')" "hslot_rep cfg (Some ob') m"
    "case v of None \<Rightarrow> m f = None
     | Some x \<Rightarrow> \<exists>s. m f = Some s \<and> hashval_string x = Some s \<and> hashval_int x = string2ll s"
    using hslot_GetValue [of cfg ob m f] s Some by blast
  then show ?thesis using Some by (cases v) (auto simp: implements_def addHashFieldToReply_def spec_get_def)
qed

lemma hgetCommand_ok: "hslot_rep cfg s m \<Longrightarrow> implements cfg (hgetCommand cfg f s) (hash_spec (HGET f) m)"
  using addHashFieldToReply_ok [of cfg s m f]
  by (cases s) (simp_all add: hgetCommand_def addHashFieldToReply_def)

lemma hmget_fields_ok:
  "hslot_rep cfg s m \<Longrightarrow> \<exists>s'. hmget_fields cfg argv s = Some (map (spec_get m) argv, s') \<and> hslot_rep cfg s' m"
proof (induction argv arbitrary: s)
  case (Cons f argv)
  obtain s1 where "addHashFieldToReply cfg s f = Some (spec_get m f, s1)" "hslot_rep cfg s1 m"
    using addHashFieldToReply_ok [OF Cons.prems, of f] by (auto simp: implements_def)
  then show ?case using Cons.IH by fastforce
qed simp

lemma hmgetCommand_ok: "hslot_rep cfg s m \<Longrightarrow> implements cfg (hmgetCommand cfg argv s) (hash_spec (HMGET argv) m)"
  using hmget_fields_ok [of cfg s m argv] by (auto simp: implements_def hmgetCommand_def)

lemma hlenCommand_ok:
  assumes s: "hslot_rep cfg s m" shows "implements cfg (hlenCommand s) (hash_spec HLEN m)"
proof (cases s)
  case (Some ob)
  then show ?thesis using s hashTypeLength_rep [of cfg ob m]
    by (auto simp: implements_def hlenCommand_def hslot_rep_def)
qed (use s in \<open>simp add: implements_def hlenCommand_def hslot_rep_def\<close>)

lemma hashval_length:
  assumes "hashval_string v = Some b" "hashval_int v = string2ll b"
  shows "(case v of Vstr s \<Rightarrow> length s | Vll ll \<Rightarrow> sdigits10 ll) = length b"
proof (cases v)
  case (Vll ll)
  then have "in_int64 ll" using assms(2) string2ll_sound [of b ll] by (simp add: hashval_int_def)
  then show ?thesis using Vll assms(1) by (simp add: hashval_string_def sdsfromlonglong_eq sdigits10_sdec)
qed (use assms in \<open>simp add: hashval_string_def\<close>)

lemma hstrlenCommand_ok:
  assumes s: "hslot_rep cfg s m" shows "implements cfg (hstrlenCommand cfg f s) (hash_spec (HSTRLEN f) m)"
proof (cases s)
  case None
  then show ?thesis using s by (simp add: implements_def hstrlenCommand_def hslot_rep_def)
next
  case (Some ob)
  obtain v ob' where v: "hashTypeGetValue cfg ob f = Some (v, ob')" "hslot_rep cfg (Some ob') m"
    "case v of None \<Rightarrow> m f = None
     | Some x \<Rightarrow> \<exists>s. m f = Some s \<and> hashval_string x = Some s \<and> hashval_int x = string2ll s"
    using hslot_GetValue [of cfg ob m f] s Some by blast
  show ?thesis
  proof (cases v)
    case (Some x)
    then obtain b where b: "m f = Some b" "hashval_string x = Some b" "hashval_int x = string2ll b" using v(3) by auto
    show ?thesis using Some \<open>s = Some ob\<close> v(1,2) b(1) hashval_length [OF b(2,3)]
      by (cases x) (auto simp: implements_def hstrlenCommand_def)
  qed (use \<open>s = Some ob\<close> v in \<open>simp add: implements_def hstrlenCommand_def\<close>)
qed

lemma hexistsCommand_ok:
  assumes s: "hslot_rep cfg s m" shows "implements cfg (hexistsCommand cfg f s) (hash_spec (HEXISTS f) m)"
proof (cases s)
  case (Some ob)
  then show ?thesis using s hashTypeExists_rep [of cfg ob m f]
    by (auto simp: implements_def hexistsCommand_def hslot_rep_def)
qed (use s in \<open>simp add: implements_def hexistsCommand_def hslot_rep_def\<close>)

lemmas hash_commands_ok =
  hsetCommand_ok [where hmset = False] hsetCommand_ok [where hmset = True] hsetnxCommand_ok hincrbyCommand_ok
  hdelCommand_ok hgetCommand_ok hmgetCommand_ok hlenCommand_ok hstrlenCommand_ok hexistsCommand_ok

lemma hash_exec_ok:
  assumes "hash_cfg_small cfg" "hslot_rep cfg s m" "hcmd_fits (card (dom m)) c"
  shows "implements cfg (hash_exec cfg c s) (hash_spec c m)"
  using assms hash_commands_ok(1,2) [OF assms(1,2)] hash_commands_ok(3,4) [OF assms(1,2)] hash_commands_ok(5-)
  by (cases c) (simp_all del: hash_spec.simps)

text \<open>Sequences of commands.\<close>

fun spec_run :: "hcmd list \<Rightarrow> hmap \<Rightarrow> hreply list \<times> hmap" where
  "spec_run [] m = ([], m)"
| "spec_run (c # cs) m =
     (let (r, m) = hash_spec c m; (rs, m) = spec_run cs m in (r # rs, m))"

fun run_fits :: "hcmd list \<Rightarrow> hmap \<Rightarrow> bool" where
  "run_fits [] m \<longleftrightarrow> True"
| "run_fits (c # cs) m \<longleftrightarrow> hcmd_fits (card (dom m)) c \<and> run_fits cs (snd (hash_spec c m))"

lemma hash_run_ok:
  assumes "hash_cfg_small cfg" "hslot_rep cfg s m" "run_fits cs m"
  shows "\<exists>s'. hash_run cfg cs s = Some (fst (spec_run cs m), s') \<and> hslot_rep cfg s' (snd (spec_run cs m))"
  using assms(2,3)
proof (induction cs arbitrary: s m)
  case (Cons c cs)
  obtain s1 where s1: "hash_exec cfg c s = Some (fst (hash_spec c m), s1)" "hslot_rep cfg s1 (snd (hash_spec c m))"
    using hash_exec_ok [OF assms(1) Cons.prems(1)] Cons.prems(2) by (auto simp: implements_def)
  obtain s2 where "hash_run cfg cs s1 = Some (fst (spec_run cs (snd (hash_spec c m))), s2)"
    "hslot_rep cfg s2 (snd (spec_run cs (snd (hash_spec c m))))"
    using Cons.IH [OF s1(2)] Cons.prems(2) by auto
  then show ?case using s1(1) by (auto simp: split_beta Let_def)
qed simp

section \<open>Reachable values of a key\<close>

definition hslot_size :: "hslot \<Rightarrow> nat" where
  "hslot_size s = (case hlenCommand s of Some (ReplyInt n, _) \<Rightarrow> nat n | _ \<Rightarrow> 0)"

inductive hash_reach :: "hash_cfg \<Rightarrow> hslot \<Rightarrow> bool" for cfg where
  missing: "hash_reach cfg None"
| command: "hash_reach cfg s \<Longrightarrow> hcmd_fits (hslot_size s) c \<Longrightarrow> hash_exec cfg c s = Some (r, s') \<Longrightarrow> hash_reach cfg s'"

inductive_cases hash_reachE: "hash_reach cfg s"

lemma hslot_size_rep: "hslot_rep cfg s m \<Longrightarrow> hslot_size s = card (dom m)"
  using hlenCommand_ok [of cfg s m] by (auto simp: implements_def hslot_size_def)

lemma hash_reach_rep:
  assumes "hash_reach cfg s" "hash_cfg_ok cfg" "hash_cfg_small cfg"
  shows "\<exists>m. hslot_rep cfg s m"
  using assms(1)
proof induction
  case missing
  then show ?case using assms(2) by (simp add: hslot_rep_def)
next
  case (command s c r s')
  then obtain m where m: "hslot_rep cfg s m" by blast
  then have "implements cfg (hash_exec cfg c s) (hash_spec c m)"
    using command.hyps(2) by (intro hash_exec_ok [OF assms(3)]) (simp_all add: hslot_size_rep)
  then show ?case using command.hyps(3) by (auto simp: implements_def)
qed

section \<open>Properties\<close>


definition hash_cfg_example :: hash_cfg where
  "hash_cfg_example = \<lparr>hash_max_listpack_entries = 2, hash_max_listpack_value = 8, hc_alloc = lp_exact,
     dict_hash_function_seed = replicate 16 0, hc_can_resize = DICT_RESIZE_ENABLE, hc_v0 = []\<rparr>"

lemma hash_cfg_example_ok: "lp_allocator_ok (hc_alloc hash_cfg_example)" "hash_cfg_small hash_cfg_example"
  by (simp_all add: hash_cfg_example_def lp_exact_ok hash_cfg_small_def)

definition hash_cmds_example :: "hcmd list" where
  "hash_cmds_example =
     [HSET [[97], [53]], HINCRBY [97] [55], HSETNX [98] [120], HINCRBY [98] [49], HMSET [[99], [121]], HLEN, HGET [97],
      HDEL [[97], [98]], HSTRLEN [99], HDEL [[99]], HEXISTS [99]]"

lemma string2ll_digit [simp]: "string2ll [49] = Some 1" "string2ll [53] = Some 5" "string2ll [55] = Some 7"
    "string2ll [120] = None" "sdec 12 = [49, 50]"
  by (code_simp, code_simp, code_simp, code_simp, code_simp)


text \<open>C31. The value of a key never holds an empty hash, and a hash encoded as a listpack never has more
  than \<open>hash-max-listpack-entries\<close> fields; in every reachable state every command that fits in
  memory runs to its end.\<close>

theorem hash_reach_invariant:
  assumes "hash_reach cfg s" and "lp_allocator_ok (hc_alloc cfg)" and "hash_cfg_small cfg"
  shows "(case s of
       None \<Rightarrow> True
     | Some (HashLp zl) \<Rightarrow>
         \<exists>n zl'. lpLength zl = Some (2 * n, zl') \<and> 0 < n \<and> n \<le> hash_max_listpack_entries cfg
     | Some (HashHt d) \<Rightarrow> dict_ok d \<and> 0 < dictSize d) \<and>
    (hcmd_fits (hslot_size s) c \<longrightarrow> hash_exec cfg c s \<noteq> None)"
proof -
  obtain m where m: "hslot_rep cfg s m"
    using hash_reach_rep [OF assms(1) _ assms(3)] assms(2) by (auto simp: hash_cfg_ok_def)
  have c: "hcmd_fits (hslot_size s) c \<longrightarrow> hash_exec cfg c s \<noteq> None"
    using hash_exec_ok [OF assms(3) m, of c] hslot_size_rep [OF m] by (auto simp: implements_def)
  show ?thesis
  proof (cases s)
    case (Some ob)
    then have rep: "hash_rep cfg ob m" and ne: "m \<noteq> Map.empty" using m by (simp_all add: hslot_rep_def)
    have pos: "0 < card (dom m)" using ne hash_rep_finite [OF rep] by (simp add: card_gt_0_iff)
    show ?thesis
    proof (cases ob)
      case (HashHt d)
      then show ?thesis using Some c pos rep dictSize_card [of d] by (simp add: hash_rep_def dict_rep_def dict_usable_def)
    next
      case (HashLp zl)
      then obtain ps where ps: "hash_lp_rep zl ps" "map_of (lp_assoc ps) = m" and lim: "hash_lp_limits cfg m"
        using rep by (auto simp: hash_rep_def)
      have "card (dom m) = length ps"
        using ps distinct_card [of "map fst (lp_assoc ps)"] by (auto simp: hash_lp_rep_def dom_map_of_conv_image_fst)
      then have n: "0 < length ps" "length ps \<le> hash_max_listpack_entries cfg"
        using pos lim unfolding hash_lp_limits_def by simp_all
      obtain zl' where "lpLength zl = Some (2 * length ps, zl')"
        using lpLength_rep [of zl "lp_flat ps"] ps(1) by (auto simp: hash_lp_rep_def)
      then show ?thesis using Some HashLp c n by auto
    qed
  qed (use c in simp)
qed

theorem hash_reach_invariant_witness:
  "\<exists>s'. hash_exec hash_cfg_example (HSET [[97], [53]]) None = Some (ReplyInt 1, s') \<and>
     hash_exec hash_cfg_example HLEN s' \<noteq> None \<and>
     (case s' of
        None \<Rightarrow> True
      | Some (HashLp zl) \<Rightarrow> \<exists>n zl'. lpLength zl = Some (2 * n, zl') \<and> 0 < n \<and> n \<le> 2
      | Some (HashHt d) \<Rightarrow> dict_ok d \<and> 0 < dictSize d)"
proof -
  have "hslot_rep hash_cfg_example None Map.empty"
    using hash_cfg_example_ok(1) by (simp add: hslot_rep_def hash_cfg_ok_def)
  then have "implements hash_cfg_example (hash_exec hash_cfg_example (HSET [[97], [53]]) None)
      (hash_spec (HSET [[97], [53]]) Map.empty)"
    by (intro hash_exec_ok hash_cfg_example_ok(2)) simp_all
  then obtain s' where e: "hash_exec hash_cfg_example (HSET [[97], [53]]) None = Some (ReplyInt 1, s')"
    by (auto simp: implements_def spec_hset_def)
  have "hash_reach hash_cfg_example s'"
    by (rule hash_reach.command [OF hash_reach.missing _ e]) (simp add: hslot_size_def hlenCommand_def)
  note I = hash_reach_invariant [OF this hash_cfg_example_ok, of HLEN]
  have "hash_max_listpack_entries hash_cfg_example = 2" by (simp add: hash_cfg_example_def)
  note I [unfolded this]
  then show ?thesis using e by (intro exI [of _ s']) (simp del: hash_exec.simps)
qed

end
