(* ===== verification/Multi.thy ===== *)
theory Multi
  imports Redis_Prelude "HOL-Library.Monad_Syntax"
begin

text \<open>
  Transactions: \<^verbatim>\<open>multi.c\<close>, with the part of \<open>processCommand\<close> that queues commands.  The server keeps,
  for every database, a dictionary from keys to the list of the clients that watch them, and every
  client keeps the list of the keys it watches; the two share the \<open>watchedKey\<close> structures, so these
  live in a store and the lists hold their addresses.

  What the commands do to the keys is a parameter: a command has a reply and a list of effects, each
  a new keyspace and the key that is signalled as modified.  \<^term>\<open>None\<close> is a failed assertion, a
  write outside the array of queued commands, or the use of a \<open>watchedKey\<close> after it was freed.
\<close>

unbundle bit_operations_syntax

section \<open>The state\<close>

text \<open>The keys of the databases, their times of expiration, the clock, \<open>server.loading\<close> and \<open>server.dbnum\<close>.\<close>

record 'v keyspace =
  ks_keys :: "nat \<Rightarrow> bytes \<Rightarrow> 'v option"
  ks_expires :: "nat \<Rightarrow> bytes \<Rightarrow> int option"
  ks_now :: int
  ks_loading :: bool
  ks_dbnum :: nat

definition dbFind :: "'v keyspace \<Rightarrow> nat \<Rightarrow> bytes \<Rightarrow> 'v option" where
  "dbFind ks db key = ks_keys ks db key"

definition getExpire :: "'v keyspace \<Rightarrow> nat \<Rightarrow> bytes \<Rightarrow> int" where
  "getExpire ks db key = (case ks_expires ks db key of None \<Rightarrow> -1 | Some t \<Rightarrow> t)"

definition keyIsExpired :: "'v keyspace \<Rightarrow> nat \<Rightarrow> bytes \<Rightarrow> bool" where
  "keyIsExpired ks db key =
     (if ks_loading ks then False
      else let when = getExpire ks db key in if when < 0 then False else ks_now ks > when)"

text \<open>\<open>UNWATCH\<close> is the one command of this file that can be queued; \<open>SELECT\<close> changes the client.\<close>

datatype 'c redisCommand = CmdUnwatch | CmdSelect int | CmdOther 'c

record 'c multiCmd =
  mc_cmd :: "'c redisCommand"
  mc_argv :: "bytes list"

record 'c multiState =
  commands :: "'c multiCmd list"
  cmd_flags :: "32 word"
  cmd_inv_flags :: "32 word"
  argv_len_sums :: nat
  alloc_count :: nat

record watchedKey =
  wk_key :: bytes
  wk_db :: nat
  wk_client :: nat
  wk_expired :: bool

record 'c client =
  CLIENT_MULTI :: bool
  CLIENT_DIRTY_CAS :: bool
  CLIENT_DIRTY_EXEC :: bool
  CLIENT_DENY_BLOCKING :: bool
  c_db :: nat
  mstate :: "'c multiState"
  c_watched_keys :: "nat list"

record ('c, 'v) redisServer =
  clients :: "nat \<Rightarrow> 'c client"
  db_watched_keys :: "nat \<Rightarrow> bytes \<Rightarrow> nat list option"
  wk_store :: "nat \<Rightarrow> watchedKey option"
  wk_next :: nat
  watching_clients :: nat
  in_exec :: bool
  keys :: "'v keyspace"
  acl :: "nat \<Rightarrow> 'c redisCommand \<Rightarrow> bytes list \<Rightarrow> bool"

definition upd_client :: "nat \<Rightarrow> ('c client \<Rightarrow> 'c client) \<Rightarrow> ('c, 'v) redisServer \<Rightarrow> ('c, 'v) redisServer" where
  "upd_client c f s = s\<lparr>clients := (clients s)(c := f (clients s c))\<rparr>"

section \<open>The queue\<close>

definition INT_MAX :: nat where "INT_MAX = 2 ^ 31 - 1"
definition sizeof_robj_ptr :: nat where "sizeof_robj_ptr = 8"

definition initClientMultiState :: "'c client \<Rightarrow> 'c client" where
  "initClientMultiState c = c\<lparr>mstate :=
     \<lparr>commands = [], cmd_flags = 0, cmd_inv_flags = 0, argv_len_sums = 0, alloc_count = 0\<rparr>\<rparr>"

definition queueMultiCommand ::
    "'c redisCommand \<Rightarrow> bytes list \<Rightarrow> 64 word \<Rightarrow> 'c client \<Rightarrow> 'c client option" where
  "queueMultiCommand cmd argv flags c =
     (if CLIENT_DIRTY_CAS c \<or> CLIENT_DIRTY_EXEC c then Some c
      else
        let m = mstate c;
            m = (if length (commands m) = 0 then m\<lparr>alloc_count := 2\<rparr> else m);
            m = (if length (commands m) = alloc_count m
                 then m\<lparr>alloc_count := if alloc_count m < INT_MAX div 2 then alloc_count m * 2 else INT_MAX\<rparr> else m)
        in if length (commands m) < alloc_count m
           then Some (c\<lparr>mstate := m\<lparr>
             commands := commands m @ [\<lparr>mc_cmd = cmd, mc_argv = argv\<rparr>],
             cmd_flags := cmd_flags m OR ucast flags,
             cmd_inv_flags := cmd_inv_flags m OR ucast (NOT flags),
             argv_len_sums := ulong_add (argv_len_sums m)
               (ulong_add (sum_list (map length argv)) (sizeof_robj_ptr * length argv))\<rparr>\<rparr>)
           else None)"

section \<open>Watched keys\<close>

text \<open>\<open>watchForKey\<close>: whether the key is already watched, then the new \<open>watchedKey\<close> in both lists.\<close>

fun already_watched :: "('c, 'v) redisServer \<Rightarrow> nat \<Rightarrow> bytes \<Rightarrow> nat list \<Rightarrow> bool option" where
  "already_watched s db key [] = Some False"
| "already_watched s db key (w # ws) = do {
     wk \<leftarrow> wk_store s w;
     if wk_db wk = db \<and> key = wk_key wk then Some True else already_watched s db key ws
   }"

definition watchForKey :: "nat \<Rightarrow> bytes \<Rightarrow> ('c, 'v) redisServer \<Rightarrow> ('c, 'v) redisServer option" where
  "watchForKey c key s = do {
     let s = (if length (c_watched_keys (clients s c)) = 0
              then s\<lparr>watching_clients := watching_clients s + 1\<rparr> else s);
     let db = c_db (clients s c);
     found \<leftarrow> already_watched s db key (c_watched_keys (clients s c));
     if found then Some s
     else do {
       let cls = (case db_watched_keys s db key of None \<Rightarrow> [] | Some l \<Rightarrow> l);
       let w = wk_next s;
       let wk = \<lparr>wk_key = key, wk_db = db, wk_client = c, wk_expired = keyIsExpired (keys s) db key\<rparr>;
       let s = s\<lparr>wk_next := wk_next s + 1, wk_store := (wk_store s)(w \<mapsto> wk)\<rparr>;
       let s = upd_client c (\<lambda>cl. cl\<lparr>c_watched_keys := c_watched_keys cl @ [w]\<rparr>) s;
       Some (s\<lparr>db_watched_keys := (db_watched_keys s)(db := (db_watched_keys s db)(key \<mapsto> cls @ [w]))\<rparr>)
     }
   }"

text \<open>One turn of the loop of \<open>unwatchAllKeys\<close>.  The list of clients is found through the back pointer
  of the node in the code; it is the list in the dictionary.\<close>

definition unwatch_one :: "nat \<Rightarrow> ('c, 'v) redisServer \<Rightarrow> ('c, 'v) redisServer option" where
  "unwatch_one w s = do {
     wk \<leftarrow> wk_store s w;
     cls \<leftarrow> db_watched_keys s (wk_db wk) (wk_key wk);
     if w \<notin> set cls then None
     else do {
       let cls = remove1 w cls;
       Some (s\<lparr>db_watched_keys := (db_watched_keys s)(wk_db wk :=
           (db_watched_keys s (wk_db wk))(wk_key wk := (if length cls = 0 then None else Some cls))),
         wk_store := (wk_store s)(w := None)\<rparr>)
     }
   }"

primrec unwatch_loop :: "nat list \<Rightarrow> ('c, 'v) redisServer \<Rightarrow> ('c, 'v) redisServer option" where
  "unwatch_loop [] s = Some s"
| "unwatch_loop (w # ws) s = do { s \<leftarrow> unwatch_one w s; unwatch_loop ws s }"

definition unwatchAllKeys :: "nat \<Rightarrow> ('c, 'v) redisServer \<Rightarrow> ('c, 'v) redisServer option" where
  "unwatchAllKeys c s =
     (if length (c_watched_keys (clients s c)) = 0 then Some s
      else do {
        s \<leftarrow> unwatch_loop (c_watched_keys (clients s c)) s;
        let s = upd_client c (\<lambda>cl. cl\<lparr>c_watched_keys := []\<rparr>) s;
        Some (s\<lparr>watching_clients := watching_clients s - 1\<rparr>)
      })"

fun isWatchedKeyExpired_loop :: "('c, 'v) redisServer \<Rightarrow> nat list \<Rightarrow> bool option" where
  "isWatchedKeyExpired_loop s [] = Some False"
| "isWatchedKeyExpired_loop s (w # ws) = do {
     wk \<leftarrow> wk_store s w;
     if wk_expired wk then isWatchedKeyExpired_loop s ws
     else if keyIsExpired (keys s) (wk_db wk) (wk_key wk) then Some True
     else isWatchedKeyExpired_loop s ws
   }"

definition isWatchedKeyExpired :: "nat \<Rightarrow> ('c, 'v) redisServer \<Rightarrow> bool option" where
  "isWatchedKeyExpired c s = isWatchedKeyExpired_loop s (c_watched_keys (clients s c))"

text \<open>The loop of \<open>touchWatchedKey\<close> over the nodes of the list; the iterator has read the following node
  before \<open>unwatchAllKeys\<close> removes the current one.\<close>

fun touch_loop :: "nat \<Rightarrow> bytes \<Rightarrow> nat list \<Rightarrow> ('c, 'v) redisServer \<Rightarrow> ('c, 'v) redisServer option" where
  "touch_loop db key [] s = Some s"
| "touch_loop db key (w # ws) s = do {
     wk \<leftarrow> wk_store s w;
     if wk_expired wk then
       (if db = wk_db wk \<and> key = wk_key wk \<and> dbFind (keys s) db key = None
        then touch_loop db key ws (s\<lparr>wk_store := (wk_store s)(w \<mapsto> wk\<lparr>wk_expired := False\<rparr>)\<rparr>)
        else Some s)
     else do {
       let s = upd_client (wk_client wk) (\<lambda>cl. cl\<lparr>CLIENT_DIRTY_CAS := True\<rparr>) s;
       s \<leftarrow> unwatchAllKeys (wk_client wk) s;
       touch_loop db key ws s
     }
   }"

definition touchWatchedKey :: "nat \<Rightarrow> bytes \<Rightarrow> ('c, 'v) redisServer \<Rightarrow> ('c, 'v) redisServer option" where
  "touchWatchedKey db key s =
     (case db_watched_keys s db key of None \<Rightarrow> Some s | Some cls \<Rightarrow> touch_loop db key cls s)"

text \<open>\<open>touchAllWatchedKeysInDb\<close>: the watchers of one key, then the keys of the dictionary.\<close>

fun touch_all_loop ::
    "nat \<Rightarrow> nat option \<Rightarrow> bytes \<Rightarrow> nat list \<Rightarrow> ('c, 'v) redisServer \<Rightarrow> ('c, 'v) redisServer option" where
  "touch_all_loop emptied replaced_with key [] s = Some s"
| "touch_all_loop emptied replaced_with key (w # ws) s = do {
     let exists_in_emptied = dbFind (keys s) emptied key \<noteq> None;
     let exists_in_replaced = (case replaced_with of None \<Rightarrow> False | Some r \<Rightarrow> dbFind (keys s) r key \<noteq> None);
     let expired_in_replaced = (case replaced_with of None \<Rightarrow> False | Some r \<Rightarrow> keyIsExpired (keys s) r key);
     wk \<leftarrow> wk_store s w;
     if wk_expired wk \<and> \<not> exists_in_replaced then
       touch_all_loop emptied replaced_with key ws (s\<lparr>wk_store := (wk_store s)(w \<mapsto> wk\<lparr>wk_expired := False\<rparr>)\<rparr>)
     else if wk_expired wk \<and> expired_in_replaced then touch_all_loop emptied replaced_with key ws s
     else if \<not> wk_expired wk \<and> \<not> exists_in_emptied \<and> expired_in_replaced then
       touch_all_loop emptied replaced_with key ws (s\<lparr>wk_store := (wk_store s)(w \<mapsto> wk\<lparr>wk_expired := True\<rparr>)\<rparr>)
     else touch_all_loop emptied replaced_with key ws
       (upd_client (wk_client wk) (\<lambda>cl. cl\<lparr>CLIENT_DIRTY_CAS := True\<rparr>) s)
   }"

text \<open>\<open>order\<close> is the order in which the iterator gives the keys of the dictionary.\<close>

fun touchAllWatchedKeysInDb ::
    "nat \<Rightarrow> nat option \<Rightarrow> bytes list \<Rightarrow> ('c, 'v) redisServer \<Rightarrow> ('c, 'v) redisServer option" where
  "touchAllWatchedKeysInDb emptied replaced_with [] s = Some s"
| "touchAllWatchedKeysInDb emptied replaced_with (key # order) s = do {
     s \<leftarrow> (if dbFind (keys s) emptied key \<noteq> None \<or>
              (case replaced_with of None \<Rightarrow> False | Some r \<Rightarrow> dbFind (keys s) r key \<noteq> None)
           then (case db_watched_keys s emptied key of
                   None \<Rightarrow> Some s
                 | Some cls \<Rightarrow> touch_all_loop emptied replaced_with key cls s)
           else Some s);
     touchAllWatchedKeysInDb emptied replaced_with order s
   }"

section \<open>The commands\<close>

definition discardTransaction :: "nat \<Rightarrow> ('c, 'v) redisServer \<Rightarrow> ('c, 'v) redisServer option" where
  "discardTransaction c s = do {
     let s = upd_client c initClientMultiState s;
     let s = upd_client c (\<lambda>cl. cl\<lparr>CLIENT_MULTI := False, CLIENT_DIRTY_CAS := False, CLIENT_DIRTY_EXEC := False\<rparr>) s;
     unwatchAllKeys c s
   }"

definition flagTransaction :: "nat \<Rightarrow> ('c, 'v) redisServer \<Rightarrow> ('c, 'v) redisServer" where
  "flagTransaction c s =
     (if CLIENT_MULTI (clients s c) then upd_client c (\<lambda>cl. cl\<lparr>CLIENT_DIRTY_EXEC := True\<rparr>) s else s)"

text \<open>The replies; \<open>'r\<close> are the replies of the other commands.\<close>

datatype 'r mreply =
    ReplyOk | ReplyQueued | ReplyNullArray | ReplyOf 'r | ReplyExec "'r mreply list"
  | ErrNestedMulti | ErrNoMulti | ErrWatchInMulti | ErrExecAbort | ErrNoPerm | ErrRejected | ErrDbIndex

definition multiCommand :: "nat \<Rightarrow> ('c, 'v) redisServer \<Rightarrow> 'r mreply \<times> ('c, 'v) redisServer" where
  "multiCommand c s =
     (if CLIENT_MULTI (clients s c) then (ErrNestedMulti, s)
      else (ReplyOk, upd_client c (\<lambda>cl. cl\<lparr>CLIENT_MULTI := True\<rparr>) s))"

definition discardCommand :: "nat \<Rightarrow> ('c, 'v) redisServer \<Rightarrow> ('r mreply \<times> ('c, 'v) redisServer) option" where
  "discardCommand c s =
     (if \<not> CLIENT_MULTI (clients s c) then Some (ErrNoMulti, s)
      else do { s \<leftarrow> discardTransaction c s; Some (ReplyOk, s) })"

fun watch_keys :: "nat \<Rightarrow> bytes list \<Rightarrow> ('c, 'v) redisServer \<Rightarrow> ('c, 'v) redisServer option" where
  "watch_keys c [] s = Some s"
| "watch_keys c (key # ks) s = do { s \<leftarrow> watchForKey c key s; watch_keys c ks s }"

definition watchCommand :: "nat \<Rightarrow> bytes list \<Rightarrow> ('c, 'v) redisServer \<Rightarrow> ('r mreply \<times> ('c, 'v) redisServer) option" where
  "watchCommand c ks s =
     (if CLIENT_MULTI (clients s c) then Some (ErrWatchInMulti, s)
      else if CLIENT_DIRTY_CAS (clients s c) then Some (ReplyOk, s)
      else do { s \<leftarrow> watch_keys c ks s; Some (ReplyOk, s) })"

definition unwatchCommand :: "nat \<Rightarrow> ('c, 'v) redisServer \<Rightarrow> ('r mreply \<times> ('c, 'v) redisServer) option" where
  "unwatchCommand c s = do {
     s \<leftarrow> unwatchAllKeys c s;
     Some (ReplyOk, upd_client c (\<lambda>cl. cl\<lparr>CLIENT_DIRTY_CAS := False\<rparr>) s)
   }"

definition selectDb :: "nat \<Rightarrow> int \<Rightarrow> ('c, 'v) redisServer \<Rightarrow> bool \<times> ('c, 'v) redisServer" where
  "selectDb c db s =
     (if db < 0 \<or> int (ks_dbnum (keys s)) \<le> db then (False, s)
      else (True, upd_client c (\<lambda>cl. cl\<lparr>c_db := nat db\<rparr>) s))"

definition selectCommand :: "nat \<Rightarrow> int \<Rightarrow> ('c, 'v) redisServer \<Rightarrow> 'r mreply \<times> ('c, 'v) redisServer" where
  "selectCommand c db s = (let (fine, s) = selectDb c db s in (if fine then ReplyOk else ErrDbIndex, s))"

text \<open>What the other commands do, given the database of the client.\<close>

type_synonym ('c, 'v, 'r) semantics =
  "'c \<Rightarrow> bytes list \<Rightarrow> nat \<Rightarrow> 'v keyspace \<Rightarrow> 'r \<times> ('v keyspace \<times> nat \<times> bytes) list"

text \<open>\<open>signalModifiedKey\<close> after every effect.\<close>

fun run_effects :: "('v keyspace \<times> nat \<times> bytes) list \<Rightarrow> ('c, 'v) redisServer \<Rightarrow> ('c, 'v) redisServer option" where
  "run_effects [] s = Some s"
| "run_effects (e # es) s = do {
     s \<leftarrow> touchWatchedKey (fst (snd e)) (snd (snd e)) (s\<lparr>keys := fst e\<rparr>);
     run_effects es s
   }"

definition call ::
    "('c, 'v, 'r) semantics \<Rightarrow> nat \<Rightarrow> 'c redisCommand \<Rightarrow> bytes list \<Rightarrow> ('c, 'v) redisServer \<Rightarrow>
     ('r mreply \<times> ('c, 'v) redisServer) option" where
  "call sem c cmd argv s =
     (case cmd of
        CmdUnwatch \<Rightarrow> unwatchCommand c s
      | CmdSelect db \<Rightarrow> Some (selectCommand c db s)
      | CmdOther x \<Rightarrow> do {
          let (r, es) = sem x argv (c_db (clients s c)) (keys s);
          s \<leftarrow> run_effects es s;
          Some (ReplyOf r, s) })"

text \<open>The queued commands of \<open>EXEC\<close>.\<close>

fun exec_loop ::
    "('c, 'v, 'r) semantics \<Rightarrow> nat \<Rightarrow> 'c multiCmd list \<Rightarrow> ('c, 'v) redisServer \<Rightarrow>
     ('r mreply list \<times> ('c, 'v) redisServer) option" where
  "exec_loop sem c [] s = Some ([], s)"
| "exec_loop sem c (mc # mcs) s = do {
     (r, s) \<leftarrow> (if \<not> acl s c (mc_cmd mc) (mc_argv mc) then Some (ErrNoPerm, s)
               else call sem c (mc_cmd mc) (mc_argv mc) s);
     (rs, s) \<leftarrow> exec_loop sem c mcs s;
     Some (r # rs, s)
   }"

definition execCommand ::
    "('c, 'v, 'r) semantics \<Rightarrow> nat \<Rightarrow> ('c, 'v) redisServer \<Rightarrow> ('r mreply \<times> ('c, 'v) redisServer) option" where
  "execCommand sem c s =
     (if \<not> CLIENT_MULTI (clients s c) then Some (ErrNoMulti, s)
      else do {
        expired \<leftarrow> isWatchedKeyExpired c s;
        let s = (if expired then upd_client c (\<lambda>cl. cl\<lparr>CLIENT_DIRTY_CAS := True\<rparr>) s else s);
        if CLIENT_DIRTY_CAS (clients s c) \<or> CLIENT_DIRTY_EXEC (clients s c) then do {
          let r = (if CLIENT_DIRTY_EXEC (clients s c) then ErrExecAbort else ReplyNullArray);
          s \<leftarrow> discardTransaction c s;
          Some (r, s)
        }
        else do {
          let old = CLIENT_DENY_BLOCKING (clients s c);
          let s = upd_client c (\<lambda>cl. cl\<lparr>CLIENT_DENY_BLOCKING := True\<rparr>) s;
          s \<leftarrow> unwatchAllKeys c s;
          let s = s\<lparr>in_exec := True\<rparr>;
          (rs, s) \<leftarrow> exec_loop sem c (commands (mstate (clients s c))) s;
          let s = (if \<not> old then upd_client c (\<lambda>cl. cl\<lparr>CLIENT_DENY_BLOCKING := False\<rparr>) s else s);
          s \<leftarrow> discardTransaction c s;
          Some (ReplyExec rs, s\<lparr>in_exec := False\<rparr>)
        }
      })"

definition execCommandAbort :: "nat \<Rightarrow> ('c, 'v) redisServer \<Rightarrow> ('r mreply \<times> ('c, 'v) redisServer) option" where
  "execCommandAbort c s = do { s \<leftarrow> discardTransaction c s; Some (ErrExecAbort, s) }"

definition rejectCommand ::
    "nat \<Rightarrow> bool \<Rightarrow> ('c, 'v) redisServer \<Rightarrow> ('r mreply \<times> ('c, 'v) redisServer) option" where
  "rejectCommand c is_exec s = do {
     let s = flagTransaction c s;
     if is_exec then execCommandAbort c s else Some (ErrRejected, s)
   }"

section \<open>Events\<close>

datatype 'c request =
    ReqMulti | ReqExec | ReqDiscard | ReqWatch "bytes list" | ReqUnwatch
  | ReqSelect int "bytes list" | ReqOther 'c "bytes list"

text \<open>The end of \<open>processCommand\<close>; the flags of the command are for the queue.\<close>

definition processCommand ::
    "('c, 'v, 'r) semantics \<Rightarrow> nat \<Rightarrow> 'c request \<Rightarrow> 64 word \<Rightarrow> ('c, 'v) redisServer \<Rightarrow>
     ('r mreply \<times> ('c, 'v) redisServer) option" where
  "processCommand sem c req flags s =
     (let queue = (\<lambda>cmd argv. do {
            cl \<leftarrow> queueMultiCommand cmd argv flags (clients s c);
            Some (ReplyQueued, upd_client c (\<lambda>_. cl) s) })
      in case req of
           ReqMulti \<Rightarrow> Some (multiCommand c s)
         | ReqExec \<Rightarrow> execCommand sem c s
         | ReqDiscard \<Rightarrow> discardCommand c s
         | ReqWatch ks \<Rightarrow> watchCommand c ks s
         | ReqUnwatch \<Rightarrow> if CLIENT_MULTI (clients s c) then queue CmdUnwatch [] else call sem c CmdUnwatch [] s
         | ReqSelect db argv \<Rightarrow>
             if CLIENT_MULTI (clients s c) then queue (CmdSelect db) argv else call sem c (CmdSelect db) argv s
         | ReqOther x argv \<Rightarrow>
             if CLIENT_MULTI (clients s c) then queue (CmdOther x) argv else call sem c (CmdOther x) argv s)"

text \<open>Besides requests: rejected commands, the passing of time, changes of the access rules, the end of
  a client, and the commands that empty or swap a database.\<close>

datatype 'c event =
    EvRequest nat "'c request" "64 word"
  | EvReject nat bool
  | EvTime int
  | EvAcl "nat \<Rightarrow> 'c redisCommand \<Rightarrow> bytes list \<Rightarrow> bool"
  | EvFree nat
  | EvTouchAll nat "nat option" "bytes list"

definition createClient_multi :: "'c client" where
  "createClient_multi = initClientMultiState
     \<lparr>CLIENT_MULTI = False, CLIENT_DIRTY_CAS = False, CLIENT_DIRTY_EXEC = False, CLIENT_DENY_BLOCKING = False,
      c_db = 0, mstate = \<lparr>commands = [], cmd_flags = 0, cmd_inv_flags = 0, argv_len_sums = 0, alloc_count = 0\<rparr>,
      c_watched_keys = []\<rparr>"

text \<open>A client goes; the next one with its number is new.\<close>

definition freeClient_multi :: "nat \<Rightarrow> ('c, 'v) redisServer \<Rightarrow> ('c, 'v) redisServer option" where
  "freeClient_multi c s = do {
     s \<leftarrow> unwatchAllKeys c s;
     Some (upd_client c (\<lambda>_. createClient_multi) s)
   }"

fun exec_event ::
    "('c, 'v, 'r) semantics \<Rightarrow> 'c event \<Rightarrow> ('c, 'v) redisServer \<Rightarrow> ('r mreply \<times> ('c, 'v) redisServer) option" where
  "exec_event sem (EvRequest c req flags) s = processCommand sem c req flags s"
| "exec_event sem (EvReject c is_exec) s = rejectCommand c is_exec s"
| "exec_event sem (EvTime t) s = Some (ReplyOk, s\<lparr>keys := (keys s)\<lparr>ks_now := t\<rparr>\<rparr>)"
| "exec_event sem (EvAcl a) s = Some (ReplyOk, s\<lparr>acl := a\<rparr>)"
| "exec_event sem (EvFree c) s = do { s \<leftarrow> freeClient_multi c s; Some (ReplyOk, s) }"
| "exec_event sem (EvTouchAll db r order) s = do { s \<leftarrow> touchAllWatchedKeysInDb db r order s; Some (ReplyOk, s) }"

end
