(* ===== verification/Multi_Watch.thy ===== *)
theory Multi_Watch
  imports Multi
begin

text \<open>
  The watched keys and the transactions of \<^verbatim>\<open>multi.c\<close>: the invariant of the two sets of lists, and what
  \<open>WATCH\<close> and \<open>EXEC\<close> guarantee in every reachable state of the server, whatever the clients do and
  whatever the commands do to the keys.
\<close>

section \<open>The invariant\<close>

abbreviation watched :: "('c, 'v) redisServer \<Rightarrow> nat \<Rightarrow> nat list" where
  "watched s c \<equiv> c_watched_keys (clients s c)"

definition watchers_ok :: "('c, 'v) redisServer \<Rightarrow> bool" where
  "watchers_ok s \<longleftrightarrow>
     (\<forall>c. \<forall>w \<in> set (watched s c). \<exists>wk. wk_store s w = Some wk \<and> wk_client wk = c) \<and>
     (\<forall>w wk. wk_store s w = Some wk \<longrightarrow> w < wk_next s \<and> w \<in> set (watched s (wk_client wk)) \<and>
        (\<exists>l. db_watched_keys s (wk_db wk) (wk_key wk) = Some l \<and> w \<in> set l)) \<and>
     (\<forall>db key l. db_watched_keys s db key = Some l \<longrightarrow> l \<noteq> [] \<and> distinct l \<and>
        (\<forall>w \<in> set l. \<exists>wk. wk_store s w = Some wk \<and> wk_db wk = db \<and> wk_key wk = key)) \<and>
     (\<forall>c. distinct (watched s c)) \<and>
     (\<forall>w w' wk wk'. wk_store s w = Some wk \<longrightarrow> wk_store s w' = Some wk' \<longrightarrow> wk_client wk = wk_client wk' \<longrightarrow>
        wk_db wk = wk_db wk' \<longrightarrow> wk_key wk = wk_key wk' \<longrightarrow> w = w') \<and>
     finite {c. watched s c \<noteq> []} \<and> watching_clients s = card {c. watched s c \<noteq> []}"

definition queue_ok :: "'c client \<Rightarrow> bool" where
  "queue_ok c \<longleftrightarrow> length (commands (mstate c)) \<le> alloc_count (mstate c) \<and> alloc_count (mstate c) \<le> INT_MAX \<and>
     (commands (mstate c) \<noteq> [] \<longrightarrow> 2 \<le> alloc_count (mstate c)) \<and>
     (\<not> CLIENT_MULTI c \<longrightarrow> commands (mstate c) = [] \<and> \<not> CLIENT_DIRTY_EXEC c)"

text \<open>Removing a set of \<open>watchedKey\<close>s from the dictionaries.\<close>

definition drop_wks :: "nat set \<Rightarrow> ('c, 'v) redisServer \<Rightarrow> ('c, 'v) redisServer" where
  "drop_wks P s = s\<lparr>
     wk_store := (\<lambda>w. if w \<in> P then None else wk_store s w),
     db_watched_keys := (\<lambda>db key. case db_watched_keys s db key of None \<Rightarrow> None
        | Some l \<Rightarrow> if filter (\<lambda>w. w \<notin> P) l = [] then None else Some (filter (\<lambda>w. w \<notin> P) l))\<rparr>"

lemma drop_wks_simps [simp]:
  "clients (drop_wks P s) = clients s" "keys (drop_wks P s) = keys s" "wk_next (drop_wks P s) = wk_next s"
  "watching_clients (drop_wks P s) = watching_clients s" "in_exec (drop_wks P s) = in_exec s" "acl (drop_wks P s) = acl s"
  "wk_store (drop_wks P s) w = (if w \<in> P then None else wk_store s w)"
  by (simp_all add: drop_wks_def)

lemma upd_client_simps [simp]:
  "clients (upd_client c f s) = (clients s)(c := f (clients s c))" "keys (upd_client c f s) = keys s"
  "db_watched_keys (upd_client c f s) = db_watched_keys s" "wk_store (upd_client c f s) = wk_store s"
  "wk_next (upd_client c f s) = wk_next s" "watching_clients (upd_client c f s) = watching_clients s"
  "in_exec (upd_client c f s) = in_exec s" "acl (upd_client c f s) = acl s"
  by (simp_all add: upd_client_def)

lemma watchers_okD:
  assumes "watchers_ok s"
  shows "w \<in> set (watched s c) \<Longrightarrow> \<exists>wk. wk_store s w = Some wk \<and> wk_client wk = c"
    "wk_store s w = Some wk \<Longrightarrow> w < wk_next s \<and> w \<in> set (watched s (wk_client wk)) \<and>
        (\<exists>l. db_watched_keys s (wk_db wk) (wk_key wk) = Some l \<and> w \<in> set l)"
    "db_watched_keys s db key = Some l \<Longrightarrow> l \<noteq> [] \<and> distinct l \<and>
        (\<forall>w \<in> set l. \<exists>wk. wk_store s w = Some wk \<and> wk_db wk = db \<and> wk_key wk = key)"
    "distinct (watched s c)"
    "wk_store s w = Some wk \<Longrightarrow> wk_store s w' = Some wk' \<Longrightarrow> wk_client wk = wk_client wk' \<Longrightarrow>
        wk_db wk = wk_db wk' \<Longrightarrow> wk_key wk = wk_key wk' \<Longrightarrow> w = w'"
    "finite {c. watched s c \<noteq> []}" "watching_clients s = card {c. watched s c \<noteq> []}"
  using assms unfolding watchers_ok_def by blast+

lemma unwatch_one_drop:
  assumes ok: "watchers_ok s" and w: "wk_store s w = Some wk" and P: "w \<notin> P"
  shows "unwatch_one w (drop_wks P s) = Some (drop_wks (insert w P) s)"
proof -
  obtain l where l: "db_watched_keys s (wk_db wk) (wk_key wk) = Some l" "w \<in> set l"
    using watchers_okD(2) [OF ok w] by blast
  have d: "distinct l" using watchers_okD(3) [OF ok l(1)] by blast
  have wP: "w \<in> set (filter (\<lambda>w. w \<notin> P) l)" using l(2) P by simp
  then have ne: "filter (\<lambda>w. w \<notin> P) l \<noteq> []" by (metis empty_iff empty_set)
  have r: "remove1 w (filter (\<lambda>w. w \<notin> P) l) = filter (\<lambda>w'. w' \<notin> insert w P) l"
    using d by (auto simp: distinct_remove1_removeAll removeAll_filter_not_eq intro!: filter_cong)
  have other: "filter (\<lambda>w'. w' \<notin> insert w P) l' = filter (\<lambda>w. w \<notin> P) l'"
    if "db_watched_keys s db key = Some l'" "(db, key) \<noteq> (wk_db wk, wk_key wk)" for db key l'
  proof -
    have "w \<notin> set l'" using watchers_okD(3) [OF ok that(1)] w that(2) by auto
    then show ?thesis by (intro filter_cong) auto
  qed
  have "db_watched_keys (drop_wks P s) (wk_db wk) (wk_key wk) = Some (filter (\<lambda>w. w \<notin> P) l)"
    using l(1) ne by (simp add: drop_wks_def)
  then have "unwatch_one w (drop_wks P s) = Some ((drop_wks P s)\<lparr>
      db_watched_keys := (db_watched_keys (drop_wks P s))(wk_db wk := (db_watched_keys (drop_wks P s) (wk_db wk))
        (wk_key wk := (if filter (\<lambda>w'. w' \<notin> insert w P) l = [] then None else Some (filter (\<lambda>w'. w' \<notin> insert w P) l)))),
      wk_store := (wk_store (drop_wks P s))(w := None)\<rparr>)"
    using w P wP r by (simp add: unwatch_one_def)
  moreover have "(wk_store (drop_wks P s))(w := None) = wk_store (drop_wks (insert w P) s)"
    by (auto simp: drop_wks_def)
  moreover have "(db_watched_keys (drop_wks P s))(wk_db wk := (db_watched_keys (drop_wks P s) (wk_db wk))
        (wk_key wk := (if filter (\<lambda>w'. w' \<notin> insert w P) l = [] then None else Some (filter (\<lambda>w'. w' \<notin> insert w P) l)))) =
      db_watched_keys (drop_wks (insert w P) s)"
  proof (intro ext)
    fix db key
    show "((db_watched_keys (drop_wks P s))(wk_db wk := (db_watched_keys (drop_wks P s) (wk_db wk))
        (wk_key wk := (if filter (\<lambda>w'. w' \<notin> insert w P) l = [] then None else Some (filter (\<lambda>w'. w' \<notin> insert w P) l))))) db key =
      db_watched_keys (drop_wks (insert w P) s) db key"
    proof (cases "(db, key) = (wk_db wk, wk_key wk)")
      case True
      then show ?thesis using l(1) by (simp add: drop_wks_def del: insert_iff)
    next
      case False
      then show ?thesis using other [of db key]
        by (auto simp: drop_wks_def split: option.split simp del: insert_iff)
    qed
  qed
  ultimately show ?thesis by (simp add: drop_wks_def)
qed

lemma unwatch_loop_drop:
  assumes ok: "watchers_ok s" and ws: "distinct ws" "set ws \<inter> P = {}" "\<forall>w \<in> set ws. wk_store s w \<noteq> None"
  shows "unwatch_loop ws (drop_wks P s) = Some (drop_wks (P \<union> set ws) s)"
  using ws
proof (induction ws arbitrary: P)
  case (Cons w ws)
  obtain wk where "wk_store s w = Some wk" using Cons.prems(3) by auto
  then have "unwatch_one w (drop_wks P s) = Some (drop_wks (insert w P) s)"
    using Cons.prems(2) by (intro unwatch_one_drop [OF ok]) auto
  moreover have "unwatch_loop ws (drop_wks (insert w P) s) = Some (drop_wks (insert w P \<union> set ws) s)"
    using Cons.prems by (intro Cons.IH) auto
  ultimately show ?case by simp
qed simp

lemma drop_wks_empty: "watchers_ok s \<Longrightarrow> drop_wks {} s = s"
  using watchers_okD(3) [of s]
  by (simp add: drop_wks_def) (intro redisServer.equality; auto simp: fun_eq_iff split: option.split)

definition unwatched :: "nat \<Rightarrow> ('c, 'v) redisServer \<Rightarrow> ('c, 'v) redisServer" where
  "unwatched c s =
     (if watched s c = [] then s
      else (upd_client c (\<lambda>cl. cl\<lparr>c_watched_keys := []\<rparr>) (drop_wks (set (watched s c)) s))
        \<lparr>watching_clients := watching_clients s - 1\<rparr>)"

lemma unwatchAllKeys_eq:
  assumes ok: "watchers_ok s" shows "unwatchAllKeys c s = Some (unwatched c s)"
proof -
  have "\<forall>w \<in> set (watched s c). wk_store s w \<noteq> None" using watchers_okD(1) [OF ok] by fastforce
  then have "unwatch_loop (watched s c) (drop_wks {} s) = Some (drop_wks (set (watched s c)) s)"
    using unwatch_loop_drop [OF ok, of "watched s c" "{}"] watchers_okD(4) [OF ok] by simp
  then show ?thesis by (simp add: unwatchAllKeys_def unwatched_def drop_wks_empty [OF ok])
qed

lemma unwatched_simps [simp]:
  "keys (unwatched c s) = keys s" "in_exec (unwatched c s) = in_exec s" "acl (unwatched c s) = acl s"
  "clients (unwatched c s) = (clients s)(c := (clients s c)\<lparr>c_watched_keys := []\<rparr>)"
  "wk_next (unwatched c s) = wk_next s"
  by (auto simp: unwatched_def fun_eq_iff)

lemma unwatched_store:
  "wk_store (unwatched c s) w = (if w \<in> set (watched s c) then None else wk_store s w)"
  by (simp add: unwatched_def)

lemma unwatched_db:
  assumes "watchers_ok s"
  shows "db_watched_keys (unwatched c s) db key = (case db_watched_keys s db key of None \<Rightarrow> None
    | Some l \<Rightarrow> if filter (\<lambda>w. w \<notin> set (watched s c)) l = [] then None else Some (filter (\<lambda>w. w \<notin> set (watched s c)) l))"
proof (cases "watched s c = []")
  case True
  then show ?thesis using watchers_okD(3) [OF assms, of db key] by (auto simp: unwatched_def split: option.split)
qed (simp add: unwatched_def drop_wks_def)

lemma watchers_ok_unwatched:
  assumes ok: "watchers_ok s" shows "watchers_ok (unwatched c s)"
proof -
  note W = watchers_okD [OF ok]
  have cl: "wk_client wk = c \<longleftrightarrow> w \<in> set (watched s c)" if "wk_store s w = Some wk" for w wk
    using W(1,2) that by fastforce
  have 1: "\<exists>wk. wk_store (unwatched c s) w = Some wk \<and> wk_client wk = c'" if "w \<in> set (watched (unwatched c s) c')" for w c'
    using that W(1) [of w c'] cl by (auto simp: unwatched_store split: if_splits)
  have 2: "w < wk_next s \<and> w \<in> set (watched (unwatched c s) (wk_client wk)) \<and>
      (\<exists>l. db_watched_keys (unwatched c s) (wk_db wk) (wk_key wk) = Some l \<and> w \<in> set l)"
    if "wk_store (unwatched c s) w = Some wk" for w wk
  proof -
    have w: "wk_store s w = Some wk" "w \<notin> set (watched s c)" using that by (auto simp: unwatched_store split: if_splits)
    then obtain l where l: "db_watched_keys s (wk_db wk) (wk_key wk) = Some l" "w \<in> set l" using W(2) by blast
    then have "w \<in> set (filter (\<lambda>w. w \<notin> set (watched s c)) l)" using w(2) by simp
    then show ?thesis using W(2) [OF w(1)] cl [OF w(1)] w(2) l(1)
      by (auto simp: unwatched_db [OF ok] filter_empty_conv)
  qed
  have 3: "l \<noteq> [] \<and> distinct l \<and> (\<forall>w \<in> set l. \<exists>wk. wk_store (unwatched c s) w = Some wk \<and> wk_db wk = db \<and> wk_key wk = key)"
    if "db_watched_keys (unwatched c s) db key = Some l" for db key l
    using that W(3) [of db key] by (auto simp: unwatched_db [OF ok] unwatched_store split: option.splits if_splits)
  have 5: "w = w'" if "wk_store (unwatched c s) w = Some wk" "wk_store (unwatched c s) w' = Some wk'"
      "wk_client wk = wk_client wk'" "wk_db wk = wk_db wk'" "wk_key wk = wk_key wk'" for w w' wk wk'
    using that W(5) by (auto simp: unwatched_store split: if_splits)
  have eq: "{c'. watched (unwatched c s) c' \<noteq> []} = {c'. watched s c' \<noteq> []} - {c}" by auto
  have 7: "watching_clients (unwatched c s) = card {c'. watched (unwatched c s) c' \<noteq> []}"
    using W(6,7) unfolding eq by (cases "watched s c = []") (simp_all add: unwatched_def card_Diff_singleton)
  show ?thesis unfolding watchers_ok_def
    using 1 2 3 5 7 W(4,6) eq by (intro conjI allI impI ballI) (simp_all add: eq)
qed

section \<open>What the operations keep\<close>

lemma watchers_ok_upd [simp]:
  assumes "\<And>cl. c_watched_keys (f cl) = c_watched_keys cl"
  shows "watchers_ok (upd_client c f s) \<longleftrightarrow> watchers_ok s"
proof -
  have "watched (upd_client c f s) = watched s" using assms by (auto simp: fun_eq_iff)
  then show ?thesis unfolding watchers_ok_def by (simp add: fun_eq_iff del: upd_client_simps(1))
qed

lemma watchers_ok_fields [simp]:
  "watchers_ok (s\<lparr>keys := k\<rparr>) \<longleftrightarrow> watchers_ok s" "watchers_ok (s\<lparr>in_exec := b\<rparr>) \<longleftrightarrow> watchers_ok s"
  "watchers_ok (s\<lparr>acl := a\<rparr>) \<longleftrightarrow> watchers_ok s"
  by (simp_all add: watchers_ok_def)

lemma watchers_ok_expired:
  assumes ok: "watchers_ok s" and w: "wk_store s w = Some wk"
  shows "watchers_ok (s\<lparr>wk_store := (wk_store s)(w \<mapsto> wk\<lparr>wk_expired := b\<rparr>)\<rparr>)" (is "watchers_ok ?s")
proof -
  note W = watchers_okD [OF ok]
  have fwd: "\<exists>k. wk_store ?s v = Some k \<and> wk_client k = wk_client k0 \<and> wk_db k = wk_db k0 \<and> wk_key k = wk_key k0"
    if "wk_store s v = Some k0" for v k0
    using that w by (cases "v = w") auto
  have bwd: "\<exists>k0. wk_store s v = Some k0 \<and> wk_client k = wk_client k0 \<and> wk_db k = wk_db k0 \<and> wk_key k = wk_key k0"
    if "wk_store ?s v = Some k" for v k
    using that w by (cases "v = w") auto
  have 1: "\<exists>k. wk_store ?s v = Some k \<and> wk_client k = c" if v: "v \<in> set (watched ?s c)" for v c
  proof -
    obtain k0 where "wk_store s v = Some k0" "wk_client k0 = c" using W(1) [of v c] v by auto
    then show ?thesis using fwd by blast
  qed
  have 2: "v < wk_next ?s \<and> v \<in> set (watched ?s (wk_client k)) \<and>
      (\<exists>l. db_watched_keys ?s (wk_db k) (wk_key k) = Some l \<and> v \<in> set l)" if v: "wk_store ?s v = Some k" for v k
  proof -
    obtain k0 where k0: "wk_store s v = Some k0" "wk_client k = wk_client k0" "wk_db k = wk_db k0" "wk_key k = wk_key k0"
      using bwd [OF v] by blast
    then show ?thesis using W(2) [OF k0(1)] by simp
  qed
  have 3: "l \<noteq> [] \<and> distinct l \<and> (\<forall>v \<in> set l. \<exists>k. wk_store ?s v = Some k \<and> wk_db k = db \<and> wk_key k = key)"
    if "db_watched_keys ?s db key = Some l" for db key l
  proof -
    have l: "l \<noteq> []" "distinct l" "\<forall>v \<in> set l. \<exists>k. wk_store s v = Some k \<and> wk_db k = db \<and> wk_key k = key"
      using W(3) [of db key l] that by simp_all
    have "\<exists>k. wk_store ?s v = Some k \<and> wk_db k = db \<and> wk_key k = key" if v: "v \<in> set l" for v
    proof -
      obtain k0 where "wk_store s v = Some k0" "wk_db k0 = db" "wk_key k0 = key" using l(3) v by blast
      then show ?thesis using fwd by blast
    qed
    then show ?thesis using l(1,2) by blast
  qed
  have 5: "v = v'" if v: "wk_store ?s v = Some k" "wk_store ?s v' = Some k'" "wk_client k = wk_client k'"
      "wk_db k = wk_db k'" "wk_key k = wk_key k'" for v v' k k'
  proof -
    obtain k0 where "wk_store s v = Some k0" "wk_client k = wk_client k0" "wk_db k = wk_db k0" "wk_key k = wk_key k0"
      using bwd [OF v(1)] by blast
    moreover obtain k0' where "wk_store s v' = Some k0'" "wk_client k' = wk_client k0'" "wk_db k' = wk_db k0'" "wk_key k' = wk_key k0'"
      using bwd [OF v(2)] by blast
    ultimately show ?thesis using W(5) [of v k0 v' k0'] v(3-5) by simp
  qed
  show ?thesis unfolding watchers_ok_def
    using 1 2 3 5 W(4,6,7) by (intro conjI allI impI ballI) (simp_all del: fun_upd_apply)
qed

text \<open>Touching keys only marks clients, and ends the watches of marked ones.\<close>

definition marked :: "'c client \<Rightarrow> 'c client \<Rightarrow> bool" where
  "marked cl cl' \<longleftrightarrow> cl' = cl \<or> cl' = cl\<lparr>CLIENT_DIRTY_CAS := True\<rparr> \<or> cl' = cl\<lparr>CLIENT_DIRTY_CAS := True, c_watched_keys := []\<rparr>"

definition touched :: "('c, 'v) redisServer \<Rightarrow> ('c, 'v) redisServer \<Rightarrow> bool" where
  "touched s s' \<longleftrightarrow> watchers_ok s' \<and> in_exec s' = in_exec s \<and> acl s' = acl s \<and> (\<forall>c. marked (clients s c) (clients s' c))"

lemma marked_refl [simp]: "marked cl cl" by (simp add: marked_def)

lemma marked_trans: "marked a b \<Longrightarrow> marked b c \<Longrightarrow> marked a c" by (auto simp: marked_def)

lemma touched_refl: "watchers_ok s \<Longrightarrow> touched s s" by (simp add: touched_def)

lemma touched_trans: "touched s s' \<Longrightarrow> touched s' s'' \<Longrightarrow> touched s s''"
  unfolding touched_def by (metis marked_trans)

lemma touched_fields:
  assumes "touched s s'"
  shows "CLIENT_MULTI (clients s' c) = CLIENT_MULTI (clients s c)"
    "CLIENT_DIRTY_EXEC (clients s' c) = CLIENT_DIRTY_EXEC (clients s c)"
    "mstate (clients s' c) = mstate (clients s c)"
    "CLIENT_DIRTY_CAS (clients s c) \<Longrightarrow> CLIENT_DIRTY_CAS (clients s' c)"
    "watched s c = [] \<Longrightarrow> watched s' c = []"
    "watchers_ok s'" "in_exec s' = in_exec s" "acl s' = acl s" "c_db (clients s' c) = c_db (clients s c)"
proof -
  have "marked (clients s c) (clients s' c)" using assms by (simp add: touched_def)
  then show "CLIENT_MULTI (clients s' c) = CLIENT_MULTI (clients s c)"
    "CLIENT_DIRTY_EXEC (clients s' c) = CLIENT_DIRTY_EXEC (clients s c)"
    "mstate (clients s' c) = mstate (clients s c)"
    "CLIENT_DIRTY_CAS (clients s c) \<Longrightarrow> CLIENT_DIRTY_CAS (clients s' c)"
    "watched s c = [] \<Longrightarrow> watched s' c = []" "c_db (clients s' c) = c_db (clients s c)"
    by (auto simp: marked_def)
  show "watchers_ok s'" "in_exec s' = in_exec s" "acl s' = acl s" using assms by (simp_all add: touched_def)
qed

definition watches :: "('c, 'v) redisServer \<Rightarrow> nat \<Rightarrow> bytes \<Rightarrow> nat \<Rightarrow> bool" where
  "watches s db key w \<longleftrightarrow> (\<exists>wk. wk_store s w = Some wk \<and> wk_db wk = db \<and> wk_key wk = key)"

lemma mark_client:
  assumes ok: "watchers_ok s" and w: "wk_store s w = Some wk"
  defines "c \<equiv> wk_client wk"
  defines "s' \<equiv> unwatched c (upd_client c (\<lambda>cl. cl\<lparr>CLIENT_DIRTY_CAS := True\<rparr>) s)"
  shows "unwatchAllKeys c (upd_client c (\<lambda>cl. cl\<lparr>CLIENT_DIRTY_CAS := True\<rparr>) s) = Some s'"
    "touched s s'" "keys s' = keys s" "CLIENT_DIRTY_CAS (clients s' c)" "watched s' c = []"
    "watches s (wk_db wk) (wk_key wk) w' \<Longrightarrow> w' \<noteq> w \<Longrightarrow> wk_store s' w' = wk_store s w'"
    "c' \<noteq> c \<Longrightarrow> clients s' c' = clients s c'"
proof -
  have ok1: "watchers_ok (upd_client c (\<lambda>cl. cl\<lparr>CLIENT_DIRTY_CAS := True\<rparr>) s)" using ok by simp
  show "unwatchAllKeys c (upd_client c (\<lambda>cl. cl\<lparr>CLIENT_DIRTY_CAS := True\<rparr>) s) = Some s'"
    unfolding s'_def by (rule unwatchAllKeys_eq [OF ok1])
  show "touched s s'" using watchers_ok_unwatched [OF ok1, of c] by (simp add: touched_def s'_def marked_def)
  show "keys s' = keys s" "CLIENT_DIRTY_CAS (clients s' c)" "watched s' c = []" by (simp_all add: s'_def)
  show "c' \<noteq> c \<Longrightarrow> clients s' c' = clients s c'" by (simp add: s'_def)
  assume w': "watches s (wk_db wk) (wk_key wk) w'" "w' \<noteq> w"
  then obtain wk' where wk': "wk_store s w' = Some wk'" "wk_db wk' = wk_db wk" "wk_key wk' = wk_key wk"
    by (auto simp: watches_def)
  then have "wk_client wk' \<noteq> c" using watchers_okD(5) [OF ok wk'(1) w] w'(2) by (auto simp: c_def)
  then have "w' \<notin> set (watched s c)" using watchers_okD(1) [OF ok, of w' c] wk'(1) by auto
  then show "wk_store s' w' = wk_store s w'" by (simp add: s'_def unwatched_store)
qed

lemma touch_loop_ok:
  assumes "watchers_ok s" "distinct ws" "\<forall>w \<in> set ws. watches s db key w"
  shows "\<exists>s'. touch_loop db key ws s = Some s' \<and> touched s s' \<and> keys s' = keys s \<and>
    ((\<forall>w \<in> set ws. \<forall>wk. wk_store s w = Some wk \<longrightarrow> \<not> wk_expired wk) \<longrightarrow>
       (\<forall>w \<in> set ws. \<forall>wk. wk_store s w = Some wk \<longrightarrow> CLIENT_DIRTY_CAS (clients s' (wk_client wk))))"
  using assms
proof (induction ws arbitrary: s)
  case Nil
  then show ?case by (simp add: touched_refl)
next
  case (Cons w ws)
  note ok = Cons.prems(1)
  obtain wk where wk: "wk_store s w = Some wk" "wk_db wk = db" "wk_key wk = key"
    using Cons.prems(3) by (auto simp: watches_def)
  show ?case
  proof (cases "wk_expired wk")
    case True
    show ?thesis
    proof (cases "dbFind (keys s) db key = None")
      case False
      then show ?thesis using True wk ok by (auto simp: touched_refl)
    next
      case miss: True
      define s1 where "s1 = s\<lparr>wk_store := (wk_store s)(w \<mapsto> wk\<lparr>wk_expired := False\<rparr>)\<rparr>"
      have ok1: "watchers_ok s1" unfolding s1_def by (rule watchers_ok_expired [OF ok wk(1)])
      have "\<forall>w \<in> set ws. watches s1 db key w" using Cons.prems(3) wk by (auto simp: s1_def watches_def)
      then obtain s' where s': "touch_loop db key ws s1 = Some s'" "touched s1 s'" "keys s' = keys s1"
        using Cons.IH [OF ok1] Cons.prems(2) by auto
      have "touched s s1" using ok1 by (simp add: touched_def s1_def)
      then have "touched s s'" using s'(2) by (rule touched_trans)
      then show ?thesis using s' True miss wk by (auto simp: s1_def)
    qed
  next
    case False
    define c where "c = wk_client wk"
    define s1 where "s1 = unwatched c (upd_client c (\<lambda>cl. cl\<lparr>CLIENT_DIRTY_CAS := True\<rparr>) s)"
    note m = mark_client [OF ok wk(1), folded c_def, folded s1_def, unfolded wk(2,3)]
    have ok1: "watchers_ok s1" using m(2) by (simp add: touched_def)
    have keep: "wk_store s1 w' = wk_store s w'" if "w' \<in> set ws" for w'
      using that Cons.prems(2,3) by (intro m(6)) auto
    then have "\<forall>w' \<in> set ws. watches s1 db key w'" using Cons.prems(3) by (simp add: watches_def)
    then obtain s' where s': "touch_loop db key ws s1 = Some s'" "touched s1 s'" "keys s' = keys s1"
      "(\<forall>w \<in> set ws. \<forall>wk. wk_store s1 w = Some wk \<longrightarrow> \<not> wk_expired wk) \<longrightarrow>
       (\<forall>w \<in> set ws. \<forall>wk. wk_store s1 w = Some wk \<longrightarrow> CLIENT_DIRTY_CAS (clients s' (wk_client wk)))"
      using Cons.IH [OF ok1] Cons.prems(2) by auto
    have "CLIENT_DIRTY_CAS (clients s' c)" using touched_fields(4) [OF s'(2)] m(4) by blast
    moreover have "touched s s'" using m(2) s'(2) by (rule touched_trans)
    moreover have "touch_loop db key (w # ws) s = Some s'"
      using wk False m(1) s'(1) by (simp add: c_def [symmetric])
    ultimately show ?thesis using s'(3,4) m(3) keep wk by (auto simp: c_def)
  qed
qed

lemma touchWatchedKey_ok:
  assumes ok: "watchers_ok s"
  shows "\<exists>s'. touchWatchedKey db key s = Some s' \<and> touched s s' \<and> keys s' = keys s \<and>
    ((\<forall>w wk. wk_store s w = Some wk \<longrightarrow> wk_db wk = db \<longrightarrow> wk_key wk = key \<longrightarrow> \<not> wk_expired wk) \<longrightarrow>
     (\<forall>w wk. wk_store s w = Some wk \<longrightarrow> wk_db wk = db \<longrightarrow> wk_key wk = key \<longrightarrow>
        CLIENT_DIRTY_CAS (clients s' (wk_client wk))))"
proof (cases "db_watched_keys s db key")
  case None
  then have "wk_store s w = Some wk \<Longrightarrow> wk_db wk = db \<Longrightarrow> wk_key wk \<noteq> key" for w wk
    using watchers_okD(2) [OF ok, of w wk] by auto
  then show ?thesis using None ok by (auto simp: touchWatchedKey_def touched_refl)
next
  case (Some l)
  have l: "distinct l" "\<forall>w \<in> set l. watches s db key w"
    using watchers_okD(3) [OF ok Some] by (auto simp: watches_def)
  have "w \<in> set l" if "wk_store s w = Some wk" "wk_db wk = db" "wk_key wk = key" for w wk
    using watchers_okD(2) [OF ok that(1)] Some that by auto
  moreover obtain s' where "touch_loop db key l s = Some s'" "touched s s'" "keys s' = keys s"
    "(\<forall>w \<in> set l. \<forall>wk. wk_store s w = Some wk \<longrightarrow> \<not> wk_expired wk) \<longrightarrow>
       (\<forall>w \<in> set l. \<forall>wk. wk_store s w = Some wk \<longrightarrow> CLIENT_DIRTY_CAS (clients s' (wk_client wk)))"
    using touch_loop_ok [OF ok l] by blast
  moreover have "\<not> wk_expired wk" if "\<forall>w wk. wk_store s w = Some wk \<longrightarrow> wk_db wk = db \<longrightarrow> wk_key wk = key \<longrightarrow> \<not> wk_expired wk"
    "w \<in> set l" "wk_store s w = Some wk" for w wk
    using that l(2) by (auto simp: watches_def)
  ultimately show ?thesis using Some by (auto simp: touchWatchedKey_def)
qed

lemma touch_all_loop_ok:
  assumes "watchers_ok s" "\<forall>w \<in> set ws. wk_store s w \<noteq> None"
  shows "\<exists>s'. touch_all_loop e r key ws s = Some s' \<and> touched s s' \<and> keys s' = keys s \<and>
    db_watched_keys s' = db_watched_keys s \<and> (\<forall>w. wk_store s w \<noteq> None \<longrightarrow> wk_store s' w \<noteq> None)"
  using assms
proof (induction ws arbitrary: s)
  case Nil
  then show ?case by (simp add: touched_refl)
next
  case (Cons w ws)
  note ok = Cons.prems(1)
  obtain wk where wk: "wk_store s w = Some wk" using Cons.prems(2) by auto
  have E: "\<exists>s'. touch_all_loop e r key ws s1 = Some s' \<and> touched s s' \<and> keys s' = keys s \<and>
      db_watched_keys s' = db_watched_keys s \<and> (\<forall>w. wk_store s w \<noteq> None \<longrightarrow> wk_store s' w \<noteq> None)"
    if s1: "touched s s1" "keys s1 = keys s" "db_watched_keys s1 = db_watched_keys s"
      "\<forall>w. wk_store s w \<noteq> None \<longrightarrow> wk_store s1 w \<noteq> None" for s1
  proof -
    have ok1: "watchers_ok s1" using s1(1) by (simp add: touched_def)
    have ws1: "\<forall>w \<in> set ws. wk_store s1 w \<noteq> None" using Cons.prems(2) s1(4) by simp
    obtain s' where "touch_all_loop e r key ws s1 = Some s'" "touched s1 s'" "keys s' = keys s1"
      "db_watched_keys s' = db_watched_keys s1" "\<forall>w. wk_store s1 w \<noteq> None \<longrightarrow> wk_store s' w \<noteq> None"
      using Cons.IH [OF ok1 ws1] by blast
    then show ?thesis using s1 touched_trans [OF s1(1), of s'] by simp
  qed
  have X: "touched s (s\<lparr>wk_store := (wk_store s)(w \<mapsto> wk\<lparr>wk_expired := b\<rparr>)\<rparr>)" for b
    using watchers_ok_expired [OF ok wk, of b] by (simp add: touched_def)
  have Y: "touched s (upd_client (wk_client wk) (\<lambda>cl. cl\<lparr>CLIENT_DIRTY_CAS := True\<rparr>) s)"
    using ok by (simp add: touched_def marked_def)
  show ?case
    using E [OF X [of True]] E [OF X [of False]] E [OF Y] E [OF touched_refl [OF ok]] wk by (simp add: Let_def)
qed

lemma touchAllWatchedKeysInDb_ok:
  assumes "watchers_ok s"
  shows "\<exists>s'. touchAllWatchedKeysInDb e r order s = Some s' \<and> touched s s' \<and> keys s' = keys s"
  using assms
proof (induction order arbitrary: s)
  case Nil
  then show ?case by (simp add: touched_refl)
next
  case (Cons key order)
  have "\<exists>s1. (case db_watched_keys s e key of None \<Rightarrow> Some s | Some cls \<Rightarrow> touch_all_loop e r key cls s) = Some s1 \<and>
      touched s s1 \<and> keys s1 = keys s"
  proof (cases "db_watched_keys s e key")
    case (Some cls)
    then have "\<forall>w \<in> set cls. wk_store s w \<noteq> None" using watchers_okD(3) [OF Cons.prems Some] by auto
    then show ?thesis using Some touch_all_loop_ok [OF Cons.prems, of cls e r key] by auto
  qed (use Cons.prems in \<open>simp add: touched_refl\<close>)
  then obtain s1 where s1: "(case db_watched_keys s e key of None \<Rightarrow> Some s | Some cls \<Rightarrow> touch_all_loop e r key cls s) = Some s1"
    "touched s s1" "keys s1 = keys s" by blast
  have "\<exists>s'. touchAllWatchedKeysInDb e r order t = Some s' \<and> touched s s' \<and> keys s' = keys s"
    if t: "touched s t" "keys t = keys s" for t
  proof -
    have "watchers_ok t" using t(1) by (simp add: touched_def)
    then obtain s' where "touchAllWatchedKeysInDb e r order t = Some s'" "touched t s'" "keys s' = keys t"
      using Cons.IH by blast
    then show ?thesis using t touched_trans [OF t(1), of s'] by simp
  qed
  from this [OF s1(2,3)] this [OF touched_refl [OF Cons.prems]] show ?case using s1(1) by simp
qed

lemma run_effects_ok:
  assumes "watchers_ok s"
  shows "\<exists>s'. run_effects es s = Some s' \<and> touched s s' \<and> keys s' = (if es = [] then keys s else fst (last es))"
  using assms
proof (induction es arbitrary: s)
  case Nil
  then show ?case by (simp add: touched_refl)
next
  case (Cons e es)
  let ?s = "s\<lparr>keys := fst e\<rparr>"
  obtain s1 where s1: "touchWatchedKey (fst (snd e)) (snd (snd e)) ?s = Some s1" "touched ?s s1" "keys s1 = fst e"
    using touchWatchedKey_ok [of ?s "fst (snd e)" "snd (snd e)"] Cons.prems by auto
  have t: "touched s s1" using s1(2) by (simp add: touched_def)
  obtain s' where "run_effects es s1 = Some s'" "touched s1 s'" "keys s' = (if es = [] then keys s1 else fst (last es))"
    using Cons.IH [of s1] s1(2) by (auto simp: touched_def)
  then show ?case using s1(1,3) touched_trans [OF t, of s'] by simp
qed

section \<open>Commands\<close>

text \<open>What a client's command may do to the others, and to the client's own transaction.\<close>

definition stays :: "nat \<Rightarrow> ('c, 'v) redisServer \<Rightarrow> ('c, 'v) redisServer \<Rightarrow> bool" where
  "stays c s s' \<longleftrightarrow> watchers_ok s' \<and> in_exec s' = in_exec s \<and> acl s' = acl s \<and>
     (\<forall>c'. c' \<noteq> c \<longrightarrow> marked (clients s c') (clients s' c')) \<and>
     mstate (clients s' c) = mstate (clients s c) \<and> CLIENT_MULTI (clients s' c) = CLIENT_MULTI (clients s c) \<and>
     CLIENT_DIRTY_EXEC (clients s' c) = CLIENT_DIRTY_EXEC (clients s c)"

lemma stays_refl: "watchers_ok s \<Longrightarrow> stays c s s" by (simp add: stays_def)

lemma stays_trans:
  assumes "stays c s s'" "stays c s' s''" shows "stays c s s''"
proof -
  have "marked (clients s c') (clients s'' c')" if "c' \<noteq> c" for c'
    using assms that marked_trans [of "clients s c'" "clients s' c'" "clients s'' c'"] by (simp add: stays_def)
  then show ?thesis using assms by (simp add: stays_def)
qed

lemma touched_stays:
  assumes "touched s s'" shows "stays c s s'"
proof -
  have "marked (clients s c') (clients s' c')" for c' using assms by (simp add: touched_def)
  then show ?thesis using touched_fields(1-3) [OF assms, of c] touched_fields(6-8) [OF assms] by (simp add: stays_def)
qed

text \<open>What a command does to the database of the client and the keys, watching aside.\<close>

definition call_spec ::
    "('c, 'v, 'r) semantics \<Rightarrow> 'c redisCommand \<Rightarrow> bytes list \<Rightarrow> nat \<times> 'v keyspace \<Rightarrow> 'r mreply \<times> nat \<times> 'v keyspace" where
  "call_spec sem cmd argv = (\<lambda>(db, ks).
     (case cmd of
        CmdUnwatch \<Rightarrow> (ReplyOk, db, ks)
      | CmdSelect i \<Rightarrow> (if 0 \<le> i \<and> i < int (ks_dbnum ks) then (ReplyOk, nat i, ks) else (ErrDbIndex, db, ks))
      | CmdOther x \<Rightarrow> (let (r, es) = sem x argv db ks in (ReplyOf r, db, if es = [] then ks else fst (last es)))))"

abbreviation view :: "nat \<Rightarrow> ('c, 'v) redisServer \<Rightarrow> nat \<times> 'v keyspace" where
  "view c s \<equiv> (c_db (clients s c), keys s)"

lemma unwatchCommand_ok:
  assumes "watchers_ok s"
  shows "\<exists>s'. unwatchCommand c s = Some (ReplyOk, s') \<and> stays c s s' \<and> view c s' = view c s \<and> watched s' c = [] \<and>
    (\<forall>c'. c' \<noteq> c \<longrightarrow> clients s' c' = clients s c')"
  using watchers_ok_unwatched [OF assms, of c]
  by (auto simp: unwatchCommand_def unwatchAllKeys_eq [OF assms] stays_def)

lemma call_ok:
  assumes "watchers_ok s"
  shows "\<exists>s'. call sem c cmd argv s = Some (fst (call_spec sem cmd argv (view c s)), s') \<and> stays c s s' \<and>
    view c s' = snd (call_spec sem cmd argv (view c s))"
proof (cases cmd)
  case CmdUnwatch
  then show ?thesis using unwatchCommand_ok [OF assms, of c] by (auto simp: call_def call_spec_def)
next
  case (CmdSelect i)
  then show ?thesis using assms
    by (simp add: call_def call_spec_def selectCommand_def selectDb_def stays_def)
next
  case (CmdOther x)
  obtain r es where e: "sem x argv (c_db (clients s c)) (keys s) = (r, es)" by fastforce
  obtain s' where "run_effects es s = Some s'" "touched s s'" "keys s' = (if es = [] then keys s else fst (last es))"
    using run_effects_ok [OF assms] by blast
  then show ?thesis using CmdOther e touched_stays [of s s' c] touched_fields(9) [of s s' c]
    by (simp add: call_def call_spec_def)
qed

fun exec_spec ::
    "('c, 'v, 'r) semantics \<Rightarrow> ('c redisCommand \<Rightarrow> bytes list \<Rightarrow> bool) \<Rightarrow> 'c multiCmd list \<Rightarrow> nat \<times> 'v keyspace \<Rightarrow>
     'r mreply list \<times> nat \<times> 'v keyspace" where
  "exec_spec sem a [] v = ([], v)"
| "exec_spec sem a (mc # mcs) v =
     (let (r, v) = (if a (mc_cmd mc) (mc_argv mc) then call_spec sem (mc_cmd mc) (mc_argv mc) v else (ErrNoPerm, v));
          (rs, v) = exec_spec sem a mcs v
      in (r # rs, v))"

lemma exec_loop_ok:
  assumes "watchers_ok s"
  shows "\<exists>s'. exec_loop sem c mcs s = Some (fst (exec_spec sem (acl s c) mcs (view c s)), s') \<and> stays c s s' \<and>
    view c s' = snd (exec_spec sem (acl s c) mcs (view c s))"
  using assms
proof (induction mcs arbitrary: s)
  case Nil
  then show ?case by (simp add: stays_refl)
next
  case (Cons mc mcs)
  let ?x = "if acl s c (mc_cmd mc) (mc_argv mc) then call_spec sem (mc_cmd mc) (mc_argv mc) (view c s) else (ErrNoPerm, view c s)"
  obtain s1 where s1: "(if \<not> acl s c (mc_cmd mc) (mc_argv mc) then Some (ErrNoPerm, s) else call sem c (mc_cmd mc) (mc_argv mc) s) =
      Some (fst ?x, s1)" "stays c s s1" "view c s1 = snd ?x"
  proof (cases "acl s c (mc_cmd mc) (mc_argv mc)")
    case True
    then show ?thesis using call_ok [OF Cons.prems, of sem c "mc_cmd mc" "mc_argv mc"] that by force
  next
    case False
    then show ?thesis using that [of s] stays_refl [OF Cons.prems, of c] by simp
  qed
  have a: "acl s1 = acl s" "watchers_ok s1" using s1(2) by (simp_all add: stays_def)
  obtain s' where "exec_loop sem c mcs s1 = Some (fst (exec_spec sem (acl s c) mcs (view c s1)), s')" "stays c s1 s'"
    "view c s' = snd (exec_spec sem (acl s c) mcs (view c s1))" using Cons.IH [OF a(2)] unfolding a(1) by blast
  then show ?case using s1(1) stays_trans [OF s1(2), of s'] unfolding s1(3) exec_spec.simps(2) exec_loop.simps(2)
    by (intro exI [of _ s']) (simp add: split_beta)
qed

text \<open>The end of a transaction.\<close>

definition idle :: "'c client \<Rightarrow> bool" where
  "idle cl \<longleftrightarrow> \<not> CLIENT_MULTI cl \<and> \<not> CLIENT_DIRTY_CAS cl \<and> \<not> CLIENT_DIRTY_EXEC cl \<and> commands (mstate cl) = [] \<and>
     c_watched_keys cl = []"

lemma idle_queue_ok: "idle cl \<Longrightarrow> alloc_count (mstate cl) \<le> INT_MAX \<Longrightarrow> queue_ok cl"
  by (simp add: idle_def queue_ok_def)

lemma discardTransaction_ok:
  assumes "watchers_ok s"
  shows "\<exists>s'. discardTransaction c s = Some s' \<and> watchers_ok s' \<and> keys s' = keys s \<and> in_exec s' = in_exec s \<and>
    c_db (clients s' c) = c_db (clients s c) \<and> acl s' = acl s \<and> idle (clients s' c) \<and> queue_ok (clients s' c) \<and>
    (\<forall>c'. c' \<noteq> c \<longrightarrow> clients s' c' = clients s c')"
proof -
  let ?s = "upd_client c (\<lambda>cl. cl\<lparr>CLIENT_MULTI := False, CLIENT_DIRTY_CAS := False, CLIENT_DIRTY_EXEC := False\<rparr>)
      (upd_client c initClientMultiState s)"
  have ok: "watchers_ok ?s" using assms by (simp add: initClientMultiState_def)
  show ?thesis using watchers_ok_unwatched [OF ok, of c]
    by (simp add: discardTransaction_def unwatchAllKeys_eq [OF ok] idle_def queue_ok_def initClientMultiState_def)
qed

lemma isWatchedKeyExpired_ok:
  assumes "watchers_ok s"
  shows "\<exists>b. isWatchedKeyExpired c s = Some b"
proof -
  have "\<forall>w \<in> set ws. wk_store s w \<noteq> None \<Longrightarrow> \<exists>b. isWatchedKeyExpired_loop s ws = Some b" for ws
    by (induction ws) auto
  moreover have "\<forall>w \<in> set (watched s c). wk_store s w \<noteq> None" using watchers_okD(1) [OF assms] by fastforce
  ultimately show ?thesis by (simp add: isWatchedKeyExpired_def)
qed

text \<open>\<open>EXEC\<close> inside a transaction: it runs the whole queue on the keys, or nothing of it.\<close>

lemma execCommand_ok:
  assumes ok: "watchers_ok s" and m: "CLIENT_MULTI (clients s c)"
  shows "\<exists>b r s'. isWatchedKeyExpired c s = Some b \<and> execCommand sem c s = Some (r, s') \<and> watchers_ok s' \<and>
    idle (clients s' c) \<and> queue_ok (clients s' c) \<and> (\<not> in_exec s \<longrightarrow> \<not> in_exec s') \<and> acl s' = acl s \<and>
    (\<forall>c'. c' \<noteq> c \<longrightarrow> marked (clients s c') (clients s' c')) \<and>
    (if b \<or> CLIENT_DIRTY_CAS (clients s c) \<or> CLIENT_DIRTY_EXEC (clients s c)
     then r = (if CLIENT_DIRTY_EXEC (clients s c) then ErrExecAbort else ReplyNullArray) \<and> view c s' = view c s
     else r = ReplyExec (fst (exec_spec sem (acl s c) (commands (mstate (clients s c))) (view c s))) \<and>
       view c s' = snd (exec_spec sem (acl s c) (commands (mstate (clients s c))) (view c s)))"
proof -
  obtain b where b: "isWatchedKeyExpired c s = Some b" using isWatchedKeyExpired_ok [OF ok] by blast
  define s1 where "s1 = (if b then upd_client c (\<lambda>cl. cl\<lparr>CLIENT_DIRTY_CAS := True\<rparr>) s else s)"
  have ok1: "watchers_ok s1" using ok by (simp add: s1_def)
  have e1: "keys s1 = keys s" "in_exec s1 = in_exec s" "acl s1 = acl s" "c' \<noteq> c \<Longrightarrow> clients s1 c' = clients s c'"
    "CLIENT_DIRTY_EXEC (clients s1 c) = CLIENT_DIRTY_EXEC (clients s c)"
    "CLIENT_DIRTY_CAS (clients s1 c) \<longleftrightarrow> b \<or> CLIENT_DIRTY_CAS (clients s c)" "mstate (clients s1 c) = mstate (clients s c)"
    "c_db (clients s1 c) = c_db (clients s c)" for c'
    by (simp_all add: s1_def)
  show ?thesis
  proof (cases "CLIENT_DIRTY_CAS (clients s1 c) \<or> CLIENT_DIRTY_EXEC (clients s1 c)")
    case True
    obtain s' where s': "discardTransaction c s1 = Some s'" "watchers_ok s'" "keys s' = keys s1" "in_exec s' = in_exec s1" "c_db (clients s' c) = c_db (clients s1 c)"
      "acl s' = acl s1" "idle (clients s' c)" "queue_ok (clients s' c)" "\<forall>c'. c' \<noteq> c \<longrightarrow> clients s' c' = clients s1 c'"
      using discardTransaction_ok [OF ok1] by blast
    have "execCommand sem c s = Some (if CLIENT_DIRTY_EXEC (clients s1 c) then ErrExecAbort else ReplyNullArray, s')"
      using m b True s'(1) by (simp add: execCommand_def s1_def [symmetric])
    then show ?thesis using b True s' e1(1-6,8)
      by (intro exI [of _ b] exI [of _ "if CLIENT_DIRTY_EXEC (clients s1 c) then ErrExecAbort else ReplyNullArray"] exI [of _ s'])
        simp
  next
    case False
    define s2 where "s2 = (unwatched c (upd_client c (\<lambda>cl. cl\<lparr>CLIENT_DENY_BLOCKING := True\<rparr>) s1))\<lparr>in_exec := True\<rparr>"
    have ok2: "watchers_ok s2" using watchers_ok_unwatched [of "upd_client c _ s1" c] ok1 by (simp add: s2_def)
    have u: "unwatchAllKeys c (upd_client c (\<lambda>cl. cl\<lparr>CLIENT_DENY_BLOCKING := True\<rparr>) s1) =
        Some (unwatched c (upd_client c (\<lambda>cl. cl\<lparr>CLIENT_DENY_BLOCKING := True\<rparr>) s1))"
      using ok1 by (intro unwatchAllKeys_eq) simp
    have e2: "acl s2 = acl s" "view c s2 = view c s" "mstate (clients s2 c) = mstate (clients s c)"
      "c' \<noteq> c \<Longrightarrow> clients s2 c' = clients s c'" for c' by (simp_all add: s2_def e1)
    obtain s3 where s3: "exec_loop sem c (commands (mstate (clients s c))) s2 =
        Some (fst (exec_spec sem (acl s c) (commands (mstate (clients s c))) (view c s)), s3)" "stays c s2 s3"
      "view c s3 = snd (exec_spec sem (acl s c) (commands (mstate (clients s c))) (view c s))"
      using exec_loop_ok [OF ok2, of sem c "commands (mstate (clients s c))"] unfolding e2 by blast
    define s4 where "s4 = (if \<not> CLIENT_DENY_BLOCKING (clients s1 c)
      then upd_client c (\<lambda>cl. cl\<lparr>CLIENT_DENY_BLOCKING := False\<rparr>) s3 else s3)"
    have ok4: "watchers_ok s4" using s3(2) by (simp add: s4_def stays_def)
    have e4: "view c s4 = view c s3" "acl s4 = acl s" "c' \<noteq> c \<Longrightarrow> marked (clients s c') (clients s4 c')" for c'
      using s3(2) e2 by (auto simp: s4_def stays_def)
    obtain s' where s': "discardTransaction c s4 = Some s'" "watchers_ok s'" "keys s' = keys s4" "c_db (clients s' c) = c_db (clients s4 c)"
      "acl s' = acl s4" "idle (clients s' c)" "queue_ok (clients s' c)" "\<forall>c'. c' \<noteq> c \<longrightarrow> clients s' c' = clients s4 c'"
      using discardTransaction_ok [OF ok4] by blast
    have "execCommand sem c s =
        Some (ReplyExec (fst (exec_spec sem (acl s c) (commands (mstate (clients s c))) (view c s))), s'\<lparr>in_exec := False\<rparr>)"
      using m b False u s3(1) s'(1) e1(7)
      by (simp add: execCommand_def s1_def [symmetric] s2_def [symmetric] s4_def [symmetric] Let_def)
    then show ?thesis using b False s' e1(5,6) e4 s3(3)
      by (intro exI [of _ b] exI [of _ "ReplyExec (fst (exec_spec sem (acl s c) (commands (mstate (clients s c))) (view c s)))"]
          exI [of _ "s'\<lparr>in_exec := False\<rparr>"]) simp
  qed
qed

section \<open>Watching a key\<close>

lemma already_watched_eq:
  "\<forall>w \<in> set ws. wk_store s w \<noteq> None \<Longrightarrow> already_watched s db key ws = Some (\<exists>w \<in> set ws. watches s db key w)"
proof (induction ws)
  case (Cons w ws)
  then obtain wk where "wk_store s w = Some wk" by auto
  then show ?case using Cons by (auto simp: watches_def)
qed simp

lemma watchers_ok_add:
  assumes ok: "watchers_ok s" and new: "\<forall>w \<in> set (watched s c). \<not> watches s db key w"
    and wk: "wk_client wk = c" "wk_db wk = db" "wk_key wk = key"
    and s': "clients s' = (clients s)(c := (clients s c)\<lparr>c_watched_keys := watched s c @ [wk_next s]\<rparr>)"
      "wk_store s' = (wk_store s)(wk_next s \<mapsto> wk)" "wk_next s' = wk_next s + 1"
      "db_watched_keys s' = (db_watched_keys s)(db := (db_watched_keys s db)(key \<mapsto>
         (case db_watched_keys s db key of None \<Rightarrow> [] | Some l \<Rightarrow> l) @ [wk_next s]))"
      "watching_clients s' = (if watched s c = [] then watching_clients s + 1 else watching_clients s)"
  shows "watchers_ok s'"
proof -
  note W = watchers_okD [OF ok]
  have fresh: "wk_store s (wk_next s) = None" using W(2) [of "wk_next s"] by (cases "wk_store s (wk_next s)") auto
  have nw: "wk_next s \<notin> set (watched s c')" for c' using W(1) [of "wk_next s" c'] fresh by auto
  have nl: "wk_next s \<notin> set l" if "db_watched_keys s d k = Some l" for d k l using W(3) [OF that] fresh by auto
  have 1: "\<exists>k. wk_store s' w = Some k \<and> wk_client k = c'" if w: "w \<in> set (watched s' c')" for w c'
  proof (cases "w = wk_next s")
    case True
    then have "c' = c" using w nw [of c'] by (auto simp: s' split: if_splits)
    then show ?thesis using True wk by (simp add: s')
  next
    case False
    then have "w \<in> set (watched s c')" using w by (auto simp: s' split: if_splits)
    then show ?thesis using W(1) [of w c'] False by (simp add: s')
  qed
  have 2: "w < wk_next s' \<and> w \<in> set (watched s' (wk_client k)) \<and>
      (\<exists>l. db_watched_keys s' (wk_db k) (wk_key k) = Some l \<and> w \<in> set l)" if w: "wk_store s' w = Some k" for w k
  proof (cases "w = wk_next s")
    case True
    then show ?thesis using w wk by (simp add: s')
  next
    case False
    then have "wk_store s w = Some k" using w by (simp add: s')
    from W(2) [OF this] obtain l where "w < wk_next s" "w \<in> set (watched s (wk_client k))"
      "db_watched_keys s (wk_db k) (wk_key k) = Some l" "w \<in> set l" by blast
    then show ?thesis by (auto simp: s')
  qed
  have 3: "l \<noteq> [] \<and> distinct l \<and> (\<forall>w \<in> set l. \<exists>k. wk_store s' w = Some k \<and> wk_db k = d \<and> wk_key k = x)"
    if l: "db_watched_keys s' d x = Some l" for d x l
  proof -
    have old: "\<forall>w \<in> set l0. \<exists>k. wk_store s' w = Some k \<and> wk_db k = d \<and> wk_key k = x"
      if l0: "db_watched_keys s d x = Some l0" for l0
      using W(3) [OF l0] nl [OF l0] by (auto simp: s')
    show ?thesis
    proof (cases "d = db \<and> x = key")
      case False
      then have "db_watched_keys s d x = Some l" using l by (auto simp: s' split: if_splits)
      then show ?thesis using W(3) [of d x l] old by blast
    next
      case True
      show ?thesis
      proof (cases "db_watched_keys s d x")
        case None
        then have "l = [wk_next s]" using l True by (simp add: s')
        then show ?thesis using True wk by (simp add: s')
      next
        case (Some l0)
        then have "l = l0 @ [wk_next s]" using l True by (simp add: s')
        then show ?thesis using old [OF Some] W(3) [OF Some] nl [OF Some] True wk by (auto simp: s')
      qed
    qed
  qed
  have 4: "distinct (watched s' c')" for c' using W(4) nw by (simp add: s')
  have other: "\<not> (wk_db k = db \<and> wk_key k = key)" if "wk_store s w = Some k" "wk_client k = c" for w k
    using W(2) [OF that(1)] that new by (auto simp: watches_def)
  have 5: "w = w'" if v: "wk_store s' w = Some k" "wk_store s' w' = Some k'" "wk_client k = wk_client k'"
      "wk_db k = wk_db k'" "wk_key k = wk_key k'" for w w' k k'
  proof -
    consider "w = w'" | "w = wk_next s" "w' \<noteq> wk_next s" | "w \<noteq> wk_next s" "w' = wk_next s"
      | "w \<noteq> wk_next s" "w' \<noteq> wk_next s" by blast
    then show ?thesis
    proof cases
      case 4
      then show ?thesis using v W(5) [of w k w' k'] by (simp add: s')
    qed (use v wk other [of w k] other [of w' k'] in \<open>auto simp: s'\<close>)
  qed
  have eq: "{c'. watched s' c' \<noteq> []} = insert c {c'. watched s c' \<noteq> []}" by (auto simp: s')
  have 7: "watching_clients s' = card {c'. watched s' c' \<noteq> []}"
    using W(6,7) unfolding eq by (simp add: s'(5) insert_absorb)
  show ?thesis unfolding watchers_ok_def
    using 1 2 3 4 5 7 W(6) eq by (intro conjI allI impI ballI) simp_all
qed

text \<open>A step in which only the list of watched keys of one client grows.\<close>

definition grows :: "nat \<Rightarrow> ('c, 'v) redisServer \<Rightarrow> ('c, 'v) redisServer \<Rightarrow> bool" where
  "grows c s s' \<longleftrightarrow> watchers_ok s' \<and> in_exec s' = in_exec s \<and> acl s' = acl s \<and> keys s' = keys s \<and>
     (\<exists>l. clients s' = (clients s)(c := (clients s c)\<lparr>c_watched_keys := l\<rparr>))"

lemma grows_trans: "grows c s s' \<Longrightarrow> grows c s' s'' \<Longrightarrow> grows c s s''"
  by (auto simp: grows_def)

lemma watchForKey_ok:
  assumes ok: "watchers_ok s" shows "\<exists>s'. watchForKey c key s = Some s' \<and> grows c s s'"
proof -
  define db where "db = c_db (clients s c)"
  define s0 where "s0 = (if watched s c = [] then s\<lparr>watching_clients := watching_clients s + 1\<rparr> else s)"
  have st: "\<forall>w \<in> set (watched s c). wk_store s w \<noteq> None" using watchers_okD(1) [OF ok] by fastforce
  have s0: "clients s0 = clients s" "wk_store s0 = wk_store s" "wk_next s0 = wk_next s" "keys s0 = keys s"
    "db_watched_keys s0 = db_watched_keys s" "in_exec s0 = in_exec s" "acl s0 = acl s"
    "watching_clients s0 = (if watched s c = [] then watching_clients s + 1 else watching_clients s)"
    by (simp_all add: s0_def)
  have a: "already_watched s0 db key (watched s c) = Some (\<exists>w \<in> set (watched s c). watches s db key w)"
    using already_watched_eq [of "watched s c" s0 db key] st by (simp add: s0 watches_def)
  show ?thesis
  proof (cases "\<exists>w \<in> set (watched s c). watches s db key w")
    case True
    then have "watched s c \<noteq> []" by auto
    then have "s0 = s" by (simp add: s0_def)
    then show ?thesis using a True ok
      by (intro exI [of _ s]) (auto simp: watchForKey_def s0_def [symmetric] db_def Let_def grows_def intro!: exI [of _ "watched s c"])
  next
    case False
    define wk where "wk = \<lparr>wk_key = key, wk_db = db, wk_client = c, wk_expired = keyIsExpired (keys s) db key\<rparr>"
    define s1 where "s1 = upd_client c (\<lambda>cl. cl\<lparr>c_watched_keys := c_watched_keys cl @ [wk_next s]\<rparr>)
      (s0\<lparr>wk_next := wk_next s + 1, wk_store := (wk_store s)(wk_next s \<mapsto> wk)\<rparr>)"
    define s' where "s' = s1\<lparr>db_watched_keys := (db_watched_keys s)(db := (db_watched_keys s db)(key \<mapsto>
         (case db_watched_keys s db key of None \<Rightarrow> [] | Some l \<Rightarrow> l) @ [wk_next s]))\<rparr>"
    have "watchers_ok s'"
      using False by (intro watchers_ok_add [OF ok, of c db key wk]) (simp_all add: wk_def s'_def s1_def s0)
    moreover have "watchForKey c key s = Some s'"
      using a False by (simp add: watchForKey_def s0_def [symmetric] s0 db_def [symmetric] wk_def [symmetric] s'_def s1_def Let_def)
    ultimately show ?thesis by (auto simp: grows_def s'_def s1_def s0)
  qed
qed

lemma watch_keys_ok:
  assumes "watchers_ok s" shows "\<exists>s'. watch_keys c ks s = Some s' \<and> grows c s s'"
  using assms
proof (induction ks arbitrary: s)
  case Nil
  then show ?case by (auto simp: grows_def intro!: exI [of _ "watched s c"])
next
  case (Cons key ks)
  obtain s1 where s1: "watchForKey c key s = Some s1" "grows c s s1" using watchForKey_ok [OF Cons.prems] by blast
  then obtain s' where "watch_keys c ks s1 = Some s'" "grows c s1 s'" using Cons.IH [of s1] by (auto simp: grows_def)
  then show ?case using s1 grows_trans [OF s1(2), of s'] by simp
qed

section \<open>Events\<close>

definition multi_inv :: "('c, 'v) redisServer \<Rightarrow> bool" where
  "multi_inv s \<longleftrightarrow> watchers_ok s \<and> (\<forall>c. queue_ok (clients s c)) \<and> \<not> in_exec s"

text \<open>The number of queued commands is an \<open>int\<close>.\<close>

fun event_fits :: "'c event \<Rightarrow> ('c, 'v) redisServer \<Rightarrow> bool" where
  "event_fits (EvRequest c req flags) s \<longleftrightarrow> length (commands (mstate (clients s c))) < INT_MAX"
| "event_fits _ s \<longleftrightarrow> True"

text \<open>Events that do not end the transaction of a client or its watches on purpose.\<close>

fun keeps :: "nat \<Rightarrow> 'c event \<Rightarrow> bool" where
  "keeps c (EvRequest c' req flags) \<longleftrightarrow> c' \<noteq> c \<or> req \<notin> {ReqExec, ReqDiscard, ReqUnwatch}"
| "keeps c (EvReject c' is_exec) \<longleftrightarrow> c' \<noteq> c \<or> \<not> is_exec"
| "keeps c (EvFree c') \<longleftrightarrow> c' \<noteq> c"
| "keeps c _ \<longleftrightarrow> True"

definition good_step :: "nat \<Rightarrow> ('c, 'v) redisServer \<Rightarrow> ('c, 'v) redisServer \<Rightarrow> bool" where
  "good_step c s s' \<longleftrightarrow> multi_inv s' \<and> (\<forall>c'. c' \<noteq> c \<longrightarrow> CLIENT_DIRTY_CAS (clients s c') \<longrightarrow> CLIENT_DIRTY_CAS (clients s' c'))"

lemma queue_ok_marked: "marked cl cl' \<Longrightarrow> queue_ok cl \<Longrightarrow> queue_ok cl'"
  by (auto simp: marked_def queue_ok_def)

lemma marked_dirty: "marked cl cl' \<Longrightarrow> CLIENT_DIRTY_CAS cl \<Longrightarrow> CLIENT_DIRTY_CAS cl'"
  by (auto simp: marked_def)

lemma good_stepI:
  assumes "multi_inv s" "watchers_ok s'" "\<not> in_exec s'" "queue_ok (clients s' c)"
    "\<And>c'. c' \<noteq> c \<Longrightarrow> marked (clients s c') (clients s' c')"
  shows "good_step c s s'"
proof -
  have "queue_ok (clients s' c')" for c'
    using assms(1,4) queue_ok_marked [OF assms(5)] by (cases "c' = c") (simp_all add: multi_inv_def)
  then show ?thesis using assms marked_dirty [OF assms(5)] by (auto simp: good_step_def multi_inv_def)
qed

lemma good_step_stays:
  assumes "multi_inv s" "stays c s s'" shows "good_step c s s'"
  using assms by (intro good_stepI) (simp_all add: stays_def multi_inv_def queue_ok_def)

lemma queueMultiCommand_ok:
  assumes "queue_ok cl" "CLIENT_MULTI cl" "length (commands (mstate cl)) < INT_MAX"
  shows "\<exists>cl'. queueMultiCommand cmd argv flags cl = Some cl' \<and> queue_ok cl' \<and>
    c_watched_keys cl' = c_watched_keys cl \<and> CLIENT_DIRTY_CAS cl' = CLIENT_DIRTY_CAS cl \<and>
    commands (mstate cl') = commands (mstate cl) @
      (if CLIENT_DIRTY_CAS cl \<or> CLIENT_DIRTY_EXEC cl then [] else [\<lparr>mc_cmd = cmd, mc_argv = argv\<rparr>])"
proof (cases "CLIENT_DIRTY_CAS cl \<or> CLIENT_DIRTY_EXEC cl")
  case True
  then show ?thesis using assms by (simp add: queueMultiCommand_def)
next
  case False
  define m where "m = mstate cl"
  define m1 where "m1 = (if length (commands m) = 0 then m\<lparr>alloc_count := 2\<rparr> else m)"
  define m2 where "m2 = (if length (commands m1) = alloc_count m1
    then m1\<lparr>alloc_count := if alloc_count m1 < INT_MAX div 2 then alloc_count m1 * 2 else INT_MAX\<rparr> else m1)"
  have m: "length (commands m) \<le> alloc_count m" "alloc_count m \<le> INT_MAX" "commands m \<noteq> [] \<longrightarrow> 2 \<le> alloc_count m"
    "length (commands m) < INT_MAX"
    using assms by (simp_all add: queue_ok_def m_def)
  have m1: "commands m1 = commands m" "length (commands m) \<le> alloc_count m1" "2 \<le> alloc_count m1" "alloc_count m1 \<le> INT_MAX"
    using m by (auto simp: m1_def INT_MAX_def)
  have m2: "commands m2 = commands m" "length (commands m) < alloc_count m2" "2 \<le> alloc_count m2" "alloc_count m2 \<le> INT_MAX"
    using m1 m(4) by (auto simp: m2_def)
  define m3 where "m3 = m2\<lparr>
             commands := commands m2 @ [\<lparr>mc_cmd = cmd, mc_argv = argv\<rparr>],
             cmd_flags := cmd_flags m2 OR ucast flags,
             cmd_inv_flags := cmd_inv_flags m2 OR ucast (NOT flags),
             argv_len_sums := ulong_add (argv_len_sums m2)
               (ulong_add (sum_list (map length argv)) (sizeof_robj_ptr * length argv))\<rparr>"
  have "queueMultiCommand cmd argv flags cl = Some (cl\<lparr>mstate := m3\<rparr>)"
    using False m2(1,2) unfolding queueMultiCommand_def Let_def m_def [symmetric] m1_def [symmetric] m2_def [symmetric]
      m3_def [symmetric] by simp
  moreover have "commands m3 = commands m @ [\<lparr>mc_cmd = cmd, mc_argv = argv\<rparr>]" "alloc_count m3 = alloc_count m2"
    by (simp_all add: m3_def m2(1))
  ultimately show ?thesis using False m2 assms(2) by (simp add: queue_ok_def m_def)
qed

lemma processCommand_ok:
  assumes inv: "multi_inv s" and fits: "length (commands (mstate (clients s c))) < INT_MAX"
  shows "\<exists>r s'. processCommand sem c req flags s = Some (r, s') \<and> good_step c s s' \<and>
    (req \<notin> {ReqExec, ReqDiscard, ReqUnwatch} \<longrightarrow> CLIENT_DIRTY_CAS (clients s c) \<longrightarrow> CLIENT_DIRTY_CAS (clients s' c))"
proof -
  have ok: "watchers_ok s" and ne: "\<not> in_exec s" and q: "queue_ok (clients s c)"
    using inv by (simp_all add: multi_inv_def)
  have queue: "\<exists>cl. queueMultiCommand cmd argv flags (clients s c) = Some cl \<and> good_step c s (upd_client c (\<lambda>_. cl) s) \<and>
      CLIENT_DIRTY_CAS cl = CLIENT_DIRTY_CAS (clients s c)" if m: "CLIENT_MULTI (clients s c)" for cmd argv
  proof -
    obtain cl where cl: "queueMultiCommand cmd argv flags (clients s c) = Some cl" "queue_ok cl"
      "c_watched_keys cl = watched s c" "CLIENT_DIRTY_CAS cl = CLIENT_DIRTY_CAS (clients s c)"
      using queueMultiCommand_ok [OF q m fits] by blast
    have "watched (upd_client c (\<lambda>_. cl) s) = watched s" using cl(3) by (auto simp: fun_eq_iff)
    then have "watchers_ok (upd_client c (\<lambda>_. cl) s)"
      using ok unfolding watchers_ok_def by (simp add: fun_eq_iff del: upd_client_simps(1))
    then show ?thesis using cl ne by (auto intro!: good_stepI [OF inv])
  qed
  have other: "\<exists>r s'. call sem c cmd argv s = Some (r, s') \<and> good_step c s s'" for cmd argv
    using call_ok [OF ok, of sem c cmd argv] good_step_stays [OF inv] by blast
  have other_dirty: "CLIENT_DIRTY_CAS (clients s' c)" if "call sem c (CmdOther x) argv s = Some (r, s')"
    "CLIENT_DIRTY_CAS (clients s c)" for x argv r s'
  proof -
    obtain r0 es where e: "sem x argv (c_db (clients s c)) (keys s) = (r0, es)" by fastforce
    obtain s1 where "run_effects es s = Some s1" "touched s s1" using run_effects_ok [OF ok] by blast
    then show ?thesis using that e touched_fields(4) [of s s1 c] by (simp add: call_def)
  qed
  show ?thesis
  proof (cases req)
    case ReqMulti
    have "good_step c s (upd_client c (\<lambda>cl. cl\<lparr>CLIENT_MULTI := True\<rparr>) s)"
      using ok ne q by (intro good_stepI [OF inv]) (simp_all add: queue_ok_def)
    moreover have "good_step c s s" using ok inv by (intro good_step_stays) (simp_all add: stays_refl)
    ultimately show ?thesis using ReqMulti by (simp add: processCommand_def multiCommand_def)
  next
    case ReqExec
    show ?thesis
    proof (cases "CLIENT_MULTI (clients s c)")
      case True
      obtain b r s' where "execCommand sem c s = Some (r, s')" "watchers_ok s'" "queue_ok (clients s' c)" "\<not> in_exec s'"
        "\<forall>c'. c' \<noteq> c \<longrightarrow> marked (clients s c') (clients s' c')" using execCommand_ok [OF ok True, of sem] ne by blast
      then show ?thesis using ReqExec good_stepI [OF inv, of s' c] by (auto simp: processCommand_def)
    next
      case False
      have "good_step c s s" using ok inv by (intro good_step_stays) (simp_all add: stays_refl)
      then show ?thesis using ReqExec False by (simp add: processCommand_def execCommand_def)
    qed
  next
    case ReqDiscard
    obtain s' where "discardTransaction c s = Some s'" "watchers_ok s'" "in_exec s' = in_exec s" "queue_ok (clients s' c)"
      "\<forall>c'. c' \<noteq> c \<longrightarrow> clients s' c' = clients s c'" using discardTransaction_ok [OF ok] by blast
    moreover have "good_step c s s" using ok inv by (intro good_step_stays) (simp_all add: stays_refl)
    ultimately show ?thesis using ReqDiscard good_stepI [OF inv, of s' c] ne
      by (auto simp: processCommand_def discardCommand_def)
  next
    case (ReqWatch ks)
    obtain s' l where "watch_keys c ks s = Some s'" "watchers_ok s'" "in_exec s' = in_exec s"
      and cl: "clients s' = (clients s)(c := (clients s c)\<lparr>c_watched_keys := l\<rparr>)"
      using watch_keys_ok [OF ok, of c ks] by (auto simp: grows_def)
    moreover have "good_step c s s'"
      using calculation ne q by (intro good_stepI [OF inv]) (simp_all add: cl queue_ok_def)
    moreover have "good_step c s s" using ok inv by (intro good_step_stays) (simp_all add: stays_refl)
    ultimately show ?thesis using ReqWatch by (auto simp: processCommand_def watchCommand_def cl)
  next
    case ReqUnwatch
    then show ?thesis using queue [of CmdUnwatch "[]"] other [of CmdUnwatch "[]"]
      by (cases "CLIENT_MULTI (clients s c)") (auto simp: processCommand_def)
  next
    case (ReqSelect i argv)
    show ?thesis
    proof (cases "CLIENT_MULTI (clients s c)")
      case True
      then show ?thesis using ReqSelect queue [OF True, of "CmdSelect i" argv] by (auto simp: processCommand_def)
    next
      case False
      obtain r s' where s': "call sem c (CmdSelect i) argv s = Some (r, s')" "good_step c s s'" using other by blast
      moreover have "CLIENT_DIRTY_CAS (clients s' c) = CLIENT_DIRTY_CAS (clients s c)"
        using s'(1) by (auto simp: call_def selectCommand_def selectDb_def split: if_splits)
      ultimately show ?thesis using ReqSelect False by (simp add: processCommand_def)
    qed
  next
    case (ReqOther x argv)
    then show ?thesis using queue [of "CmdOther x" argv] other [of "CmdOther x" argv] other_dirty
      by (cases "CLIENT_MULTI (clients s c)") (auto simp: processCommand_def)
  qed
qed

lemma rejectCommand_ok:
  assumes inv: "multi_inv s"
  shows "\<exists>r s'. rejectCommand c is_exec s = Some (r, s') \<and> good_step c s s' \<and>
    (\<not> is_exec \<longrightarrow> CLIENT_DIRTY_CAS (clients s c) \<longrightarrow> CLIENT_DIRTY_CAS (clients s' c))"
proof -
  let ?s = "flagTransaction c s"
  have ok: "watchers_ok ?s" and ne: "\<not> in_exec ?s" using inv by (simp_all add: multi_inv_def flagTransaction_def)
  have same: "c' \<noteq> c \<Longrightarrow> clients ?s c' = clients s c'" for c' by (simp add: flagTransaction_def)
  show ?thesis
  proof (cases is_exec)
    case True
    obtain s' where "discardTransaction c ?s = Some s'" "watchers_ok s'" "in_exec s' = in_exec ?s" "queue_ok (clients s' c)"
      "\<forall>c'. c' \<noteq> c \<longrightarrow> clients s' c' = clients ?s c'" using discardTransaction_ok [OF ok] by blast
    then show ?thesis using True ne same good_stepI [OF inv, of s' c]
      by (simp add: rejectCommand_def execCommandAbort_def)
  next
    case False
    have "queue_ok (clients ?s c)" using inv by (simp add: multi_inv_def flagTransaction_def queue_ok_def)
    then have "good_step c s ?s" using ok ne same by (intro good_stepI [OF inv]) simp_all
    moreover have "CLIENT_DIRTY_CAS (clients ?s c) = CLIENT_DIRTY_CAS (clients s c)" by (simp add: flagTransaction_def)
    ultimately show ?thesis using False by (simp add: rejectCommand_def)
  qed
qed

lemma freeClient_multi_ok:
  assumes inv: "multi_inv s" shows "\<exists>s'. freeClient_multi c s = Some s' \<and> good_step c s s'"
proof -
  have ok: "watchers_ok s" and ne: "\<not> in_exec s" using inv by (simp_all add: multi_inv_def)
  let ?s = "upd_client c (\<lambda>_. createClient_multi) (unwatched c s)"
  have "watched ?s = watched (unwatched c s)" by (auto simp: fun_eq_iff createClient_multi_def initClientMultiState_def)
  then have "watchers_ok ?s"
    using watchers_ok_unwatched [OF ok, of c] unfolding watchers_ok_def by (simp add: fun_eq_iff del: upd_client_simps(1) unwatched_simps(4))
  then have "good_step c s ?s" using ne
    by (intro good_stepI [OF inv]) (simp_all add: createClient_multi_def initClientMultiState_def queue_ok_def)
  then show ?thesis by (simp add: freeClient_multi_def unwatchAllKeys_eq [OF ok])
qed

text \<open>Every event keeps the invariant, and the mark of a client that does not end its transaction.\<close>

lemma exec_event_ok:
  assumes inv: "multi_inv s" and fits: "event_fits ev s"
  shows "\<exists>r s'. exec_event sem ev s = Some (r, s') \<and> multi_inv s' \<and>
    (\<forall>c. keeps c ev \<longrightarrow> CLIENT_DIRTY_CAS (clients s c) \<longrightarrow> CLIENT_DIRTY_CAS (clients s' c))"
proof (cases ev)
  case (EvRequest c req flags)
  obtain r s' where s': "processCommand sem c req flags s = Some (r, s')" "good_step c s s'"
    "req \<notin> {ReqExec, ReqDiscard, ReqUnwatch} \<longrightarrow> CLIENT_DIRTY_CAS (clients s c) \<longrightarrow> CLIENT_DIRTY_CAS (clients s' c)"
    using processCommand_ok [OF inv, of c sem req flags] fits EvRequest by auto
  have "CLIENT_DIRTY_CAS (clients s' c')" if "keeps c' ev" "CLIENT_DIRTY_CAS (clients s c')" for c'
    using that s'(2,3) EvRequest by (cases "c' = c") (simp_all add: good_step_def)
  then show ?thesis using s' EvRequest by (simp add: good_step_def)
next
  case (EvReject c is_exec)
  obtain r s' where s': "exec_event sem ev s = Some (r, s')" "good_step c s s'"
    "\<not> is_exec \<longrightarrow> CLIENT_DIRTY_CAS (clients s c) \<longrightarrow> CLIENT_DIRTY_CAS (clients s' c)"
    using rejectCommand_ok [OF inv, of c is_exec] EvReject by auto
  have "CLIENT_DIRTY_CAS (clients s' c')" if "keeps c' ev" "CLIENT_DIRTY_CAS (clients s c')" for c'
    using that s'(2,3) EvReject by (cases "c' = c") (simp_all add: good_step_def)
  then show ?thesis using s'(1,2) by (intro exI [of _ r] exI [of _ s']) (simp add: good_step_def)
next
  case (EvFree c)
  obtain s' where s': "freeClient_multi c s = Some s'" "good_step c s s'" using freeClient_multi_ok [OF inv] by blast
  have "CLIENT_DIRTY_CAS (clients s' c')" if "keeps c' ev" "CLIENT_DIRTY_CAS (clients s c')" for c'
    using that s'(2) EvFree by (simp add: good_step_def)
  then show ?thesis using s' EvFree by (simp add: good_step_def)
next
  case (EvTouchAll db r order)
  obtain s' where s': "touchAllWatchedKeysInDb db r order s = Some s'" "touched s s'"
    using touchAllWatchedKeysInDb_ok [of s db r order] inv by (auto simp: multi_inv_def)
  have m: "marked (clients s c) (clients s' c)" for c using s'(2) by (simp add: touched_def)
  have "multi_inv s'" using s'(2) inv queue_ok_marked [OF m] by (simp add: multi_inv_def touched_def)
  then show ?thesis using EvTouchAll s'(1) marked_dirty [OF m] by simp
qed (use inv in \<open>auto simp: multi_inv_def queue_ok_def\<close>)

primrec run_events ::
    "('c, 'v, 'r) semantics \<Rightarrow> 'c event list \<Rightarrow> ('c, 'v) redisServer \<Rightarrow> ('c, 'v) redisServer option" where
  "run_events sem [] s = Some s"
| "run_events sem (ev # evs) s =
     (if event_fits ev s then do { (_, s) \<leftarrow> exec_event sem ev s; run_events sem evs s } else None)"

lemma run_events_ok:
  assumes "multi_inv s" "run_events sem evs s = Some s'"
  shows "multi_inv s'"
    "\<forall>ev \<in> set evs. keeps c ev \<Longrightarrow> CLIENT_DIRTY_CAS (clients s c) \<Longrightarrow> CLIENT_DIRTY_CAS (clients s' c)"
  using assms
proof (induction evs arbitrary: s)
  case (Cons ev evs)
  { case 1
    then obtain r s1 where "exec_event sem ev s = Some (r, s1)" "multi_inv s1" "run_events sem evs s1 = Some s'"
      using exec_event_ok [of s ev sem] by (auto split: if_splits)
    then show ?case using Cons.IH(1) by blast
  next
    case 2
    then obtain r s1 where "exec_event sem ev s = Some (r, s1)" "multi_inv s1" "run_events sem evs s1 = Some s'"
      "CLIENT_DIRTY_CAS (clients s1 c)"
      using exec_event_ok [of s ev sem] by (auto split: if_splits)
    then show ?case using Cons.IH(2) 2(1) by simp }
qed simp_all

text \<open>The states of a server that starts with fresh clients.\<close>

definition multi_start :: "'v keyspace \<Rightarrow> (nat \<Rightarrow> 'c redisCommand \<Rightarrow> bytes list \<Rightarrow> bool) \<Rightarrow> ('c, 'v) redisServer" where
  "multi_start ks a = \<lparr>clients = (\<lambda>_. createClient_multi), db_watched_keys = (\<lambda>_ _. None), wk_store = (\<lambda>_. None),
     wk_next = 0, watching_clients = 0, in_exec = False, keys = ks, acl = a\<rparr>"

inductive multi_reach :: "('c, 'v, 'r) semantics \<Rightarrow> ('c, 'v) redisServer \<Rightarrow> bool" for sem where
  start: "multi_reach sem (multi_start ks a)"
| event: "multi_reach sem s \<Longrightarrow> event_fits ev s \<Longrightarrow> exec_event sem ev s = Some (r, s') \<Longrightarrow> multi_reach sem s'"

lemma multi_reach_inv: "multi_reach sem s \<Longrightarrow> multi_inv s"
proof (induction rule: multi_reach.induct)
  case (start ks a)
  then show ?case
    by (simp add: multi_start_def multi_inv_def watchers_ok_def queue_ok_def createClient_multi_def initClientMultiState_def)
next
  case (event s ev r s')
  then show ?case using exec_event_ok [OF event.IH event.hyps(2), of sem] by auto
qed

lemma multi_reach_run:
  assumes "multi_reach sem s" "run_events sem evs s = Some s'" shows "multi_reach sem s'"
  using assms
proof (induction evs arbitrary: s)
  case (Cons ev evs)
  then show ?case by (auto split: if_splits bind_splits intro: multi_reach.event)
qed simp

end
