(* ===== verification/Multi_Props.thy ===== *)
theory Multi_Props
  imports Multi_Watch
begin

text \<open>
  What \<open>WATCH\<close>, \<open>MULTI\<close> and \<open>EXEC\<close> promise to a client, in every reachable state of the server.
\<close>

section \<open>Watchers whose key was expired\<close>

lemma touch_loop_break:
  assumes "watchers_ok s" "distinct (ws @ w # ws')" "\<forall>v \<in> set (ws @ w # ws'). watches s db key v"
    "\<forall>v \<in> set ws. \<forall>k. wk_store s v = Some k \<longrightarrow> \<not> wk_expired k"
    "wk_store s w = Some wk" "wk_expired wk" "dbFind (keys s) db key \<noteq> None"
  shows "\<exists>s'. touch_loop db key (ws @ w # ws') s = Some s' \<and> touched s s' \<and>
    (\<forall>v \<in> set ws. \<forall>k. wk_store s v = Some k \<longrightarrow> CLIENT_DIRTY_CAS (clients s' (wk_client k))) \<and>
    (\<forall>v \<in> set (w # ws'). \<forall>k. wk_store s v = Some k \<longrightarrow> clients s' (wk_client k) = clients s (wk_client k))"
  using assms
proof (induction ws arbitrary: s)
  case Nil
  then show ?case by (auto simp: touched_refl)
next
  case (Cons v ws)
  note ok = Cons.prems(1)
  obtain k where k: "wk_store s v = Some k" "wk_db k = db" "wk_key k = key" "\<not> wk_expired k"
    using Cons.prems(3,4) by (auto simp: watches_def)
  define c where "c = wk_client k"
  define s1 where "s1 = unwatched c (upd_client c (\<lambda>cl. cl\<lparr>CLIENT_DIRTY_CAS := True\<rparr>) s)"
  note m = mark_client [OF ok k(1), folded c_def, folded s1_def, unfolded k(2,3)]
  have ok1: "watchers_ok s1" using m(2) by (simp add: touched_def)
  have keep: "wk_store s1 u = wk_store s u" if "u \<in> set (ws @ w # ws')" for u
    using that Cons.prems(2,3) by (intro m(6)) auto
  have other: "wk_client k' \<noteq> c" if u: "u \<in> set (w # ws')" and k': "wk_store s u = Some k'" for u k'
  proof -
    have "watches s db key u" "u \<noteq> v" using u Cons.prems(2,3) by auto
    then have "u \<noteq> v" "wk_db k' = db" "wk_key k' = key" using k' by (simp_all add: watches_def)
    then show ?thesis using watchers_okD(5) [OF ok k' k(1)] k by (auto simp: c_def)
  qed
  have "\<exists>s'. touch_loop db key (ws @ w # ws') s1 = Some s' \<and> touched s1 s' \<and>
    (\<forall>v \<in> set ws. \<forall>k. wk_store s1 v = Some k \<longrightarrow> CLIENT_DIRTY_CAS (clients s' (wk_client k))) \<and>
    (\<forall>v \<in> set (w # ws'). \<forall>k. wk_store s1 v = Some k \<longrightarrow> clients s' (wk_client k) = clients s1 (wk_client k))"
  proof (rule Cons.IH [OF ok1])
    show "\<forall>v \<in> set (ws @ w # ws'). watches s1 db key v" using Cons.prems(3) keep by (simp add: watches_def)
  qed (use Cons.prems keep m(3) in auto)
  then obtain s' where s': "touch_loop db key (ws @ w # ws') s1 = Some s'" "touched s1 s'"
    "\<forall>v \<in> set ws. \<forall>k. wk_store s1 v = Some k \<longrightarrow> CLIENT_DIRTY_CAS (clients s' (wk_client k))"
    "\<forall>v \<in> set (w # ws'). \<forall>k. wk_store s1 v = Some k \<longrightarrow> clients s' (wk_client k) = clients s1 (wk_client k)" by blast
  have "touch_loop db key ((v # ws) @ w # ws') s = Some s'" using k m(1) s'(1) by (simp add: c_def [symmetric])
  moreover have "touched s s'" using m(2) s'(2) by (rule touched_trans)
  moreover have "CLIENT_DIRTY_CAS (clients s' c)" using touched_fields(4) [OF s'(2)] m(4) by blast
  moreover have "clients s' (wk_client k') = clients s (wk_client k')" if "u \<in> set (w # ws')" "wk_store s u = Some k'" for u k'
    using that s'(4) keep [of u] m(7) [OF other [OF that]] by auto
  ultimately show ?case using s'(3) k(1) keep by (auto simp: c_def)
qed

section \<open>Properties\<close>

text \<open>A small server for the examples: one key, which expires at time 5, and commands that
  signal the key as modified.\<close>

definition demo_sem :: "(unit, unit, unit) semantics" where
  "demo_sem x argv db ks = ((), [(ks, db, [107])])"

definition demo_server :: "(unit, unit) redisServer" where
  "demo_server = multi_start
     \<lparr>ks_keys = (\<lambda>db key. if key = [107] then Some () else None), ks_expires = (\<lambda>db key. Some 5), ks_now = 0,
      ks_loading = False, ks_dbnum = 16\<rparr> (\<lambda>c cmd argv. True)"

lemmas demo_simps = demo_sem_def demo_server_def multi_start_def createClient_multi_def initClientMultiState_def
  upd_client_def processCommand_def watchCommand_def watchForKey_def multiCommand_def queueMultiCommand_def
  keyIsExpired_def getExpire_def INT_MAX_def touchWatchedKey_def unwatchAllKeys_def unwatch_one_def Let_def

text \<open>C35.  In every state that a server can reach, from fresh clients and any keys, by requests of the
  clients, rejected commands, passing time, changes of the access rules, clients that go, and
  databases that are emptied or swapped, the lists of watched keys of the clients and of the databases
  describe the same \<open>watchedKey\<close> structures, none is freed while a list holds it, no client watches a key
  twice, \<open>watching_clients\<close> is the number of clients that watch a key, and the queues lie within their
  arrays; and the next event runs without a fault whatever it is, as long as the queue is not at \<open>INT_MAX\<close> commands.\<close>

theorem multi_reach_invariant:
  assumes "multi_reach sem s" "event_fits ev s"
  shows "multi_inv s \<and> (\<exists>r s'. exec_event sem ev s = Some (r, s') \<and> multi_reach sem s')"
  using exec_event_ok [OF multi_reach_inv [OF assms(1)] assms(2), of sem] multi_reach_inv [OF assms(1)] multi_reach.event [OF assms]
  by blast

theorem multi_reach_invariant_witness:
  "multi_inv demo_server \<and> (\<exists>r s'. exec_event demo_sem (EvRequest 0 (ReqWatch [[107]]) 0) demo_server = Some (r, s') \<and>
     multi_reach demo_sem s')"
proof -
  have "multi_reach demo_sem demo_server" unfolding demo_server_def by (rule multi_reach.start)
  then show ?thesis
    by (rule multi_reach_invariant) (simp add: demo_simps)
qed



text \<open>C34.  Every transaction ends: \<open>EXEC\<close> in a transaction always returns, and leaves the client outside of a
  transaction, without marks, queued commands or watched keys.  It runs either nothing (when the client
  is marked or a key it watches has expired in the meantime) or the whole queue in its order on the keys as they were, with
  nothing of another client in between: replies, selected database and keys are those of the commands one after the
  other, a command that the access rules forbid only yielding an error.  Other clients are at most
  marked.\<close>

theorem exec_ends_transaction:
  assumes "multi_reach sem s" "CLIENT_MULTI (clients s c)"
  shows "\<exists>expired r s'. isWatchedKeyExpired c s = Some expired \<and> execCommand sem c s = Some (r, s') \<and> multi_inv s' \<and>
    idle (clients s' c) \<and> (\<forall>c'. c' \<noteq> c \<longrightarrow> marked (clients s c') (clients s' c')) \<and>
    (if expired \<or> CLIENT_DIRTY_CAS (clients s c) \<or> CLIENT_DIRTY_EXEC (clients s c)
     then r = (if CLIENT_DIRTY_EXEC (clients s c) then ErrExecAbort else ReplyNullArray) \<and> keys s' = keys s
     else (case exec_spec sem (acl s c) (commands (mstate (clients s c))) (c_db (clients s c), keys s) of (rs, db, ks) \<Rightarrow>
       r = ReplyExec rs \<and> c_db (clients s' c) = db \<and> keys s' = ks))"
proof -
  have inv: "multi_inv s" using multi_reach_inv [OF assms(1)] .
  then have ok: "watchers_ok s" and ne: "\<not> in_exec s" by (simp_all add: multi_inv_def)
  obtain b r s' where e: "isWatchedKeyExpired c s = Some b" "execCommand sem c s = Some (r, s')" "watchers_ok s'"
    "idle (clients s' c)" "queue_ok (clients s' c)" "\<not> in_exec s'" "\<forall>c'. c' \<noteq> c \<longrightarrow> marked (clients s c') (clients s' c')"
    "if b \<or> CLIENT_DIRTY_CAS (clients s c) \<or> CLIENT_DIRTY_EXEC (clients s c)
     then r = (if CLIENT_DIRTY_EXEC (clients s c) then ErrExecAbort else ReplyNullArray) \<and> view c s' = view c s
     else r = ReplyExec (fst (exec_spec sem (acl s c) (commands (mstate (clients s c))) (view c s))) \<and>
       view c s' = snd (exec_spec sem (acl s c) (commands (mstate (clients s c))) (view c s))"
    using execCommand_ok [OF ok assms(2), of sem] ne by blast
  have "good_step c s s'" using good_stepI [OF inv e(3,6,5)] e(7) by blast
  then have "multi_inv s'" by (simp add: good_step_def)
  then show ?thesis using e
    by (intro exI [of _ b] exI [of _ r] exI [of _ s']) (auto simp: split_beta prod_eq_iff split: if_splits)
qed

theorem exec_ends_transaction_witness:
  "\<exists>s r s'. run_events demo_sem [EvRequest 0 ReqMulti 0, EvRequest 0 (ReqOther () []) 0] demo_server = Some s \<and>
     length (commands (mstate (clients s 0))) = 1 \<and> execCommand demo_sem 0 s = Some (r, s') \<and> r = ReplyExec [ReplyOf ()]"
proof -
  obtain s where s: "run_events demo_sem [EvRequest 0 ReqMulti 0, EvRequest 0 (ReqOther () []) 0] demo_server = Some s"
    "CLIENT_MULTI (clients s 0)" "isWatchedKeyExpired 0 s = Some False" "\<not> CLIENT_DIRTY_CAS (clients s 0)"
    "\<not> CLIENT_DIRTY_EXEC (clients s 0)" "commands (mstate (clients s 0)) = [\<lparr>mc_cmd = CmdOther (), mc_argv = []\<rparr>]"
    "acl s = (\<lambda>c cmd argv. True)"
    by (simp add: demo_simps isWatchedKeyExpired_def)
  have "multi_reach demo_sem s"
    by (rule multi_reach_run [OF _ s(1)]) (unfold demo_server_def, rule multi_reach.start)
  then show ?thesis
    using s exec_ends_transaction [of demo_sem s 0] by (auto simp: call_spec_def demo_sem_def)
qed

text \<open>C36.  Touching a key whose watchers include one that began to watch it when it was already
  expired, while the key still exists: the loop over the watchers stops there.  The watchers before
  it are marked; this one and all later ones are left as they were, also those who began to watch
  while the key was not expired.\<close>

theorem touchWatchedKey_stops:
  assumes "multi_reach sem s" "db_watched_keys s db key = Some (ws @ w # ws')"
    "\<forall>v \<in> set ws. \<forall>k. wk_store s v = Some k \<longrightarrow> \<not> wk_expired k"
    "wk_store s w = Some wk" "wk_expired wk" "dbFind (keys s) db key \<noteq> None"
  shows "\<exists>s'. touchWatchedKey db key s = Some s' \<and>
    (\<forall>v \<in> set ws. \<forall>k. wk_store s v = Some k \<longrightarrow> CLIENT_DIRTY_CAS (clients s' (wk_client k))) \<and>
    (\<forall>v \<in> set (w # ws'). \<forall>k. wk_store s v = Some k \<longrightarrow> clients s' (wk_client k) = clients s (wk_client k))"
proof -
  have ok: "watchers_ok s" using multi_reach_inv [OF assms(1)] by (simp add: multi_inv_def)
  have "distinct (ws @ w # ws')" "\<forall>v \<in> set (ws @ w # ws'). watches s db key v"
    using watchers_okD(3) [OF ok assms(2)] unfolding watches_def by blast+
  from touch_loop_break [OF ok this assms(3-6)] show ?thesis using assms(2) by (auto simp: touchWatchedKey_def)
qed

theorem touchWatchedKey_stops_witness:
  "\<exists>s s'. run_events demo_sem [EvRequest 0 (ReqWatch [[107]]) 0, EvTime 10, EvRequest 1 (ReqWatch [[107]]) 0, EvTime 0,
       EvRequest 2 (ReqWatch [[107]]) 0] demo_server = Some s \<and>
     touchWatchedKey 0 [107] s = Some s' \<and> CLIENT_DIRTY_CAS (clients s' 0) \<and> clients s' 2 = clients s 2 \<and>
     wk_store s 2 = Some \<lparr>wk_key = [107], wk_db = 0, wk_client = 2, wk_expired = False\<rparr>"
proof -
  obtain s where s: "run_events demo_sem [EvRequest 0 (ReqWatch [[107]]) 0, EvTime 10, EvRequest 1 (ReqWatch [[107]]) 0,
      EvTime 0, EvRequest 2 (ReqWatch [[107]]) 0] demo_server = Some s"
    "wk_store s 0 = Some \<lparr>wk_key = [107], wk_db = 0, wk_client = 0, wk_expired = False\<rparr>"
    "wk_store s 1 = Some \<lparr>wk_key = [107], wk_db = 0, wk_client = 1, wk_expired = True\<rparr>"
    "wk_store s 2 = Some \<lparr>wk_key = [107], wk_db = 0, wk_client = 2, wk_expired = False\<rparr>"
    "db_watched_keys s 0 [107] = Some ([0] @ 1 # [2])" "dbFind (keys s) 0 [107] \<noteq> None"
    by (simp add: demo_simps dbFind_def)
  have "multi_reach demo_sem s"
    by (rule multi_reach_run [OF _ s(1)]) (unfold demo_server_def, rule multi_reach.start)
  from touchWatchedKey_stops [OF this s(5)] show ?thesis using s by auto
qed

end
