(* ===== verification/Spec2Isabelle.thy ===== *)
theory Spec2Isabelle
  imports Redis_Prelude Adlist Intset Dict Dict_Invariant Dict_Map Dict_Scan Util_Numbers Util_Glob Listpack_Valid
    Siphash T_Hash_Commands Multi_Props
begin

text \<open>
  A verification library for the Redis 7.4.0 server (\<^verbatim>\<open>src/library_server/redis-7.4.0/src/\<close>): the containers
  that hold the data, the string and number routines they use, the hash commands built on them, and
  the transactions in which commands run.  File names below are relative to that directory.

  \<^bold>\<open>How the code is modelled.\<close>  A C function is an Isabelle function of the same name that takes the state it
  reads and returns the state it writes.  A result of type \<open>option\<close> is \<^term>\<open>None\<close> when the C code would have
  undefined behaviour or fail an assertion: an access outside a buffer or to freed memory, a missing node,
  \<open>assert\<close>.  Buffers are lists of bytes with checked accesses (\<open>rd\<close>, \<open>wr\<close> of \<open>Redis_Prelude\<close>), linked lists live in a
  heap of nodes.  Unsigned arithmetic that can wrap is written with its modulus or over words; signed
  values are integers, converted where the code converts them.  The loops of the C code are recursive
  functions; those whose end depends on the data are \<open>partial_function (option)\<close>, and that they end is
  then proved: every theorem about them says that they return \<open>Some\<close>.  No fuel is used.  Where the code calls what it does not
  define (the allocator, \<open>rand\<close>, callbacks, the clock) the model has a parameter, and a theorem states what
  it requires of it.

  \<^bold>\<open>The theories, from the bottom.\<close>

  \<^item> \<open>Redis_Prelude\<close>: bytes, integer ranges, little-endian numbers, checked buffers, shared lemmas.
  \<^item> \<open>Adlist\<close> (\<^verbatim>\<open>adlist.c\<close>): doubly linked lists in a heap with aliasing.  \<open>list_at\<close> relates a list header and the
    heap to the sequence of values; every operation refines the operation on sequences.
  \<^item> \<open>Intset\<close> (\<^verbatim>\<open>intset.c\<close>): sorted arrays of 16, 32 or 64 bit integers in a buffer.  Search, insertion with a change of the encoding,
    removal, validation; the byte count of \<open>intsetMoveTail\<close> at its 32 bits.
  \<^item> \<open>Dict\<close>, \<open>Dict_Invariant\<close>, \<open>Dict_Map\<close>, \<open>Dict_Scan\<close> (\<^verbatim>\<open>dict.c\<close>): hash tables that are rehashed step by step.  \<open>Dict\<close>
    has the operations, \<open>Dict_Invariant\<close> the invariant \<open>dict_ok\<close> that all of them keep, \<open>Dict_Map\<close> that they refine a finite map for
    every hash function, and \<open>Dict_Scan\<close> that a scan whose table is resized and rehashed between the calls ends and misses no key.
  \<^item> \<open>Util_Numbers\<close>, \<open>Util_Glob\<close> (\<^verbatim>\<open>util.c\<close>): conversions between numbers and strings with their limits, and
    the glob matcher with its shortcut against the language of the pattern.
  \<^item> \<open>Listpack_Encoding\<close>, \<open>Listpack\<close>, \<open>Listpack_Rep\<close>, \<open>Listpack_Ops\<close>, \<open>Listpack_Valid\<close> (\<^verbatim>\<open>listpack.c\<close>): lists packed in one
    buffer, byte by byte.  \<open>lp_rep\<close> says that a buffer represents a list of elements; reading, traversal, insertion, replacement,
    deletion, batches and merging refine the list operations, and \<open>lpValidateIntegrity\<close> makes arbitrary bytes safe to traverse.
  \<^item> \<open>Siphash\<close> (\<^verbatim>\<open>siphash.c\<close>): the hash function of the dictionaries.
  \<^item> \<open>Map_Store\<close>: the locale \<open>map_store\<close>, the contract between the hash commands and a container (a finite map with
    room for some updates), with the loops of \<open>HSET\<close> and \<open>HDEL\<close> proved once.  It is interpreted for dictionaries (\<open>dict_store\<close> in \<open>Dict_Map\<close>)
    and for hash objects in both encodings (\<open>hash_store\<close> in \<open>T_Hash\<close>).
  \<^item> \<open>T_Hash\<close>, \<open>T_Hash_Commands\<close> (\<^verbatim>\<open>t_hash.c\<close>): a hash object is a listpack or a dictionary and is converted when it
    grows.  The commands refine the same commands on a finite map, over every sequence of commands, and in every reachable
    state the object is well formed and the next command runs to its end.
  \<^item> \<open>Multi\<close>, \<open>Multi_Watch\<close>, \<open>Multi_Props\<close> (\<^verbatim>\<open>multi.c\<close>, the end of \<open>processCommand\<close> and \<open>rejectCommand\<close> of \<^verbatim>\<open>server.c\<close>, \<open>keyIsExpired\<close>
    and \<open>selectDb\<close> of \<^verbatim>\<open>db.c\<close>): clients, the queues of their transactions, and the watched keys, whose \<open>watchedKey\<close> structures are
    shared by the lists of the clients and of the databases.  What other commands do to the keys is a parameter of the model.  The server is a
    transition system of events; the properties hold in its reachable states.

  \<^bold>\<open>What is not modelled.\<close>  Of the modelled files: floating point conversions and file helpers of \<^verbatim>\<open>util.c\<close>; iterators with
  fingerprints, random sampling, defragmentation and tagged pointers of \<^verbatim>\<open>dict.c\<close>; random selection of \<^verbatim>\<open>listpack.c\<close>; field
  expiration, iteration of the hash table encoding and \<open>HINCRBYFLOAT\<close> of \<^verbatim>\<open>t_hash.c\<close>; reference counts, statistics and propagation
  everywhere.  Not modelled at all: sockets and the event loop, persistence, replication, cluster and sentinel, scripting
  and modules, the remaining types of values, the command line tools, the bundled libraries under
  \<^verbatim>\<open>deps/\<close>, and the web application beside the server, which is calls of a framework.  The reasons are input and output, code that is not
  in the sources, floating point numbers, and size.
\<close>

end
